(* ===== verification/Prelude.thy ===== *)
theory Prelude
  imports Main "HOL-Library.Word"
begin

text \<open>
  The shared vocabulary of the development: bytes and machine words, the faults and error
  values of the Go code, the two chaining combinators for fallible code, the world a
  function reads (entropy and clock), the fixed-width big-endian encodings of
  \<open>encoding/binary\<close>, and the two generic interfaces used by several components
  (\<open>prefix_codec\<close> for field encoders, \<open>guarded_machine\<close> for state machines).
\<close>

unbundle bit_operations_syntax

named_theorems go_simps \<open>equations that run the chaining combinators\<close>
named_theorems go_elims \<open>inversion of a successful run\<close>

section \<open>Types\<close>

type_synonym byte = "8 word"
type_synonym bytes = "byte list"
type_synonym u32 = "32 word"
type_synonym u64 = "64 word"
type_synonym gotime = int \<comment> \<open>nanoseconds; \<open>time.Time\<close> and \<open>time.Duration\<close>\<close>

text \<open>Go strings are byte sequences; \<open>ascii\<close> writes a string constant of the source.\<close>

type_synonym gostring = bytes

definition ascii :: "string \<Rightarrow> gostring" where
  "ascii s = map of_char s"

section \<open>Faults\<close>

text \<open>
  The error values of the packages, one constructor per value (the constructors of the
  second group stand for the errors the called libraries return).
\<close>

datatype error =
    MerkleErrIndexOutOfRange
  | ErrVerification
  | PrekeyErrInvalidInclusionProof
  | PrekeyErrIndexOutOfRange
  | ErrBatchSizeNotPositive
  | ErrInvalidPublicKeyLength
  | ErrInvalidCiphertextLength
  | ErrDecapsulation
  | ErrDuplicateOrTooOld
  | ErrSkipTooLarge
  | ErrUnexpectedKEMCT
  | ErrTrailingBytesAfterHeader
  | ErrTruncatedHeader
  | ErrTruncatedHeaderField
  | ErrUnknownEnvelopeType
  | ErrTruncatedField
  | ErrTruncatedFieldBody
  | ErrTruncatedPrekeyIndex
  | ErrTruncatedLastResortFlag
  | ErrTrailingBytes
  | ErrEmptyEnvelope
  | ErrInvalidIdentityLength
  | ErrUnknownUser
  | ErrNoPrekeysPublished
  | ErrNoPrekeysAvailable
  | ErrUnknownIndex
  | ErrNoSTHPublished
  | TranslogErrInvalidInclusionProof
  | ErrEvidenceTreeSizeMismatch
  | ErrEvidenceSameRoot
  | ErrEvidenceOperatorMismatch
  | ErrEvidenceWrongOperator
  | ErrSTHFromUnexpectedOperator
  | LibErrEntropy
  | LibErrX25519Key
  | LibErrX25519LowOrder
  | LibErrMLKEMKey
  | LibErrMLDSAKey
  | LibErrAEADKey
  | LibErrAEADOpen
  | LibErrHKDFLength

text \<open>
  A call that does not return a value either returns an error, panics, or never returns.
\<close>

datatype fault = GoError error | Panics | NoReturn

section \<open>Chaining\<close>

text \<open>
  \<open>tryE\<close> is \<open>x, err := m; if err != nil { return err }\<close> for code without state, \<open>tryS\<close>
  the same for code that mutates a state: the state reached when the error is returned is
  kept, as it is in Go.
\<close>

type_synonym ('s, 'a) action = "'s \<Rightarrow> (fault + 'a) \<times> 's"

definition tryE :: "fault + 'a \<Rightarrow> ('a \<Rightarrow> fault + 'b) \<Rightarrow> fault + 'b" where
  "tryE m f = (case m of Inl e \<Rightarrow> Inl e | Inr x \<Rightarrow> f x)"

definition tryS :: "('s, 'a) action \<Rightarrow> ('a \<Rightarrow> ('s, 'b) action) \<Rightarrow> ('s, 'b) action" where
  "tryS m f = (\<lambda>s. case m s of (Inl e, s') \<Rightarrow> (Inl e, s') | (Inr x, s') \<Rightarrow> f x s')"

definition ret :: "'a \<Rightarrow> ('s, 'a) action" where
  "ret x = (\<lambda>s. (Inr x, s))"

definition fail :: "fault \<Rightarrow> ('s, 'a) action" where
  "fail e = (\<lambda>s. (Inl e, s))"

definition pureS :: "fault + 'a \<Rightarrow> ('s, 'a) action" where
  "pureS r = (\<lambda>s. (r, s))"

text \<open>Reading and updating the state.\<close>

definition asks :: "('s \<Rightarrow> 'a) \<Rightarrow> ('s, 'a) action" where
  "asks f = (\<lambda>s. (Inr (f s), s))"

definition modify :: "('s \<Rightarrow> 's) \<Rightarrow> ('s, unit) action" where
  "modify f = (\<lambda>s. (Inr (), f s))"

text \<open>
  A method that has a receiver and acts on the world runs the actions of either.
\<close>

definition liftT :: "('t, 'a) action \<Rightarrow> ('t \<times> 'w, 'a) action" where
  "liftT m = (\<lambda>(t, w). case m t of (r, t') \<Rightarrow> (r, (t', w)))"

definition liftW :: "('w, 'a) action \<Rightarrow> ('t \<times> 'w, 'a) action" where
  "liftW m = (\<lambda>(t, w). case m w of (r, w') \<Rightarrow> (r, (t, w')))"

text \<open>\<open>if !b { return err }\<close>\<close>

definition check :: "bool \<Rightarrow> fault \<Rightarrow> fault + unit" where
  "check b e = (if b then Inr () else Inl e)"

lemma tryE_simps [simp, go_simps]:
  "tryE (Inl e) f = Inl e"
  "tryE (Inr x) f = f x"
  by (simp_all add: tryE_def)

lemma tryE_Inr [go_elims]: "tryE m f = Inr y \<longleftrightarrow> (\<exists>x. m = Inr x \<and> f x = Inr y)"
  by (cases m) auto

lemma tryE_Inl:
  "tryE m f = Inl e \<longleftrightarrow> m = Inl e \<or> (\<exists>x. m = Inr x \<and> f x = Inl e)"
  by (cases m) auto

lemma tryE_cong [fundef_cong]:
  "m = m' \<Longrightarrow> (\<And>x. m' = Inr x \<Longrightarrow> f x = f' x) \<Longrightarrow> tryE m f = tryE m' f'"
  by (cases m') auto

lemma tryS_Inr [go_elims]:
  "tryS m f s = (Inr y, s') \<longleftrightarrow> (\<exists>x t. m s = (Inr x, t) \<and> f x t = (Inr y, s'))"
  by (auto simp: tryS_def split: prod.splits sum.splits)

lemma tryS_step [go_simps]:
  "m s = (Inr x, t) \<Longrightarrow> tryS m f s = f x t"
  "m s = (Inl e, t) \<Longrightarrow> tryS m f s = (Inl e, t)"
  by (simp_all add: tryS_def)

lemma tryS_basic [simp, go_simps]:
  "tryS (ret x) f = f x"
  "tryS (fail e) f = fail e"
  "tryS (pureS (Inr x)) f = f x"
  "tryS (pureS (Inl e)) f = fail e"
  by (auto simp: tryS_def ret_def fail_def pureS_def)

lemma basic_run [simp, go_simps]:
  "ret x s = (Inr x, s)"
  "fail e s = (Inl e, s)"
  "pureS r s = (r, s)"
  by (simp_all add: ret_def fail_def pureS_def)

lemma liftT_run [go_simps]:
  "m t = (r, t') \<Longrightarrow> liftT m (t, w) = (r, (t', w))"
  by (simp add: liftT_def)

lemma liftT_Inr [go_elims]:
  "liftT m p = (Inr x, q) \<longleftrightarrow> m (fst p) = (Inr x, fst q) \<and> snd q = snd p"
  by (cases p; cases q) (auto simp: liftT_def split: prod.splits)

lemma liftW_run [go_simps]:
  "m w = (r, w') \<Longrightarrow> liftW m (t, w) = (r, (t, w'))"
  by (simp add: liftW_def)

lemma liftW_Inr [go_elims]:
  "liftW m p = (Inr x, q) \<longleftrightarrow> m (snd p) = (Inr x, snd q) \<and> fst q = fst p"
  by (cases p; cases q) (auto simp: liftW_def split: prod.splits)

lemma tryS_assoc: "tryS (tryS m f) g = tryS m (\<lambda>x. tryS (f x) g)"
  by (rule ext) (simp add: tryS_def split: prod.split sum.split)

lemma asks_modify_run [simp, go_simps]:
  "asks f s = (Inr (f s), s)"
  "modify g s = (Inr (), g s)"
  by (simp_all add: asks_def modify_def)

lemma tryS_asks_modify [simp, go_simps]:
  "tryS (asks f) k s = k (f s) s"
  "tryS (modify g) l s = l () (g s)"
  by (simp_all add: tryS_def)

lemma liftT_asks_modify_run [simp, go_simps]:
  "liftT (asks f) (t, w) = (Inr (f t), (t, w))"
  "liftT (modify g) (t, w) = (Inr (), (g t, w))"
  by (simp_all add: liftT_def)

lemma tryS_liftT_asks_modify [simp, go_simps]:
  "tryS (liftT (asks f)) k (t, w) = k (f t) (t, w)"
  "tryS (liftT (modify g)) l (t, w) = l () (g t, w)"
  by (simp_all add: tryS_def liftT_def)

lemma check_simps [simp, go_simps]:
  "check True e = Inr ()"
  "check False e = Inl e"
  by (simp_all add: check_def)

lemma check_Inr [simp, go_elims]: "check b e = Inr u \<longleftrightarrow> b"
  by (simp add: check_def)

text \<open>
  \<open>obeys I m Q\<close>: run in a state with \<open>I\<close>, the action leaves a state with \<open>I\<close>, also when it
  fails, and a value it returns satisfies \<open>Q\<close>.
\<close>

named_theorems obeys_intros \<open>rules that show an action keeps an invariant\<close>

definition obeys :: "('s \<Rightarrow> bool) \<Rightarrow> ('s, 'a) action \<Rightarrow> ('a \<Rightarrow> bool) \<Rightarrow> bool" where
  "obeys I m Q \<longleftrightarrow> (\<forall>s. I s \<longrightarrow> I (snd (m s)) \<and> (\<forall>x. fst (m s) = Inr x \<longrightarrow> Q x))"

lemma obeysD:
  "obeys I m Q \<Longrightarrow> I s \<Longrightarrow> I (snd (m s))"
  "obeys I m Q \<Longrightarrow> I s \<Longrightarrow> fst (m s) = Inr x \<Longrightarrow> Q x"
  by (simp_all add: obeys_def)

lemma obeys_tryS:
  "obeys I m Q \<Longrightarrow> (\<And>x. Q x \<Longrightarrow> obeys I (f x) R) \<Longrightarrow> obeys I (tryS m f) R"
  by (auto simp: obeys_def tryS_def split: prod.splits sum.splits)

lemma obeys_tryS_any [obeys_intros]:
  "obeys I m (\<lambda>_. True) \<Longrightarrow> (\<And>x. obeys I (f x) R) \<Longrightarrow> obeys I (tryS m f) R"
  by (rule obeys_tryS)

lemma obeys_cases [obeys_intros]:
  "(\<And>a b. p = (a, b) \<Longrightarrow> obeys I (g a b) R) \<Longrightarrow> obeys I (case p of (a, b) \<Rightarrow> g a b) R"
  "(\<And>a b. p = (a, b) \<Longrightarrow> obeys I (g2 a b c) R) \<Longrightarrow> obeys I ((case p of (a, b) \<Rightarrow> g2 a b) c) R"
  "(x = None \<Longrightarrow> obeys I n R) \<Longrightarrow> (\<And>y. x = Some y \<Longrightarrow> obeys I (h y) R) \<Longrightarrow>
     obeys I (case x of None \<Rightarrow> n | Some y \<Rightarrow> h y) R"
  "(d \<Longrightarrow> obeys I m1 R) \<Longrightarrow> (\<not> d \<Longrightarrow> obeys I m2 R) \<Longrightarrow> obeys I (if d then m1 else m2) R"
  by (auto split: prod.split option.split)

lemma obeys_ret [obeys_intros]: "Q x \<Longrightarrow> obeys I (ret x) Q"
  by (simp add: obeys_def)

lemma obeys_fail [obeys_intros]: "obeys I (fail e) Q"
  by (simp add: obeys_def)

lemma obeys_pureS [obeys_intros]: "(\<And>x. r = Inr x \<Longrightarrow> Q x) \<Longrightarrow> obeys I (pureS r) Q"
  by (simp add: obeys_def)

lemma obeys_asks [obeys_intros]: "(\<And>s. I s \<Longrightarrow> Q (f s)) \<Longrightarrow> obeys I (asks f) Q"
  by (simp add: obeys_def)

lemma obeys_modify [obeys_intros]: "(\<And>s. I s \<Longrightarrow> I (f s)) \<Longrightarrow> Q () \<Longrightarrow> obeys I (modify f) Q"
  by (simp add: obeys_def)

lemma obeys_liftT [obeys_intros]:
  "obeys I m Q \<Longrightarrow> obeys (\<lambda>p. I (fst p)) (liftT m) Q"
  by (auto simp: obeys_def liftT_def split: prod.splits)

text \<open>An update that establishes a stronger invariant for the rest.\<close>

lemma obeys_modify_then:
  "(\<And>s. I s \<Longrightarrow> J (f s)) \<Longrightarrow> obeys J (k ()) R \<Longrightarrow> (\<And>s. J s \<Longrightarrow> I s) \<Longrightarrow>
     obeys I (tryS (modify f) k) R"
  unfolding obeys_def by (auto simp del: split_paired_All)

lemma obeys_liftW [obeys_intros]:
  "(\<And>w x w'. m w = (Inr x, w') \<Longrightarrow> Q x) \<Longrightarrow> obeys (\<lambda>p. I (fst p)) (liftW m) Q"
  by (auto simp: obeys_def liftW_def split: prod.splits)

text \<open>
  Indexing (\<open>xs[i]\<close>) and slicing (\<open>xs[:n]\<close>, \<open>xs[n:]\<close>): out of range panics. Go lets \<open>xs[:n]\<close> reach into
  spare capacity; a slice here has none.
\<close>

definition sliceAt :: "'a list \<Rightarrow> int \<Rightarrow> fault + 'a" where
  "sliceAt xs i = (if 0 \<le> i \<and> i < int (length xs) then Inr (xs ! nat i) else Inl Panics)"

lemma sliceAt_in [simp]: "i < length xs \<Longrightarrow> sliceAt xs (int i) = Inr (xs ! i)"
  by (simp add: sliceAt_def)

lemma sliceAt_0 [simp]:
  "sliceAt xs 0 = Inr x \<longleftrightarrow> xs \<noteq> [] \<and> x = xs ! 0"
  "sliceAt xs 0 = Inl e \<longleftrightarrow> xs = [] \<and> e = Panics"
  "sliceAt (x # xs) 0 = Inr x"
  by (auto simp: sliceAt_def)

definition sliceTo :: "'a list \<Rightarrow> nat \<Rightarrow> fault + 'a list" where
  "sliceTo xs n = (if n \<le> length xs then Inr (take n xs) else Inl Panics)"

definition sliceFrom :: "'a list \<Rightarrow> nat \<Rightarrow> fault + 'a list" where
  "sliceFrom xs n = (if n \<le> length xs then Inr (drop n xs) else Inl Panics)"

lemma slices_run [simp, go_simps]:
  "n \<le> length xs \<Longrightarrow> sliceTo xs n = Inr (take n xs)"
  "n \<le> length xs \<Longrightarrow> sliceFrom xs n = Inr (drop n xs)"
  by (simp_all add: sliceTo_def sliceFrom_def)

lemma slices_iff [simp, go_elims]:
  "sliceTo xs n = Inr ys \<longleftrightarrow> n \<le> length xs \<and> ys = take n xs"
  "sliceFrom xs n = Inr ys \<longleftrightarrow> n \<le> length xs \<and> ys = drop n xs"
  "sliceTo xs n = Inl e \<longleftrightarrow> length xs < n \<and> e = Panics"
  "sliceFrom xs n = Inl e \<longleftrightarrow> length xs < n \<and> e = Panics"
  by (auto simp: sliceTo_def sliceFrom_def)

section \<open>The world: entropy and clock\<close>

text \<open>
  \<open>rng\<close> is what the system entropy source (\<open>crypto/rand.Reader\<close>) will still deliver,
  \<open>clock\<close> the successive readings of the clock and \<open>ticks\<close> how many have been taken.
\<close>

record world =
  rng :: bytes
  clock :: "nat \<Rightarrow> gotime"
  ticks :: nat

text \<open>\<open>io.ReadFull\<close> of \<open>n\<close> bytes of a reader, which fails when it has fewer.\<close>

definition ReadFull :: "nat \<Rightarrow> (bytes, bytes) action" where
  "ReadFull n r =
     (if length r < n then (Inl (GoError LibErrEntropy), []) else (Inr (take n r), drop n r))"

definition readRand :: "nat \<Rightarrow> (world, bytes) action" where
  "readRand n w = (case ReadFull n (rng w) of (r, rest) \<Rightarrow> (r, w\<lparr>rng := rest\<rparr>))"

definition timeNow :: "(world, gotime) action" where
  "timeNow w = (Inr (clock w (ticks w)), w\<lparr>ticks := Suc (ticks w)\<rparr>)"

text \<open>\<open>t.Sub(u)\<close> saturates at the range of a \<open>Duration\<close> (64 bits).\<close>

definition timeSub :: "gotime \<Rightarrow> gotime \<Rightarrow> gotime" where
  "timeSub t u = max (- (2 ^ 63)) (min (2 ^ 63 - 1) (t - u))"

lemma ReadFull_Inr [go_elims]:
  "ReadFull n r = (Inr x, r') \<longleftrightarrow> n \<le> length r \<and> x = take n r \<and> r' = drop n r"
  by (auto simp: ReadFull_def)

lemma readRand_Inr [go_elims]:
  "readRand n w = (Inr x, w') \<longleftrightarrow>
     n \<le> length (rng w) \<and> x = take n (rng w) \<and> w' = w\<lparr>rng := drop n (rng w)\<rparr>"
  by (auto simp: readRand_def ReadFull_def)

lemma readRand_run [go_simps]:
  "n \<le> length (rng w) \<Longrightarrow> readRand n w = (Inr (take n (rng w)), w\<lparr>rng := drop n (rng w)\<rparr>)"
  by (simp add: readRand_def ReadFull_def)

lemma readRand_length: "readRand n w = (Inr x, w') \<Longrightarrow> length x = n"
  by (auto simp: readRand_Inr)

lemma timeNow_run [simp, go_simps]:
  "timeNow w = (Inr (clock w (ticks w)), w\<lparr>ticks := Suc (ticks w)\<rparr>)"
  by (simp add: timeNow_def)

section \<open>Machine integers\<close>

text \<open>
  A Go \<open>int\<close> is 64 bits wide here. Values are kept as \<open>int\<close>; \<open>wrap64\<close> is the
  wrap-around of an arithmetic result, applied wherever the source can leave the range.
\<close>

definition wrap64 :: "int \<Rightarrow> int" where
  "wrap64 x = (x + 2 ^ 63) mod 2 ^ 64 - 2 ^ 63"

lemma wrap64_id: "- (2 ^ 63) \<le> x \<Longrightarrow> x < 2 ^ 63 \<Longrightarrow> wrap64 x = x"
  by (simp add: wrap64_def)

lemma drop_bit_1_int [simp]: "drop_bit (Suc 0) (int i) = int (i div 2)"
  by (simp add: drop_bit_eq_div zdiv_int)

lemma and_1_int [simp]: "int i AND 1 = int (i mod 2)"
  by (simp add: and_one_eq of_nat_mod)

lemma xor_1_int [simp]: "int i XOR 1 = int (if even i then i + 1 else i - 1)"
  by (auto simp: xor_one_eq of_nat_diff Suc_leI odd_pos)

text \<open>
  \<open>binary.BigEndian.AppendUint32\<close>, \<open>AppendUint64\<close> and \<open>Uint32\<close>, which indexes \<open>b[3]\<close> and so panics on
  fewer than four bytes (\<open>beUint32\<close>; \<open>uint32_be\<close> is the value it computes).
\<close>

definition be32 :: "u32 \<Rightarrow> bytes" where
  "be32 v = [ucast (drop_bit 24 v), ucast (drop_bit 16 v), ucast (drop_bit 8 v), ucast v]"

definition be64 :: "u64 \<Rightarrow> bytes" where
  "be64 v = [ucast (drop_bit 56 v), ucast (drop_bit 48 v), ucast (drop_bit 40 v),
             ucast (drop_bit 32 v), ucast (drop_bit 24 v), ucast (drop_bit 16 v),
             ucast (drop_bit 8 v), ucast v]"

definition uint32_be :: "bytes \<Rightarrow> u32" where
  "uint32_be b = ucast (b ! 3) OR push_bit 8 (ucast (b ! 2)) OR push_bit 16 (ucast (b ! 1))
                   OR push_bit 24 (ucast (b ! 0))"

definition beUint32 :: "bytes \<Rightarrow> fault + u32" where
  "beUint32 b = tryE (sliceAt b 3) (\<lambda>_. Inr (uint32_be b))"

lemma beUint32_run [simp, go_simps]: "4 \<le> length b \<Longrightarrow> beUint32 b = Inr (uint32_be b)"
  by (simp add: beUint32_def sliceAt_def tryE_def)

lemma beUint32_iff [simp, go_elims]:
  "beUint32 b = Inr v \<longleftrightarrow> 4 \<le> length b \<and> v = uint32_be b"
  "beUint32 b = Inl e \<longleftrightarrow> length b < 4 \<and> e = Panics"
  by (auto simp: beUint32_def sliceAt_def tryE_def)

lemma length_be [simp]: "length (be32 v) = 4" "length (be64 w) = 8"
  by (simp_all add: be32_def be64_def)

lemma uint32_be_be32 [simp]: "uint32_be (be32 v @ rest) = v"
  by (rule bit_word_eqI)
    (auto simp: uint32_be_def be32_def bit_simps; fastforce simp: numeral_eq_Suc less_Suc_eq)

lemma uint32_be_be32' [simp]: "uint32_be (be32 v) = v"
  using uint32_be_be32 [of v "[]"] by simp

lemma byte_bit_out: "8 \<le> n \<Longrightarrow> \<not> bit (b :: byte) n"
  using bit_imp_le_length [of b n] by auto

lemma be32_uint32_be_list: "be32 (uint32_be [p, q, r, s]) = [p, q, r, s]"
  unfolding be32_def uint32_be_def
  by (auto simp: bit_simps byte_bit_out intro!: bit_word_eqI)

lemma be32_uint32_be: "length b = 4 \<Longrightarrow> be32 (uint32_be b) = b"
  by (auto simp: length_Suc_conv numeral_eq_Suc be32_uint32_be_list)

lemma be32_inj [simp]: "be32 v = be32 w \<longleftrightarrow> v = w"
  by (metis uint32_be_be32')

lemma be64_inj [simp]: "be64 v = be64 w \<longleftrightarrow> v = w"
proof
  assume e: "be64 v = be64 w"
  show "v = w"
  proof (rule bit_word_eqI)
    fix n
    assume n: "n < LENGTH(64)"
    have "(ucast (drop_bit (8 * k) v) :: byte) = ucast (drop_bit (8 * k) w)" if "k \<in> set [0..<8]" for k
      using e that by (auto simp: be64_def upt_conv_Cons)
    from this [of "n div 8"] n have "bit (ucast (drop_bit (8 * (n div 8)) v) :: byte) (n mod 8) =
        bit (ucast (drop_bit (8 * (n div 8)) w) :: byte) (n mod 8)" by simp
    with n show "bit v n = bit w n" by (simp add: bit_simps)
  qed
qed simp

section \<open>Interfaces\<close>

text \<open>
  A field of a wire format: \<open>put\<close> appends its encoding, \<open>get\<close> reads it off the front of a
  buffer and hands back the rest. A value that \<open>fits\<close> is read back as written, and whatever is
  read is exactly what \<open>put\<close> would have written.
\<close>

locale prefix_codec =
  fixes put :: "'a \<Rightarrow> bytes"
    and get :: "bytes \<Rightarrow> fault + 'a \<times> bytes"
    and fits :: "'a \<Rightarrow> bool"
  assumes get_put: "fits x \<Longrightarrow> get (put x @ rest) = Inr (x, rest)"
    and put_get: "get buf = Inr (x, rest) \<Longrightarrow> buf = put x @ rest \<and> fits x"
begin

lemma get_iff: "get buf = Inr (x, rest) \<longleftrightarrow> buf = put x @ rest \<and> fits x"
  using get_put put_get by blast

lemma get_put_all: "fits x \<Longrightarrow> get (put x) = Inr (x, [])"
  using get_put [of x "[]"] by simp

lemma put_prefix_free: "fits x \<Longrightarrow> fits y \<Longrightarrow> put x @ r = put y @ s \<Longrightarrow> x = y \<and> r = s"
  by (metis get_put Pair_inject sum.inject(2))

lemma put_inj: "fits x \<Longrightarrow> fits y \<Longrightarrow> put x = put y \<Longrightarrow> x = y"
  using put_prefix_free [of x y "[]" "[]"] by simp

lemma get_consumes: "get buf = Inr (x, rest) \<Longrightarrow> length buf = length (put x) + length rest"
  using put_get by fastforce

text \<open>A strict prefix of an encoding is rejected.\<close>

lemma get_truncated:
  assumes "fits x" and "k < length (put x)"
  shows "\<exists>e. get (take k (put x)) = Inl e"
proof (cases "get (take k (put x))")
  case (Inr p)
  then obtain y r where "get (take k (put x)) = Inr (y, r)" by (cases p) auto
  then have y: "take k (put x) = put y @ r" "fits y" using put_get by auto
  have "put x @ [] = take k (put x) @ drop k (put x)" by simp
  also have "\<dots> = put y @ (r @ drop k (put x))" by (simp only: y(1) append.assoc)
  finally have "r @ drop k (put x) = []"
    using put_prefix_free [OF assms(1) y(2)] by metis
  with assms(2) show ?thesis by simp
qed auto

end

text \<open>
  A component whose methods hold one lock: every interleaving of its callers is a sequence of
  whole operations, and an invariant kept by each operation holds after every sequence.
\<close>

locale guarded_machine =
  fixes step :: "'op \<Rightarrow> 's \<Rightarrow> 's"
    and inv :: "'s \<Rightarrow> bool"
  assumes inv_step: "inv s \<Longrightarrow> inv (step x s)"
begin

lemma inv_run: "inv s \<Longrightarrow> inv (fold step ops s)"
  by (induction ops arbitrary: s) (auto intro: inv_step)

text \<open>A relation between successive states that composes relates the ends of a run.\<close>

lemma run_related:
  assumes "\<And>s. R s s" and "\<And>s t u. R s t \<Longrightarrow> R t u \<Longrightarrow> R s u"
    and "\<And>x s. inv s \<Longrightarrow> R s (step x s)" and "inv s"
  shows "R s (fold step ops s)"
  using assms(4)
proof (induction ops arbitrary: s)
  case Nil
  show ?case using assms(1) by simp
next
  case (Cons x ops)
  have "R s (step x s)" by (rule assms(3) [OF Cons.prems])
  moreover have "R (step x s) (fold step ops (step x s))"
    by (rule Cons.IH [OF inv_step [OF Cons.prems]])
  ultimately have "R s (fold step ops (step x s))" by (rule assms(2))
  then show ?case by simp
qed

end

end
