(* ===== verification/Sha256.thy ===== *)
theory Sha256
  imports Prelude
begin

text \<open>
  The hash functions of the Go standard library that the packages call: \<open>crypto/sha256\<close>
  (FIPS 180-4), \<open>crypto/hmac\<close> with it (FIPS 198-1) and \<open>crypto/hkdf\<close>'s \<open>Key\<close> (RFC 5869).
  They are written out as the standards have them; the other theories use only the length
  of their results and the fact that they are functions.
\<close>

section \<open>SHA-256\<close>

definition sha_K :: "u32 list" where
  "sha_K =
    [1116352408, 1899447441, 3049323471, 3921009573, 961987163, 1508970993,
     2453635748, 2870763221, 3624381080, 310598401, 607225278, 1426881987,
     1925078388, 2162078206, 2614888103, 3248222580, 3835390401, 4022224774,
     264347078, 604807628, 770255983, 1249150122, 1555081692, 1996064986,
     2554220882, 2821834349, 2952996808, 3210313671, 3336571891, 3584528711,
     113926993, 338241895, 666307205, 773529912, 1294757372, 1396182291,
     1695183700, 1986661051, 2177026350, 2456956037, 2730485921, 2820302411,
     3259730800, 3345764771, 3516065817, 3600352804, 4094571909, 275423344,
     430227734, 506948616, 659060556, 883997877, 958139571, 1322822218,
     1537002063, 1747873779, 1955562222, 2024104815, 2227730452, 2361852424,
     2428436474, 2756734187, 3204031479, 3329325298]"

text \<open>The eight working variables of the compression function.\<close>

type_synonym sha_state = "u32 \<times> u32 \<times> u32 \<times> u32 \<times> u32 \<times> u32 \<times> u32 \<times> u32"

definition sha_H0 :: sha_state where
  "sha_H0 = (0x6a09e667, 0xbb67ae85, 0x3c6ef372, 0xa54ff53a,
             0x510e527f, 0x9b05688c, 0x1f83d9ab, 0x5be0cd19)"

definition sha_Ch :: "u32 \<Rightarrow> u32 \<Rightarrow> u32 \<Rightarrow> u32" where
  "sha_Ch x y z = (x AND y) XOR (NOT x AND z)"

definition sha_Maj :: "u32 \<Rightarrow> u32 \<Rightarrow> u32 \<Rightarrow> u32" where
  "sha_Maj x y z = (x AND y) XOR (x AND z) XOR (y AND z)"

definition sha_Sigma0 :: "u32 \<Rightarrow> u32" where
  "sha_Sigma0 x = word_rotr 2 x XOR word_rotr 13 x XOR word_rotr 22 x"

definition sha_Sigma1 :: "u32 \<Rightarrow> u32" where
  "sha_Sigma1 x = word_rotr 6 x XOR word_rotr 11 x XOR word_rotr 25 x"

definition sha_sigma0 :: "u32 \<Rightarrow> u32" where
  "sha_sigma0 x = word_rotr 7 x XOR word_rotr 18 x XOR drop_bit 3 x"

definition sha_sigma1 :: "u32 \<Rightarrow> u32" where
  "sha_sigma1 x = word_rotr 17 x XOR word_rotr 19 x XOR drop_bit 10 x"

definition sha_pad :: "bytes \<Rightarrow> bytes" where
  "sha_pad m = m @ [0x80] @ replicate ((119 - length m mod 64) mod 64) 0
                 @ be64 (of_nat (8 * length m))"

fun sha_words :: "bytes \<Rightarrow> u32 list" where
  "sha_words (a # b # c # d # bs) = uint32_be [a, b, c, d] # sha_words bs"
| "sha_words _ = []"

text \<open>
  The message schedule, produced from a sliding window of its last sixteen words.
\<close>

fun sha_schedule :: "nat \<Rightarrow> u32 list \<Rightarrow> u32 list" where
  "sha_schedule 0 win = []"
| "sha_schedule (Suc n) win =
     win ! 0 # sha_schedule n
       (tl win @ [sha_sigma1 (win ! 14) + win ! 9 + sha_sigma0 (win ! 1) + win ! 0])"

fun sha_round :: "sha_state \<Rightarrow> u32 \<times> u32 \<Rightarrow> sha_state" where
  "sha_round (a, b, c, d, e, f, g, h) (k, w) =
     (let t1 = h + sha_Sigma1 e + sha_Ch e f g + k + w;
          t2 = sha_Sigma0 a + sha_Maj a b c
      in (t1 + t2, a, b, c, d + t1, e, f, g))"

fun sha_add :: "sha_state \<Rightarrow> sha_state \<Rightarrow> sha_state" where
  "sha_add (a, b, c, d, e, f, g, h) (a', b', c', d', e', f', g', h') =
     (a + a', b + b', c + c', d + d', e + e', f + f', g + g', h + h')"

definition sha_block :: "sha_state \<Rightarrow> bytes \<Rightarrow> sha_state" where
  "sha_block st blk =
     sha_add st (foldl sha_round st (zip sha_K (sha_schedule 64 (sha_words blk))))"

function sha_blocks :: "sha_state \<Rightarrow> bytes \<Rightarrow> sha_state" where
  "sha_blocks st bs =
     (if bs = [] then st else sha_blocks (sha_block st (take 64 bs)) (drop 64 bs))"
  by pat_completeness auto
termination
  by (relation "measure (\<lambda>(st, bs). length bs)") auto

declare sha_blocks.simps [simp del]

fun sha_output :: "sha_state \<Rightarrow> bytes" where
  "sha_output (a, b, c, d, e, f, g, h) =
     be32 a @ be32 b @ be32 c @ be32 d @ be32 e @ be32 f @ be32 g @ be32 h"

definition sha256 :: "bytes \<Rightarrow> bytes" where
  "sha256 m = sha_output (sha_blocks sha_H0 (sha_pad m))"

lemma length_sha_output: "length (sha_output st) = 32"
  by (cases st rule: sha_output.cases) simp

lemma length_sha256 [simp]: "length (sha256 m) = 32"
  by (simp add: sha256_def length_sha_output)

text \<open>The padded message is a whole number of blocks.\<close>

lemma length_sha_pad: "length (sha_pad m) mod 64 = 0"
proof -
  define r where "r = length m mod 64"
  have n: "length m = 64 * (length m div 64) + r" and r: "r < 64" by (simp_all add: r_def)
  have "(119 - r) mod 64 = (if r \<le> 55 then 55 - r else 119 - r)"
    using r by (auto simp: le_mod_geq)
  then have "r + 9 + (119 - r) mod 64 = (if r \<le> 55 then 64 else 128)" using r by simp
  then have "length (sha_pad m) = 64 * (length m div 64) + (if r \<le> 55 then 64 else 128)"
    unfolding sha_pad_def r_def [symmetric] using n by simp
  then show ?thesis by simp
qed

text \<open>The one-block test vector of the standard.\<close>

lemma sha256_abc:
  "sha256 (ascii ''abc'') =
     [0xba, 0x78, 0x16, 0xbf, 0x8f, 0x01, 0xcf, 0xea, 0x41, 0x41, 0x40, 0xde, 0x5d, 0xae, 0x22, 0x23,
      0xb0, 0x03, 0x61, 0xa3, 0x96, 0x17, 0x7a, 0x9c, 0xb4, 0x10, 0xff, 0x61, 0xf2, 0x00, 0x15, 0xad]"
  by code_simp

section \<open>HMAC and HKDF\<close>

definition hmac_pad :: "byte \<Rightarrow> bytes \<Rightarrow> bytes" where
  "hmac_pad x key =
     (let k = (if length key > 64 then sha256 key else key)
      in map (\<lambda>b. b XOR x) (k @ replicate (64 - length k) 0))"

definition hmac_sha256 :: "bytes \<Rightarrow> bytes \<Rightarrow> bytes" where
  "hmac_sha256 key msg = sha256 (hmac_pad 0x5c key @ sha256 (hmac_pad 0x36 key @ msg))"

lemma length_hmac_sha256 [simp]: "length (hmac_sha256 key msg) = 32"
  by (simp add: hmac_sha256_def)

text \<open>\<open>hkdf_expand prk info prev i n\<close> is the blocks \<open>T(i), T(i+1), ...\<close>, \<open>n\<close> of them.\<close>

fun hkdf_expand :: "bytes \<Rightarrow> bytes \<Rightarrow> bytes \<Rightarrow> byte \<Rightarrow> nat \<Rightarrow> bytes" where
  "hkdf_expand prk info prev i 0 = []"
| "hkdf_expand prk info prev i (Suc n) =
     (let t = hmac_sha256 prk (prev @ info @ [i]) in t @ hkdf_expand prk info t (i + 1) n)"

text \<open>\<open>hkdf.Key(sha256.New, secret, salt, info, keyLength)\<close>\<close>

definition hkdf_Key :: "bytes \<Rightarrow> bytes \<Rightarrow> gostring \<Rightarrow> nat \<Rightarrow> fault + bytes" where
  "hkdf_Key secret salt info keyLength =
     (if keyLength > 255 * 32 then Inl (GoError LibErrHKDFLength)
      else Inr (take keyLength
             (hkdf_expand (hmac_sha256 salt secret) info [] 1 ((keyLength + 31) div 32))))"

lemma length_hkdf_expand [simp]: "length (hkdf_expand prk info prev i n) = 32 * n"
  by (induction n arbitrary: prev i) (simp_all add: Let_def)

lemma hkdf_Key_ok:
  assumes "n \<le> 255 * 32"
  obtains out where "hkdf_Key secret salt info n = Inr out" and "length out = n"
proof -
  have "n \<le> 32 * ((n + 31) div 32)" by presburger
  with assms that show ?thesis by (auto simp: hkdf_Key_def)
qed

section \<open>Collisions as data\<close>

text \<open>
  SHA-256 is not injective, so binding statements end in "or here is a collision": the pair of
  inputs is computed from the data at hand, never merely asserted to exist.
\<close>

definition sha256Collision :: "(bytes \<times> bytes) option \<Rightarrow> bool" where
  "sha256Collision c = (case c of None \<Rightarrow> False | Some (x, y) \<Rightarrow> x \<noteq> y \<and> sha256 x = sha256 y)"

fun firstCollision :: "(bytes \<times> bytes) list \<Rightarrow> (bytes \<times> bytes) option" where
  "firstCollision [] = None"
| "firstCollision ((x, y) # ps) =
     (if x \<noteq> y \<and> sha256 x = sha256 y then Some (x, y) else firstCollision ps)"

lemma firstCollision_Nil [simp]: "\<not> sha256Collision (firstCollision [])"
  by (simp add: sha256Collision_def)

lemma firstCollision_Cons:
  "sha256Collision (firstCollision ((x, y) # ps)) \<longleftrightarrow>
     x \<noteq> y \<and> sha256 x = sha256 y \<or> sha256Collision (firstCollision ps)"
  by (cases "x \<noteq> y \<and> sha256 x = sha256 y") (auto simp: sha256Collision_def)

declare firstCollision.simps [simp del]

lemma firstCollision_append:
  "sha256Collision (firstCollision (ps @ qs)) \<longleftrightarrow>
     sha256Collision (firstCollision ps) \<or> sha256Collision (firstCollision qs)"
  by (induction ps) (auto simp: firstCollision_Cons)

lemma sha256Collision_iff:
  "sha256Collision c \<longleftrightarrow> (\<exists>x y. c = Some (x, y) \<and> x \<noteq> y \<and> sha256 x = sha256 y)"
  by (auto simp: sha256Collision_def split: option.splits)

text \<open>The pairs of hash inputs met when two HMACs, or the first blocks of two HKDFs, are computed.\<close>

definition hmacPairs :: "bytes \<Rightarrow> bytes \<Rightarrow> bytes \<Rightarrow> bytes \<Rightarrow> (bytes \<times> bytes) list" where
  "hmacPairs k m k' m' =
     [(hmac_pad 0x5c k @ sha256 (hmac_pad 0x36 k @ m),
       hmac_pad 0x5c k' @ sha256 (hmac_pad 0x36 k' @ m')),
      (hmac_pad 0x36 k @ m, hmac_pad 0x36 k' @ m')]"

definition hkdfPairs ::
  "bytes \<Rightarrow> bytes \<Rightarrow> bytes \<Rightarrow> bytes \<Rightarrow> gostring \<Rightarrow> (bytes \<times> bytes) list" where
  "hkdfPairs secret salt secret' salt' info =
     hmacPairs (hmac_sha256 salt secret) (info @ [1]) (hmac_sha256 salt' secret') (info @ [1]) @
     hmacPairs salt secret salt' secret'"

lemma length_hmac_pad: "length key \<le> 64 \<Longrightarrow> length (hmac_pad x key) = 64"
  by (simp add: hmac_pad_def)

lemma hmac_pad_inj:
  assumes "hmac_pad x key = hmac_pad x key'" and "length key = length key'" and "length key \<le> 64"
  shows "key = key'"
proof -
  have "inj (\<lambda>b :: byte. b XOR x)"
    by (rule inj_on_inverseI [of _ "\<lambda>b. b XOR x"]) (simp add: xor.assoc)
  with assms show ?thesis by (auto simp: hmac_pad_def inj_map_eq_map)
qed

lemma hmac_binds:
  assumes "hmac_sha256 k m = hmac_sha256 k' m'" and "length k = length k'" and "length k \<le> 64"
  shows "k = k' \<and> m = m' \<or> sha256Collision (firstCollision (hmacPairs k m k' m'))"
proof (rule disjCI)
  assume no: "\<not> sha256Collision (firstCollision (hmacPairs k m k' m'))"
  let ?i = "hmac_pad 0x36 k @ m" and ?i' = "hmac_pad 0x36 k' @ m'"
  have "hmac_pad 0x5c k @ sha256 ?i = hmac_pad 0x5c k' @ sha256 ?i'"
    using assms(1) no by (auto simp: hmac_sha256_def hmacPairs_def firstCollision_Cons)
  then have "hmac_pad 0x5c k = hmac_pad 0x5c k'" and "sha256 ?i = sha256 ?i'" by simp_all
  then have "k = k'" and "?i = ?i'"
    using hmac_pad_inj assms(2,3) no by (auto simp: hmacPairs_def firstCollision_Cons)
  then show "k = k' \<and> m = m'" by simp
qed

lemma hkdf_Key_prefix:
  assumes "hkdf_Key secret salt info n = Inr out" and "32 \<le> n"
  shows "take 32 out = hmac_sha256 (hmac_sha256 salt secret) (info @ [1])"
proof -
  obtain q where "(n + 31) div 32 = Suc q" using assms(2) by (cases "(n + 31) div 32") auto
  with assms show ?thesis by (auto simp: hkdf_Key_def Let_def split: if_splits)
qed

lemma hkdf_binds:
  assumes "hkdf_Key secret salt info n = Inr out" and "hkdf_Key secret' salt' info n = Inr out'"
    and "32 \<le> n" and "take 32 out = take 32 out'"
    and "length salt = length salt'" and "length salt \<le> 64"
  shows "secret = secret' \<and> salt = salt' \<or>
    sha256Collision (firstCollision (hkdfPairs secret salt secret' salt' info))"
proof -
  have "hmac_sha256 (hmac_sha256 salt secret) (info @ [1]) =
        hmac_sha256 (hmac_sha256 salt' secret') (info @ [1])"
    using assms(1-4) hkdf_Key_prefix by metis
  then have "hmac_sha256 salt secret = hmac_sha256 salt' secret' \<or>
      sha256Collision (firstCollision (hmacPairs (hmac_sha256 salt secret) (info @ [1])
        (hmac_sha256 salt' secret') (info @ [1])))"
    using hmac_binds by fastforce
  then show ?thesis
    using hmac_binds [OF _ assms(5,6)] by (auto simp: hkdfPairs_def firstCollision_append)
qed

end
