(* ===== verification/Primitives.thy ===== *)
theory Primitives
  imports Sha256
begin

text \<open>
  The public-key algorithms and the AEAD the packages call. X25519 and Ed25519 (Go standard
  library), ML-KEM-768 and ML-DSA-65 (cloudflare/circl) and ChaCha20-Poly1305
  (golang.org/x/crypto) are the fields of one record \<open>primitives\<close>, an argument of every
  definition that uses them. Around the raw algorithms the wrappers the code calls are written
  out: length checks, the all-zero check of \<open>ECDH\<close>, the panics on wrong sizes, the entropy read.
  Keys are represented by their encodings. What the code relies on is stated by the predicates
  \<open>x25519_laws\<close>, \<open>mlkem_laws\<close>, \<open>signature_laws\<close>, \<open>aead_laws\<close>; \<open>demoPrimitives\<close> is a concrete
  record that satisfies all of them, used by the witnesses.
\<close>

record primitives =
  x25519 :: "bytes \<Rightarrow> bytes \<Rightarrow> bytes"
    \<comment> \<open>scalar, u-coordinate (RFC 7748)\<close>
  mlkem_keygen :: "bytes \<Rightarrow> bytes \<times> bytes"
    \<comment> \<open>64-byte seed to (encapsulation key, decapsulation key)\<close>
  mlkem_public :: "bytes \<Rightarrow> bytes"
  mlkem_valid :: "bytes \<Rightarrow> bool"
    \<comment> \<open>whether an encapsulation key of the right length unpacks\<close>
  mlkem_encaps :: "bytes \<Rightarrow> bytes \<Rightarrow> bytes \<times> bytes"
    \<comment> \<open>key, 32-byte seed to (ciphertext, shared secret)\<close>
  mlkem_decaps :: "bytes \<Rightarrow> bytes \<Rightarrow> bytes"
  ed25519_keygen :: "bytes \<Rightarrow> bytes \<times> bytes"
  ed25519_sign :: "bytes \<Rightarrow> bytes \<Rightarrow> bytes"
  ed25519_verify :: "bytes \<Rightarrow> bytes \<Rightarrow> bytes \<Rightarrow> bool"
  mldsa_keygen :: "bytes \<Rightarrow> bytes \<times> bytes"
  mldsa_sign :: "bytes \<Rightarrow> bytes \<Rightarrow> bytes \<Rightarrow> bytes"
    \<comment> \<open>key, message, 32 bytes of signing randomness\<close>
  mldsa_verify :: "bytes \<Rightarrow> bytes \<Rightarrow> bytes \<Rightarrow> bool"
  chacha_seal :: "bytes \<Rightarrow> bytes \<Rightarrow> bytes \<Rightarrow> bytes \<Rightarrow> bytes"
    \<comment> \<open>key, nonce, plaintext, associated data\<close>
  chacha_open :: "bytes \<Rightarrow> bytes \<Rightarrow> bytes \<Rightarrow> bytes \<Rightarrow> bytes option"

section \<open>The calls the code makes\<close>

definition x25519_base :: bytes where
  "x25519_base = 9 # replicate 31 0"

definition ecdh_NewPublicKey :: "bytes \<Rightarrow> fault + bytes" where
  "ecdh_NewPublicKey b = (if length b = 32 then Inr b else Inl (GoError LibErrX25519Key))"

definition ecdh_PublicKey :: "primitives \<Rightarrow> bytes \<Rightarrow> bytes" where
  "ecdh_PublicKey P sk = x25519 P sk x25519_base"

definition ecdh_ECDH :: "primitives \<Rightarrow> bytes \<Rightarrow> bytes \<Rightarrow> fault + bytes" where
  "ecdh_ECDH P sk pk =
     (let out = x25519 P sk pk in
      if out = replicate 32 0 then Inl (GoError LibErrX25519LowOrder) else Inr out)"

text \<open>
  A reader passed as \<open>io.Reader\<close>: \<open>None\<close> is the system source of the world, \<open>Some bs\<close> a
  reader that will deliver \<open>bs\<close>. Reading returns the reader's remainder.
\<close>

definition readFrom :: "bytes option \<Rightarrow> nat \<Rightarrow> (world, bytes \<times> bytes option) action" where
  "readFrom rnd n =
     (case rnd of
        None \<Rightarrow> tryS (readRand n) (\<lambda>b. ret (b, None))
      | Some bs \<Rightarrow> (case ReadFull n bs of (Inl e, _) \<Rightarrow> fail e | (Inr b, bs') \<Rightarrow> ret (b, Some bs')))"

definition ecdh_GenerateKey :: "bytes option \<Rightarrow> (world, bytes \<times> bytes option) action" where
  "ecdh_GenerateKey rnd = readFrom rnd 32"

definition mlkem_GenerateKeyPair ::
  "primitives \<Rightarrow> bytes option \<Rightarrow> (world, (bytes \<times> bytes) \<times> bytes option) action" where
  "mlkem_GenerateKeyPair P rnd =
     tryS (readFrom rnd 64) (\<lambda>(seed, rnd). ret (mlkem_keygen P seed, rnd))"

definition mlkem_PublicKeySize :: nat where "mlkem_PublicKeySize = 1184"
definition mlkem_CiphertextSize :: nat where "mlkem_CiphertextSize = 1088"
definition mldsa_PublicKeySize :: nat where "mldsa_PublicKeySize = 1952"

text \<open>\<open>EncapsulateTo\<close> with a nil seed draws it from the system source; exhaustion is fatal.\<close>

definition mlkem_EncapsulateTo :: "primitives \<Rightarrow> bytes \<Rightarrow> (world, bytes \<times> bytes) action" where
  "mlkem_EncapsulateTo P pk w =
     (case readRand 32 w of
        (Inl e, w') \<Rightarrow> (Inl Panics, w')
      | (Inr seed, w') \<Rightarrow> (Inr (mlkem_encaps P pk seed), w'))"

text \<open>\<open>DecapsulateTo\<close> panics on a ciphertext of the wrong length.\<close>

definition mlkem_DecapsulateTo :: "primitives \<Rightarrow> bytes \<Rightarrow> bytes \<Rightarrow> fault + bytes" where
  "mlkem_DecapsulateTo P sk ct =
     (if length ct \<noteq> mlkem_CiphertextSize then Inl Panics else Inr (mlkem_decaps P sk ct))"

definition mlkem_Unpack :: "primitives \<Rightarrow> bytes \<Rightarrow> fault + bytes" where
  "mlkem_Unpack P b =
     (if length b = mlkem_PublicKeySize \<and> mlkem_valid P b then Inr b
      else Inl (GoError LibErrMLKEMKey))"

text \<open>Keys are represented by their encodings, so packing one returns it.\<close>

definition mlkem_MarshalBinary :: "bytes \<Rightarrow> fault + bytes" where
  "mlkem_MarshalBinary pk = Inr pk"

definition mldsa_MarshalBinary :: "bytes \<Rightarrow> fault + bytes" where
  "mldsa_MarshalBinary pk = Inr pk"

lemma MarshalBinary_simps [simp]:
  "mlkem_MarshalBinary pk = Inr pk"
  "mldsa_MarshalBinary pk = Inr pk"
  by (simp_all add: mlkem_MarshalBinary_def mldsa_MarshalBinary_def)

definition mldsa_UnmarshalBinary :: "bytes \<Rightarrow> fault + bytes" where
  "mldsa_UnmarshalBinary b =
     (if length b = mldsa_PublicKeySize then Inr b else Inl (GoError LibErrMLDSAKey))"

definition ed25519_Sign :: "primitives \<Rightarrow> bytes \<Rightarrow> bytes \<Rightarrow> fault + bytes" where
  "ed25519_Sign P sk msg = (if length sk \<noteq> 64 then Inl Panics else Inr (ed25519_sign P sk msg))"

definition ed25519_Verify :: "primitives \<Rightarrow> bytes \<Rightarrow> bytes \<Rightarrow> bytes \<Rightarrow> fault + bool" where
  "ed25519_Verify P pk msg sig =
     (if length pk \<noteq> 32 then Inl Panics else Inr (ed25519_verify P pk msg sig))"

definition mldsa_SignTo :: "primitives \<Rightarrow> bytes \<Rightarrow> bytes \<Rightarrow> (world, bytes) action" where
  "mldsa_SignTo P sk msg = tryS (readRand 32) (\<lambda>rnd. ret (mldsa_sign P sk msg rnd))"

section \<open>What the code relies on\<close>

text \<open>Both sides of a Diffie-Hellman exchange compute the same 32 bytes (RFC 7748, section 6.1).\<close>

definition x25519_laws :: "primitives \<Rightarrow> bool" where
  "x25519_laws P \<longleftrightarrow>
     (\<forall>a u. length (x25519 P a u) = 32) \<and>
     (\<forall>a b. length a = 32 \<longrightarrow> length b = 32 \<longrightarrow>
        x25519 P a (ecdh_PublicKey P b) = x25519 P b (ecdh_PublicKey P a))"

text \<open>A generated ML-KEM key unpacks, and decapsulation undoes encapsulation (FIPS 203).\<close>

definition mlkem_laws :: "primitives \<Rightarrow> bool" where
  "mlkem_laws P \<longleftrightarrow>
     (\<forall>seed pk sk. length seed = 64 \<longrightarrow> mlkem_keygen P seed = (pk, sk) \<longrightarrow>
        length pk = mlkem_PublicKeySize \<and> mlkem_valid P pk \<and> mlkem_public P sk = pk \<and>
        (\<forall>r ct ss. length r = 32 \<longrightarrow> mlkem_encaps P pk r = (ct, ss) \<longrightarrow>
           length ct = mlkem_CiphertextSize \<and> mlkem_decaps P sk ct = ss))"

text \<open>A signature by a generated key verifies (RFC 8032, FIPS 204).\<close>

definition signature_laws :: "primitives \<Rightarrow> bool" where
  "signature_laws P \<longleftrightarrow>
     (\<forall>seed pk sk m. length seed = 32 \<longrightarrow> ed25519_keygen P seed = (pk, sk) \<longrightarrow>
        length pk = 32 \<and> length sk = 64 \<and> ed25519_verify P pk m (ed25519_sign P sk m)) \<and>
     (\<forall>seed pk sk m r. length seed = 32 \<longrightarrow> mldsa_keygen P seed = (pk, sk) \<longrightarrow>
        length pk = mldsa_PublicKeySize \<and> (length r = 32 \<longrightarrow> mldsa_verify P pk m (mldsa_sign P sk m r)))"

text \<open>Opening what was sealed under the same key, nonce and data returns it (RFC 8439).\<close>

definition aead_laws :: "primitives \<Rightarrow> bool" where
  "aead_laws P \<longleftrightarrow> (\<forall>k n pt ad. chacha_open P k n (chacha_seal P k n pt ad) ad = Some pt)"

definition lawful :: "primitives \<Rightarrow> bool" where
  "lawful P \<longleftrightarrow> x25519_laws P \<and> mlkem_laws P \<and> signature_laws P \<and> aead_laws P"

lemma x25519_commutes:
  "x25519_laws P \<Longrightarrow> length a = 32 \<Longrightarrow> length b = 32 \<Longrightarrow>
     ecdh_ECDH P a (ecdh_PublicKey P b) = ecdh_ECDH P b (ecdh_PublicKey P a)"
  by (simp add: x25519_laws_def ecdh_ECDH_def)

lemma length_ecdh_PublicKey: "x25519_laws P \<Longrightarrow> length (ecdh_PublicKey P a) = 32"
  by (simp add: x25519_laws_def ecdh_PublicKey_def)

lemma length_ECDH: "x25519_laws P \<Longrightarrow> ecdh_ECDH P a u = Inr ss \<Longrightarrow> length ss = 32"
  by (auto simp: x25519_laws_def ecdh_ECDH_def Let_def split: if_splits)

text \<open>A decapsulation key that came out of key generation, with its encapsulation key.\<close>

definition mlkem_pair :: "primitives \<Rightarrow> bytes \<Rightarrow> bytes \<Rightarrow> bool" where
  "mlkem_pair P pk sk \<longleftrightarrow> (\<exists>seed. length seed = 64 \<and> mlkem_keygen P seed = (pk, sk))"

lemma mlkem_pair_facts:
  assumes "mlkem_laws P" and "mlkem_pair P pk sk"
  shows "length pk = mlkem_PublicKeySize" and "mlkem_valid P pk" and "mlkem_public P sk = pk"
    and "length r = 32 \<Longrightarrow> mlkem_encaps P pk r = (ct, ss) \<Longrightarrow>
      length ct = mlkem_CiphertextSize \<and> mlkem_decaps P sk ct = ss"
  using assms unfolding mlkem_laws_def mlkem_pair_def by blast+

lemma mlkem_Unpack_pair: "mlkem_laws P \<Longrightarrow> mlkem_pair P pk sk \<Longrightarrow> mlkem_Unpack P pk = Inr pk"
  by (simp add: mlkem_Unpack_def mlkem_pair_facts)

lemma encaps_decaps:
  assumes "mlkem_laws P" and "mlkem_pair P pk sk"
    and "mlkem_EncapsulateTo P pk w = (Inr (ct, ss), w')"
  shows "mlkem_DecapsulateTo P sk ct = Inr ss" and "length ct = mlkem_CiphertextSize"
proof -
  have r: "length (take 32 (rng w)) = 32" "mlkem_encaps P pk (take 32 (rng w)) = (ct, ss)"
    using assms(3) by (auto simp: mlkem_EncapsulateTo_def readRand_Inr split: prod.splits sum.splits)
  from mlkem_pair_facts(4) [OF assms(1,2) r]
  show "mlkem_DecapsulateTo P sk ct = Inr ss" "length ct = mlkem_CiphertextSize"
    by (simp_all add: mlkem_DecapsulateTo_def)
qed

lemma readFrom_length: "readFrom rnd n w = (Inr (b, rnd'), w') \<Longrightarrow> length b = n"
proof (cases rnd)
  case None
  assume "readFrom rnd n w = (Inr (b, rnd'), w')"
  with None show ?thesis by (auto simp: readFrom_def tryS_Inr dest: readRand_length)
next
  case (Some bs)
  assume "readFrom rnd n w = (Inr (b, rnd'), w')"
  with Some show ?thesis by (auto simp: readFrom_def ReadFull_def split: if_splits)
qed

lemma readFrom_sys [go_simps]:
  "n \<le> length (rng w) \<Longrightarrow>
     readFrom None n w = (Inr (take n (rng w), None), w\<lparr>rng := drop n (rng w)\<rparr>)"
  by (simp add: readFrom_def go_simps)

section \<open>A concrete instance\<close>

text \<open>
  Not secure, but with the sizes and the laws of the real algorithms: the witnesses evaluate
  the code over it.
\<close>

definition byteAt :: "bytes \<Rightarrow> nat \<Rightarrow> byte" where
  "byteAt b i = (if i < length b then b ! i else 0)"

definition demoPrimitives :: primitives where
  "demoPrimitives =
    \<lparr>x25519 = (\<lambda>a u. map (\<lambda>i. byteAt a i + byteAt u i) [0..<32]),
     mlkem_keygen = (\<lambda>seed. (seed @ replicate 1120 0, seed)),
     mlkem_public = (\<lambda>sk. sk @ replicate 1120 0),
     mlkem_valid = (\<lambda>pk. True),
     mlkem_encaps = (\<lambda>pk r. (r @ replicate 1056 0, sha256 (take 64 pk @ r))),
     mlkem_decaps = (\<lambda>sk ct. sha256 (sk @ take 32 ct)),
     ed25519_keygen = (\<lambda>seed. (seed, seed @ seed)),
     ed25519_sign = (\<lambda>sk m. sha256 (take 32 sk @ m) @ sha256 m),
     ed25519_verify = (\<lambda>pk m s. s = sha256 (pk @ m) @ sha256 m),
     mldsa_keygen = (\<lambda>seed. (seed @ replicate 1920 0, seed)),
     mldsa_sign = (\<lambda>sk m r. r @ sha256 (sk @ m) @ replicate 3245 0),
     mldsa_verify = (\<lambda>pk m s. drop 32 s = sha256 (take 32 pk @ m) @ replicate 3245 0),
     chacha_seal = (\<lambda>k n pt ad. pt @ take 16 (sha256 (k @ n @ ad @ pt))),
     chacha_open = (\<lambda>k n ct ad.
        (let pt = take (length ct - 16) ct in
         if ct = pt @ take 16 (sha256 (k @ n @ ad @ pt)) then Some pt else None))\<rparr>"

lemma demo_x25519_laws: "x25519_laws demoPrimitives"
  by (simp add: x25519_laws_def ecdh_PublicKey_def demoPrimitives_def byteAt_def add.left_commute)

lemma demo_lawful: "lawful demoPrimitives"
proof -
  have "mlkem_laws demoPrimitives"
    by (simp add: mlkem_laws_def demoPrimitives_def mlkem_PublicKeySize_def
        mlkem_CiphertextSize_def)
  moreover have "signature_laws demoPrimitives"
    by (simp add: signature_laws_def demoPrimitives_def mldsa_PublicKeySize_def)
  moreover have "aead_laws demoPrimitives"
    by (simp add: aead_laws_def demoPrimitives_def Let_def)
  ultimately show ?thesis using demo_x25519_laws by (simp add: lawful_def)
qed

text \<open>A world with zeros as entropy and a clock that stands still.\<close>

definition demoWorld :: "nat \<Rightarrow> world" where
  "demoWorld n = \<lparr>rng = replicate n 0, clock = (\<lambda>_. 0), ticks = 0\<rparr>"

lemma rng_demoWorld [simp]: "rng (demoWorld n) = replicate n 0"
  by (simp add: demoWorld_def)

lemma demo_ECDH: "\<exists>ss. ecdh_ECDH demoPrimitives (replicate 32 0) (ecdh_PublicKey demoPrimitives (replicate 32 0)) = Inr ss"
proof -
  let ?x = "x25519 demoPrimitives (replicate 32 0) (ecdh_PublicKey demoPrimitives (replicate 32 0))"
  have "?x ! 0 = 9"
    by (simp add: ecdh_PublicKey_def demoPrimitives_def byteAt_def x25519_base_def)
  moreover have "(replicate 32 0 :: bytes) ! 0 \<noteq> 9" by simp
  ultimately have "?x \<noteq> replicate 32 0" by auto
  then show ?thesis by (simp add: ecdh_ECDH_def Let_def)
qed

end
