(* ===== verification/Identity.thy ===== *)
theory Identity
  imports Primitives
begin

text \<open>
  \<open>crypto/identity/identity.go\<close>: the hybrid identity keypair (Ed25519 and ML-DSA-65), its dual
  signature, and the interface \<open>signature_scheme\<close> under which the prekey and log packages
  sign and verify.
\<close>

section \<open>Keys and signatures\<close>

record KeyPair =
  Ed25519Public :: bytes
  Ed25519Private :: bytes
  MLDSAPublic :: bytes
  MLDSAPrivate :: bytes

record IdPublicKey =
  idEd25519 :: bytes
  idMLDSA :: bytes

record Signature =
  sigEd25519 :: bytes
  sigMLDSA :: bytes

definition identity_Equal :: "IdPublicKey \<Rightarrow> IdPublicKey \<Rightarrow> bool" where
  "identity_Equal pub other =
     (if idEd25519 pub \<noteq> idEd25519 other then False
      else case (mldsa_MarshalBinary (idMLDSA pub), mldsa_MarshalBinary (idMLDSA other)) of
        (Inr a, Inr b) \<Rightarrow> a = b
      | _ \<Rightarrow> False)"

definition identity_Marshal :: "IdPublicKey \<Rightarrow> fault + bytes" where
  "identity_Marshal pub =
     tryE (mldsa_MarshalBinary (idMLDSA pub)) (\<lambda>mldsaBytes. Inr (idEd25519 pub @ mldsaBytes))"

definition identity_Generate :: "primitives \<Rightarrow> (world, KeyPair) action" where
  "identity_Generate P =
     tryS (readRand 32) (\<lambda>edSeed. let (edPub, edPriv) = ed25519_keygen P edSeed in
     tryS (readRand 32) (\<lambda>mldsaSeed. let (mldsaPub, mldsaPriv) = mldsa_keygen P mldsaSeed in
     ret \<lparr>Ed25519Public = edPub, Ed25519Private = edPriv,
          MLDSAPublic = mldsaPub, MLDSAPrivate = mldsaPriv\<rparr>))"

definition identity_Public :: "KeyPair \<Rightarrow> IdPublicKey" where
  "identity_Public kp = \<lparr>idEd25519 = Ed25519Public kp, idMLDSA = MLDSAPublic kp\<rparr>"

definition identity_Sign :: "primitives \<Rightarrow> KeyPair \<Rightarrow> bytes \<Rightarrow> (world, Signature) action" where
  "identity_Sign P kp msg =
     tryS (pureS (ed25519_Sign P (Ed25519Private kp) msg)) (\<lambda>edSig.
     tryS (mldsa_SignTo P (MLDSAPrivate kp) msg) (\<lambda>mldsaSig.
     ret \<lparr>sigEd25519 = edSig, sigMLDSA = mldsaSig\<rparr>))"

definition identity_Verify ::
  "primitives \<Rightarrow> IdPublicKey \<Rightarrow> bytes \<Rightarrow> Signature \<Rightarrow> fault + unit" where
  "identity_Verify P pub msg sig =
     tryE (ed25519_Verify P (idEd25519 pub) msg (sigEd25519 sig)) (\<lambda>ok.
     if \<not> ok then Inl (GoError ErrVerification)
     else if \<not> mldsa_verify P (idMLDSA pub) msg (sigMLDSA sig) then Inl (GoError ErrVerification)
     else Inr ())"

section \<open>Lemmas\<close>

lemma identity_Equal_iff [simp]: "identity_Equal (a :: IdPublicKey) b \<longleftrightarrow> a = b"
  by (cases a; cases b) (simp add: identity_Equal_def)

lemma identity_Marshal_run [simp]: "identity_Marshal pub = Inr (idEd25519 pub @ idMLDSA pub)"
  by (simp add: identity_Marshal_def)

text \<open>Identities whose classical key has its fixed 32 bytes are determined by their encoding.\<close>

lemma identity_encoding_inj:
  fixes a b :: IdPublicKey
  assumes "length (idEd25519 a) = 32" and "length (idEd25519 b) = 32"
    and "idEd25519 a @ idMLDSA a = idEd25519 b @ idMLDSA b"
  shows "a = b"
  using assms by (cases a; cases b) simp

text \<open>A keypair that came out of the key generation of both algorithms.\<close>

definition genuineKeyPair :: "primitives \<Rightarrow> KeyPair \<Rightarrow> bool" where
  "genuineKeyPair P kp \<longleftrightarrow>
     (\<exists>s s'. length s = 32 \<and> length s' = 32 \<and>
        ed25519_keygen P s = (Ed25519Public kp, Ed25519Private kp) \<and>
        mldsa_keygen P s' = (MLDSAPublic kp, MLDSAPrivate kp))"

lemma Generate_genuine:
  "identity_Generate P w = (Inr kp, w') \<Longrightarrow> genuineKeyPair P kp"
  unfolding genuineKeyPair_def
  by (rule exI [of _ "take 32 (rng w)"], rule exI [of _ "take 32 (drop 32 (rng w))"])
    (auto simp: identity_Generate_def tryS_Inr readRand_Inr split: prod.splits)

lemma genuine_facts:
  assumes "signature_laws P" and "genuineKeyPair P kp"
  shows "length (Ed25519Public kp) = 32" and "length (Ed25519Private kp) = 64"
    and "length (MLDSAPublic kp) = mldsa_PublicKeySize"
    and "ed25519_verify P (Ed25519Public kp) m (ed25519_sign P (Ed25519Private kp) m)"
    and "length r = 32 \<Longrightarrow> mldsa_verify P (MLDSAPublic kp) m (mldsa_sign P (MLDSAPrivate kp) m r)"
  using assms unfolding signature_laws_def genuineKeyPair_def by blast+

lemma genuine_public:
  assumes "signature_laws P" and "genuineKeyPair P kp"
  shows "length (idEd25519 (identity_Public kp)) = 32"
    and "length (idMLDSA (identity_Public kp)) = mldsa_PublicKeySize"
  using genuine_facts [OF assms] by (simp_all add: identity_Public_def)

lemma Verify_Inr:
  "identity_Verify P pub msg sig = Inr u \<longleftrightarrow> length (idEd25519 pub) = 32 \<and>
     ed25519_verify P (idEd25519 pub) msg (sigEd25519 sig) \<and>
     mldsa_verify P (idMLDSA pub) msg (sigMLDSA sig)"
  by (auto simp: identity_Verify_def ed25519_Verify_def)

lemma Sign_Verify:
  assumes "signature_laws P" and "genuineKeyPair P kp"
    and "identity_Sign P kp m w = (Inr sig, w')"
  shows "identity_Verify P (identity_Public kp) m sig = Inr ()"
proof -
  have "sigEd25519 sig = ed25519_sign P (Ed25519Private kp) m"
    and "\<exists>r. length r = 32 \<and> sigMLDSA sig = mldsa_sign P (MLDSAPrivate kp) m r"
    using assms(3)
    by (auto simp: identity_Sign_def mldsa_SignTo_def ed25519_Sign_def tryS_Inr readRand_Inr
        intro!: exI [of _ "take 32 (rng w)"] split: if_splits)
  then show ?thesis
    using genuine_facts [OF assms(1,2)] by (auto simp: Verify_Inr identity_Public_def)
qed

lemma Sign_total:
  assumes "signature_laws P" and "genuineKeyPair P kp" and "32 \<le> length (rng w)"
  shows "\<exists>sig. identity_Sign P kp m w = (Inr sig, w\<lparr>rng := drop 32 (rng w)\<rparr>)"
  using assms genuine_facts(2) [OF assms(1,2)]
  by (simp add: identity_Sign_def ed25519_Sign_def mldsa_SignTo_def tryS_step readRand_run)

section \<open>The interface the clients use\<close>

text \<open>
  Signing needs 32 bytes of entropy, always succeeds with a genuine key, and its result
  verifies under the public half for exactly the message that was signed.
\<close>

locale signature_scheme =
  fixes laws :: "'l \<Rightarrow> bool"
    and genuine :: "'l \<Rightarrow> 'kp \<Rightarrow> bool"
    and public :: "'kp \<Rightarrow> 'pk"
    and sign :: "'l \<Rightarrow> 'kp \<Rightarrow> bytes \<Rightarrow> (world, 'sig) action"
    and verify :: "'l \<Rightarrow> 'pk \<Rightarrow> bytes \<Rightarrow> 'sig \<Rightarrow> fault + unit"
  assumes sign_verifies: "laws L \<Longrightarrow> genuine L kp \<Longrightarrow> sign L kp m w = (Inr s, w') \<Longrightarrow>
      verify L (public kp) m s = Inr ()"
    and sign_succeeds: "laws L \<Longrightarrow> genuine L kp \<Longrightarrow> 32 \<le> length (rng w) \<Longrightarrow>
      \<exists>s. sign L kp m w = (Inr s, w\<lparr>rng := drop 32 (rng w)\<rparr>)"
begin

text \<open>A statement published as a record with its signature, and checked from the record.\<close>

lemma published_statement_verifies:
  assumes "laws L" and "genuine L kp"
    and "tryS (sign L kp (encode x)) (\<lambda>s. ret (publish x s)) w = (Inr r, w')"
    and "\<And>s. statement (publish x s) = x" and "\<And>s. signature (publish x s) = s"
  shows "verify L (public kp) (encode (statement r)) (signature r) = Inr ()"
  using assms(3) sign_verifies [OF assms(1,2)] by (auto simp: tryS_Inr assms(4,5))

lemma publishing_succeeds:
  assumes "laws L" and "genuine L kp" and "32 \<le> length (rng w)"
  shows "\<exists>s. tryS (sign L kp m) (\<lambda>s. ret (f s)) w = (Inr (f s), w\<lparr>rng := drop 32 (rng w)\<rparr>)"
  using sign_succeeds [OF assms, of m] by (auto simp: tryS_step)

end

interpretation id_sig: signature_scheme signature_laws genuineKeyPair identity_Public
  identity_Sign identity_Verify
  by unfold_locales (auto intro: Sign_Verify Sign_total)

lemma demo_identity:
  obtains ident w' where "identity_Generate demoPrimitives (demoWorld 64) = (Inr ident, w')"
    and "genuineKeyPair demoPrimitives ident"
proof -
  obtain ident w' where g: "identity_Generate demoPrimitives (demoWorld 64) = (Inr ident, w')"
    by (simp add: identity_Generate_def demoPrimitives_def tryS_step readRand_run)
  then show ?thesis using that Generate_genuine by blast
qed

lemma demo_signature_laws: "signature_laws demoPrimitives"
  using demo_lawful by (simp add: lawful_def)

section \<open>Properties\<close>

text \<open>
  A keypair made by \<open>Generate\<close> signs any message, given 32 bytes of entropy, and
  \<open>Verify\<close> accepts the signature under the keypair's public half.
\<close>

theorem identity_sign_verify:
  assumes "signature_laws P" and "identity_Generate P w = (Inr kp, w')"
    and "32 \<le> length (rng w'')"
  shows "\<exists>sig. identity_Sign P kp msg w'' = (Inr sig, w''\<lparr>rng := drop 32 (rng w'')\<rparr>) \<and>
    identity_Verify P (identity_Public kp) msg sig = Inr ()"
proof -
  have gen: "genuineKeyPair P kp" using assms(2) by (rule Generate_genuine)
  obtain sig where s: "identity_Sign P kp msg w'' = (Inr sig, w''\<lparr>rng := drop 32 (rng w'')\<rparr>)"
    using id_sig.sign_succeeds [OF assms(1) gen assms(3)] by blast
  from s id_sig.sign_verifies [OF assms(1) gen s] show ?thesis by blast
qed

lemma identity_sign_verify_witness:
  "\<exists>kp w' sig. identity_Generate demoPrimitives (demoWorld 64) = (Inr kp, w') \<and>
     identity_Sign demoPrimitives kp [1, 2, 3] (demoWorld 32) =
       (Inr sig, (demoWorld 32)\<lparr>rng := drop 32 (rng (demoWorld 32))\<rparr>) \<and>
     identity_Verify demoPrimitives (identity_Public kp) [1, 2, 3] sig = Inr ()"
proof -
  have laws: "signature_laws demoPrimitives" using demo_lawful by (simp add: lawful_def)
  obtain kp w' where g: "identity_Generate demoPrimitives (demoWorld 64) = (Inr kp, w')"
    by (simp add: identity_Generate_def demoPrimitives_def tryS_step readRand_run)
  from identity_sign_verify [OF laws g, of "demoWorld 32" "[1, 2, 3]"] g show ?thesis by auto
qed

text \<open>
  No downgrade. \<open>Verify\<close> accepts exactly when the Ed25519 key has its fixed length and
  both component signatures verify; if one component fails the result is
  \<open>ErrVerification\<close> whatever the other says, and only a malformed Ed25519 key panics.
\<close>

theorem identity_verify_both:
  "identity_Verify P pub msg sig =
     (if length (idEd25519 pub) \<noteq> 32 then Inl Panics
      else if ed25519_verify P (idEd25519 pub) msg (sigEd25519 sig)
              \<and> mldsa_verify P (idMLDSA pub) msg (sigMLDSA sig) then Inr ()
      else Inl (GoError ErrVerification))"
  by (simp add: identity_Verify_def ed25519_Verify_def)

end
