(* ===== verification/KemHybrid.thy ===== *)
theory KemHybrid
  imports Primitives
begin

text \<open>
  \<open>crypto/kemhybrid/hybrid.go\<close>: the hybrid key exchange (X25519 and ML-KEM-768) with its HKDF
  combiner. The interface \<open>key_encapsulation\<close> is what session establishment relies on; the
  combiner's binding of the session key to both secrets and the transcript is reduced to
  SHA-256 collisions.
\<close>

section \<open>Keys and ciphertexts\<close>

record KemPublicKey =
  pubX25519 :: bytes
  pubMLKEM :: bytes

record KemPrivateKey =
  privX25519 :: bytes
  privMLKEM :: bytes

record Ciphertext =
  X25519Ephemeral :: bytes
  MLKEMCiphertext :: bytes

definition SessionKeySize :: nat where
  "SessionKeySize = 32"

definition hkdfInfo :: gostring where
  "hkdfInfo = ascii ''pqchat-v1-session''"

definition PublicKeySize :: nat where
  "PublicKeySize = 32 + mlkem_PublicKeySize"

definition kem_Public :: "primitives \<Rightarrow> KemPrivateKey \<Rightarrow> KemPublicKey" where
  "kem_Public P priv =
     \<lparr>pubX25519 = ecdh_PublicKey P (privX25519 priv), pubMLKEM = mlkem_public P (privMLKEM priv)\<rparr>"

definition kem_MarshalPublicKey :: "KemPublicKey \<Rightarrow> fault + bytes" where
  "kem_MarshalPublicKey pub =
     tryE (mlkem_MarshalBinary (pubMLKEM pub)) (\<lambda>mlkemBytes. Inr (pubX25519 pub @ mlkemBytes))"

definition kem_UnmarshalPublicKey :: "primitives \<Rightarrow> bytes \<Rightarrow> fault + KemPublicKey" where
  "kem_UnmarshalPublicKey P buf =
     (if length buf \<noteq> PublicKeySize then Inl (GoError ErrInvalidPublicKeyLength)
      else tryE (sliceTo buf 32) (\<lambda>x25519Bytes.
           tryE (ecdh_NewPublicKey x25519Bytes) (\<lambda>x25519Pub.
           tryE (sliceFrom buf 32) (\<lambda>mlkemBytes.
           tryE (mlkem_Unpack P mlkemBytes) (\<lambda>mlkemPub.
           Inr \<lparr>pubX25519 = x25519Pub, pubMLKEM = mlkemPub\<rparr>)))))"

definition kem_GenerateKeyPair :: "primitives \<Rightarrow> bytes option \<Rightarrow> (world, KemPrivateKey) action" where
  "kem_GenerateKeyPair P rnd =
     tryS (ecdh_GenerateKey rnd) (\<lambda>(x25519Priv, rnd).
     tryS (mlkem_GenerateKeyPair P rnd) (\<lambda>((_, mlkemPriv), _).
     ret \<lparr>privX25519 = x25519Priv, privMLKEM = mlkemPriv\<rparr>))"

definition kem_MarshalCiphertext :: "Ciphertext \<Rightarrow> fault + bytes" where
  "kem_MarshalCiphertext ct = Inr (X25519Ephemeral ct @ MLKEMCiphertext ct)"

definition kem_UnmarshalCiphertext :: "bytes \<Rightarrow> fault + Ciphertext" where
  "kem_UnmarshalCiphertext buf =
     (if length buf \<noteq> 32 + mlkem_CiphertextSize then Inl (GoError ErrInvalidCiphertextLength)
      else tryE (sliceTo buf 32) (\<lambda>x25519Bytes.
           tryE (ecdh_NewPublicKey x25519Bytes) (\<lambda>x25519Pub.
           tryE (sliceFrom buf 32) (\<lambda>mlkemBytes.
           Inr \<lparr>X25519Ephemeral = x25519Pub, MLKEMCiphertext = mlkemBytes\<rparr>))))"

section \<open>Encapsulation\<close>

definition combine :: "bytes \<Rightarrow> bytes \<Rightarrow> bytes \<Rightarrow> fault + bytes" where
  "combine ecdhSS kemSS transcript =
     hkdf_Key (ecdhSS @ kemSS) (sha256 transcript) hkdfInfo SessionKeySize"

text \<open>
  The ephemeral X25519 key is drawn from \<open>rnd\<close>; the ML-KEM encapsulation is given a nil seed
  and always draws from the system source.
\<close>

definition Encapsulate ::
  "primitives \<Rightarrow> KemPublicKey \<Rightarrow> bytes \<Rightarrow> bytes option \<Rightarrow> (world, Ciphertext \<times> bytes) action" where
  "Encapsulate P pub transcript rnd =
     tryS (ecdh_GenerateKey rnd) (\<lambda>(ephemeralPriv, _).
     tryS (pureS (ecdh_ECDH P ephemeralPriv (pubX25519 pub))) (\<lambda>ecdhSS.
     tryS (mlkem_EncapsulateTo P (pubMLKEM pub)) (\<lambda>(ct, kemSS).
     tryS (pureS (combine ecdhSS kemSS transcript)) (\<lambda>sessionKey.
     ret (\<lparr>X25519Ephemeral = ecdh_PublicKey P ephemeralPriv, MLKEMCiphertext = ct\<rparr>,
          sessionKey)))))"

definition Decapsulate :: "primitives \<Rightarrow> KemPrivateKey \<Rightarrow> Ciphertext \<Rightarrow> bytes \<Rightarrow> fault + bytes" where
  "Decapsulate P priv ct transcript =
     (if length (MLKEMCiphertext ct) \<noteq> mlkem_CiphertextSize then Inl (GoError ErrDecapsulation)
      else case ecdh_ECDH P (privX25519 priv) (X25519Ephemeral ct) of
        Inl _ \<Rightarrow> Inl (GoError ErrDecapsulation)
      | Inr ecdhSS \<Rightarrow>
          tryE (mlkem_DecapsulateTo P (privMLKEM priv) (MLKEMCiphertext ct)) (\<lambda>kemSS.
          combine ecdhSS kemSS transcript))"

section \<open>Lemmas\<close>

text \<open>A private key that came out of \<open>GenerateKeyPair\<close>.\<close>

definition genuineKem :: "primitives \<Rightarrow> KemPrivateKey \<Rightarrow> bool" where
  "genuineKem P priv \<longleftrightarrow> length (privX25519 priv) = 32 \<and>
     mlkem_pair P (mlkem_public P (privMLKEM priv)) (privMLKEM priv)"

lemma GenerateKeyPair_genuine:
  assumes "mlkem_laws P" and "kem_GenerateKeyPair P rnd w = (Inr priv, w')"
  shows "genuineKem P priv"
proof -
  obtain x r1 w1 r2 seed pk sk w2 where
    x: "readFrom rnd 32 w = (Inr (x, r1), w1)" and
    s: "readFrom r1 64 w1 = (Inr (seed, r2), w2)" "mlkem_keygen P seed = (pk, sk)" and
    priv: "priv = \<lparr>privX25519 = x, privMLKEM = sk\<rparr>"
    using assms(2)
    by (auto simp: kem_GenerateKeyPair_def ecdh_GenerateKey_def mlkem_GenerateKeyPair_def tryS_Inr
        split: prod.splits)
  have "mlkem_pair P pk sk" using s readFrom_length [OF s(1)] by (auto simp: mlkem_pair_def)
  moreover from this have "mlkem_public P sk = pk" by (rule mlkem_pair_facts(3) [OF assms(1)])
  ultimately show ?thesis using readFrom_length [OF x] by (simp add: genuineKem_def priv)
qed

lemma combine_total: "\<exists>k. combine a b t = Inr k \<and> length k = SessionKeySize"
  unfolding combine_def
  by (rule hkdf_Key_ok [of SessionKeySize "a @ b" "sha256 t" hkdfInfo])
    (simp_all add: SessionKeySize_def)

lemma length_kem_Public:
  assumes "x25519_laws P" and "mlkem_laws P" and "genuineKem P priv"
  shows "length (pubX25519 (kem_Public P priv)) = 32"
    and "length (pubMLKEM (kem_Public P priv)) = mlkem_PublicKeySize"
    and "mlkem_valid P (pubMLKEM (kem_Public P priv))"
  using assms mlkem_pair_facts [OF assms(2)]
  by (auto simp: kem_Public_def length_ecdh_PublicKey genuineKem_def)

lemma Encapsulate_Inr:
  assumes "Encapsulate P pub t rnd w = (Inr (ct, key), w')"
  obtains e rnd' w1 ecdhSS kemSS where "readFrom rnd 32 w = (Inr (e, rnd'), w1)"
    and "ecdh_ECDH P e (pubX25519 pub) = Inr ecdhSS"
    and "mlkem_EncapsulateTo P (pubMLKEM pub) w1 = (Inr (MLKEMCiphertext ct, kemSS), w')"
    and "combine ecdhSS kemSS t = Inr key" and "X25519Ephemeral ct = ecdh_PublicKey P e"
  using assms
  by (auto simp: Encapsulate_def ecdh_GenerateKey_def tryS_Inr split: prod.splits)

lemma Encapsulate_Decapsulate:
  assumes laws: "x25519_laws P" "mlkem_laws P" and priv: "genuineKem P priv"
    and enc: "Encapsulate P (kem_Public P priv) t rnd w = (Inr (ct, key), w')"
  shows "Decapsulate P priv ct t = Inr key"
proof -
  from enc obtain e rnd' w1 ecdhSS kemSS where
    e: "readFrom rnd 32 w = (Inr (e, rnd'), w1)" and
    ss: "ecdh_ECDH P e (pubX25519 (kem_Public P priv)) = Inr ecdhSS" and
    kem: "mlkem_EncapsulateTo P (pubMLKEM (kem_Public P priv)) w1 = (Inr (MLKEMCiphertext ct, kemSS), w')" and
    key: "combine ecdhSS kemSS t = Inr key" and eph: "X25519Ephemeral ct = ecdh_PublicKey P e"
    by (rule Encapsulate_Inr)
  have "ecdh_ECDH P (privX25519 priv) (X25519Ephemeral ct) = Inr ecdhSS"
    using ss x25519_commutes [OF laws(1) readFrom_length [OF e], of "privX25519 priv"] priv
    by (simp add: eph kem_Public_def genuineKem_def)
  moreover have pair: "mlkem_pair P (pubMLKEM (kem_Public P priv)) (privMLKEM priv)"
    using priv by (simp add: kem_Public_def genuineKem_def)
  note encaps_decaps [OF laws(2) pair kem]
  ultimately show ?thesis using key by (simp add: Decapsulate_def)
qed

text \<open>With enough entropy only a low-order X25519 result can make \<open>Encapsulate\<close> fail.\<close>

lemma Encapsulate_succeeds:
  assumes "ecdh_ECDH P (take 32 (rng w)) (pubX25519 pub) = Inr ss" and "64 \<le> length (rng w)"
  shows "\<exists>ct key. Encapsulate P pub t None w = (Inr (ct, key), w\<lparr>rng := drop 64 (rng w)\<rparr>)"
proof -
  obtain c s where cs: "mlkem_encaps P (pubMLKEM pub) (take 32 (drop 32 (rng w))) = (c, s)"
    by fastforce
  have g: "ecdh_GenerateKey None w = (Inr (take 32 (rng w), None), w\<lparr>rng := drop 32 (rng w)\<rparr>)"
    using assms(2) by (simp add: ecdh_GenerateKey_def readFrom_sys)
  have m: "mlkem_EncapsulateTo P (pubMLKEM pub) (w\<lparr>rng := drop 32 (rng w)\<rparr>) =
      (Inr (c, s), w\<lparr>rng := drop 64 (rng w)\<rparr>)"
    using assms(2) cs by (simp add: mlkem_EncapsulateTo_def readRand_run)
  obtain key where k: "combine ss s t = Inr key" using combine_total by blast
  show ?thesis by (simp add: Encapsulate_def tryS_step g m assms(1) k)
qed

section \<open>The interface session establishment uses\<close>

locale key_encapsulation =
  fixes laws :: "'l \<Rightarrow> bool"
    and genuine :: "'l \<Rightarrow> 'sk \<Rightarrow> bool"
    and public :: "'l \<Rightarrow> 'sk \<Rightarrow> 'pk"
    and encode :: "'pk \<Rightarrow> fault + bytes"
    and decode :: "'l \<Rightarrow> bytes \<Rightarrow> fault + 'pk"
    and encap :: "'l \<Rightarrow> 'pk \<Rightarrow> bytes \<Rightarrow> bytes option \<Rightarrow> (world, 'ct \<times> bytes) action"
    and decap :: "'l \<Rightarrow> 'sk \<Rightarrow> 'ct \<Rightarrow> bytes \<Rightarrow> fault + bytes"
  assumes encap_decap: "laws L \<Longrightarrow> genuine L sk \<Longrightarrow>
      encap L (public L sk) t rnd w = (Inr (ct, key), w') \<Longrightarrow> decap L sk ct t = Inr key"
    and encode_decode: "laws L \<Longrightarrow> genuine L sk \<Longrightarrow>
      \<exists>b. encode (public L sk) = Inr b \<and> decode L b = Inr (public L sk)"
begin

text \<open>Encapsulating to a published encoding: both sides hold the same key.\<close>

lemma published_key_agrees:
  assumes "laws L" and "genuine L sk" and "encode (public L sk) = Inr b"
    and "tryS (pureS (decode L b)) (\<lambda>pk. encap L pk t rnd) w = (Inr (ct, key), w')"
  shows "decap L sk ct t = Inr key"
proof -
  from encode_decode [OF assms(1,2)] assms(3) have "decode L b = Inr (public L sk)" by auto
  with assms(4) encap_decap [OF assms(1,2)] show ?thesis by simp
qed

end

definition kem_laws :: "primitives \<Rightarrow> bool" where
  "kem_laws P \<longleftrightarrow> x25519_laws P \<and> mlkem_laws P"

lemma Marshal_Unmarshal_PublicKey:
  assumes "length (pubX25519 pub) = 32" and "length (pubMLKEM pub) = mlkem_PublicKeySize"
    and "mlkem_valid P (pubMLKEM pub)"
  shows "\<exists>b. kem_MarshalPublicKey pub = Inr b \<and> length b = PublicKeySize \<and>
    kem_UnmarshalPublicKey P b = Inr (pub :: KemPublicKey)"
  using assms
  by (simp add: kem_MarshalPublicKey_def kem_UnmarshalPublicKey_def PublicKeySize_def
      ecdh_NewPublicKey_def mlkem_Unpack_def)

interpretation hybrid_kem: key_encapsulation kem_laws genuineKem kem_Public
  kem_MarshalPublicKey kem_UnmarshalPublicKey Encapsulate Decapsulate
proof unfold_locales
  fix L sk
  assume "kem_laws L" and "genuineKem L sk"
  then show "\<exists>b. kem_MarshalPublicKey (kem_Public L sk) = Inr b \<and>
      kem_UnmarshalPublicKey L b = Inr (kem_Public L sk)"
    using length_kem_Public Marshal_Unmarshal_PublicKey unfolding kem_laws_def by blast
qed (auto simp: kem_laws_def intro: Encapsulate_Decapsulate)

section \<open>The combiner binds its inputs\<close>

definition combineCollision ::
  "bytes \<Rightarrow> bytes \<Rightarrow> bytes \<Rightarrow> bytes \<Rightarrow> bytes \<Rightarrow> bytes \<Rightarrow> (bytes \<times> bytes) option" where
  "combineCollision e k t e' k' t' =
     firstCollision (hkdfPairs (e @ k) (sha256 t) (e' @ k') (sha256 t') hkdfInfo @ [(t, t')])"

lemma combine_binds:
  assumes "combine e k t = combine e' k' t'" and "length e = length e'"
  shows "e = e' \<and> k = k' \<and> t = t' \<or> sha256Collision (combineCollision e k t e' k' t')"
proof -
  obtain key where "combine e k t = Inr key" using combine_total by blast
  then have "e @ k = e' @ k' \<and> sha256 t = sha256 t' \<or>
      sha256Collision (firstCollision (hkdfPairs (e @ k) (sha256 t) (e' @ k') (sha256 t') hkdfInfo))"
    using assms(1) hkdf_binds [of "e @ k" "sha256 t" hkdfInfo SessionKeySize key "e' @ k'" "sha256 t'" key]
    by (simp add: combine_def SessionKeySize_def)
  then show ?thesis using assms(2)
    by (auto simp: combineCollision_def firstCollision_append firstCollision_Cons)
qed

section \<open>Properties\<close>

text \<open>
  The session key agrees. If the initiator's \<open>Encapsulate\<close> against the marshalled and
  re-parsed public key of a generated key pair returns a ciphertext and a key, the responder's
  \<open>Decapsulate\<close> of that ciphertext under the same transcript returns the same key.
\<close>

theorem kem_session_key_agrees:
  assumes "kem_laws P" and "kem_GenerateKeyPair P rnd w0 = (Inr priv, w1)"
    and "kem_MarshalPublicKey (kem_Public P priv) = Inr b"
    and "tryS (pureS (kem_UnmarshalPublicKey P b)) (\<lambda>pk. Encapsulate P pk transcript rnd') w =
      (Inr (ct, key), w')"
  shows "Decapsulate P priv ct transcript = Inr key"
proof -
  have "genuineKem P priv"
    using assms(1,2) GenerateKeyPair_genuine by (simp add: kem_laws_def)
  then show ?thesis using assms(1,3,4) by (intro hybrid_kem.published_key_agrees)
qed

lemma demo_kem_laws: "kem_laws demoPrimitives"
  using demo_lawful by (simp add: kem_laws_def lawful_def)

definition demoKemPriv :: KemPrivateKey where
  "demoKemPriv = \<lparr>privX25519 = replicate 32 0, privMLKEM = replicate 64 0\<rparr>"

lemma demo_GenerateKeyPair:
  "kem_GenerateKeyPair demoPrimitives None (demoWorld 96) = (Inr demoKemPriv, (demoWorld 96)\<lparr>rng := []\<rparr>)"
  by (simp add: kem_GenerateKeyPair_def ecdh_GenerateKey_def mlkem_GenerateKeyPair_def
      tryS_step readFrom_sys demoPrimitives_def demoKemPriv_def)

lemma demo_genuineKem: "genuineKem demoPrimitives demoKemPriv"
  using GenerateKeyPair_genuine [OF _ demo_GenerateKeyPair] demo_lawful by (simp add: lawful_def)

lemma kem_session_key_agrees_witness:
  "\<exists>b ct key w'. kem_MarshalPublicKey (kem_Public demoPrimitives demoKemPriv) = Inr b \<and>
     tryS (pureS (kem_UnmarshalPublicKey demoPrimitives b))
       (\<lambda>pk. Encapsulate demoPrimitives pk [1, 2] None) (demoWorld 64) = (Inr (ct, key), w') \<and>
     Decapsulate demoPrimitives demoKemPriv ct [1, 2] = Inr key"
proof -
  obtain b where b: "kem_MarshalPublicKey (kem_Public demoPrimitives demoKemPriv) = Inr b"
    "kem_UnmarshalPublicKey demoPrimitives b = Inr (kem_Public demoPrimitives demoKemPriv)"
    using hybrid_kem.encode_decode [OF demo_kem_laws demo_genuineKem] by blast
  obtain ss where "ecdh_ECDH demoPrimitives (take 32 (rng (demoWorld 64)))
      (pubX25519 (kem_Public demoPrimitives demoKemPriv)) = Inr ss"
    using demo_ECDH by (auto simp: kem_Public_def demoKemPriv_def)
  from Encapsulate_succeeds [OF this, of "[1, 2]"]
  obtain ct key w' where e: "tryS (pureS (kem_UnmarshalPublicKey demoPrimitives b))
       (\<lambda>pk. Encapsulate demoPrimitives pk [1, 2] None) (demoWorld 64) = (Inr (ct, key), w')"
    using b(2) by auto
  from kem_session_key_agrees [OF demo_kem_laws demo_GenerateKeyPair b(1) e] b(1) e
  show ?thesis by blast
qed

text \<open>
  The combiner binds the session key to the X25519 secret, the ML-KEM secret and the whole
  transcript: if two calls of \<open>combine\<close> with X25519 secrets of one length give the same key,
  their inputs are equal or \<open>combineCollision\<close>, computed from the inputs, is a SHA-256 collision.
\<close>

theorem combiner_binds_transcript:
  assumes "combine e k t = combine e' k' t'" and "length e = length e'"
  shows "e = e' \<and> k = k' \<and> t = t' \<or>
    (\<exists>x y. combineCollision e k t e' k' t' = Some (x, y) \<and> x \<noteq> y \<and> sha256 x = sha256 y)"
  using combine_binds [OF assms] by (simp add: sha256Collision_iff)

lemma combiner_binds_transcript_witness:
  "[1 :: byte] = [1] \<and> [2 :: byte] = [2] \<and> [3 :: byte] = [3] \<or>
    (\<exists>x y. combineCollision [1] [2] [3] [1] [2] [3] = Some (x, y) \<and> x \<noteq> y \<and> sha256 x = sha256 y)"
  by (rule combiner_binds_transcript) simp_all

text \<open>
  The encodings of the key exchange round-trip. A public key with components of the fixed
  lengths whose ML-KEM part unpacks is read back from \<open>Marshal\<close>, and whatever
  \<open>UnmarshalPublicKey\<close> or \<open>UnmarshalCiphertext\<close> accepts re-encodes to the same bytes; both
  reject every other length.
\<close>

theorem kem_encoding_roundtrip:
  fixes pub :: KemPublicKey and ct :: Ciphertext
  shows "(kem_UnmarshalPublicKey P b = Inr pub \<longleftrightarrow>
     kem_MarshalPublicKey pub = Inr b \<and> length (pubX25519 pub) = 32 \<and>
     length (pubMLKEM pub) = mlkem_PublicKeySize \<and> mlkem_valid P (pubMLKEM pub)) \<and>
   (kem_UnmarshalCiphertext c = Inr ct \<longleftrightarrow>
     kem_MarshalCiphertext ct = Inr c \<and> length (X25519Ephemeral ct) = 32 \<and>
     length (MLKEMCiphertext ct) = mlkem_CiphertextSize)"
proof
  show "kem_UnmarshalPublicKey P b = Inr pub \<longleftrightarrow>
     kem_MarshalPublicKey pub = Inr b \<and> length (pubX25519 pub) = 32 \<and>
     length (pubMLKEM pub) = mlkem_PublicKeySize \<and> mlkem_valid P (pubMLKEM pub)"
    using Marshal_Unmarshal_PublicKey [of pub P]
    by (auto simp: kem_UnmarshalPublicKey_def kem_MarshalPublicKey_def ecdh_NewPublicKey_def
        mlkem_Unpack_def tryE_Inr PublicKeySize_def split: if_splits)
  show "kem_UnmarshalCiphertext c = Inr ct \<longleftrightarrow>
     kem_MarshalCiphertext ct = Inr c \<and> length (X25519Ephemeral ct) = 32 \<and>
     length (MLKEMCiphertext ct) = mlkem_CiphertextSize"
    by (cases ct) (auto simp: kem_UnmarshalCiphertext_def kem_MarshalCiphertext_def
        ecdh_NewPublicKey_def tryE_Inr split: if_splits)
qed

end
