(* ===== verification/Merkle.thy ===== *)
theory Merkle
  imports Sha256
begin

text \<open>
  \<open>crypto/merkle/merkle.go\<close>: the domain-separated, padded binary Merkle tree shared by the
  prekey batches and the transparency log. The theory holds the tree (\<open>BuildTree\<close>, \<open>Root\<close>,
  \<open>InclusionProof\<close>), the verifier \<open>VerifyInclusionProof\<close>, and the lemmas that make it a vector
  commitment: every leaf's proof verifies, and two proofs that verify for one position under
  one root agree or hand over an explicit SHA-256 collision.
\<close>

section \<open>Hashes\<close>

text \<open>The type \<open>[32]byte\<close>.\<close>

typedef Hash = "{bs :: bytes. length bs = 32}"
  morphisms hashBytes Hash
  by (rule exI [of _ "replicate 32 0"]) simp

setup_lifting type_definition_Hash

instantiation Hash :: equal
begin

lift_definition equal_Hash :: "Hash \<Rightarrow> Hash \<Rightarrow> bool" is "(=)" .

instance
  by standard (transfer, simp)

end

lemma length_hashBytes [simp]: "length (hashBytes h) = 32"
  using hashBytes [of h] by simp

lift_definition leafHash :: "bytes \<Rightarrow> Hash" is "\<lambda>data. sha256 (0x00 # data)"
  by simp

lift_definition nodeHash :: "Hash \<Rightarrow> Hash \<Rightarrow> Hash" is "\<lambda>left right. sha256 (0x01 # left @ right)"
  by simp

section \<open>Building a tree\<close>

text \<open>
  The loop of \<open>nextPowerOfTwo\<close>, on 64-bit integers: \<open>p <<= 1\<close> wraps around, so the loop need
  not end; \<open>None\<close> stands for a loop that runs forever.
\<close>

partial_function (option) doubleUntil :: "int \<Rightarrow> int \<Rightarrow> int option" where
  "doubleUntil n p = (if p < n then doubleUntil n (wrap64 (2 * p)) else Some p)"

declare doubleUntil.simps [code]

definition nextPowerOfTwo :: "int \<Rightarrow> int option" where
  "nextPowerOfTwo n = doubleUntil n 1"

text \<open>\<open>%d\<close> of a non-negative integer.\<close>

fun decimal :: "nat \<Rightarrow> gostring" where
  "decimal n =
     (if n < 10 then [of_nat (48 + n)] else decimal (n div 10) @ [of_nat (48 + n mod 10)])"

declare decimal.simps [simp del]

definition paddingLeaf :: "gostring \<Rightarrow> nat \<Rightarrow> bytes" where
  "paddingLeaf domain index =
     ascii ''pqchat-merkle-padding-leaf-'' @ domain @ ascii ''-'' @ decimal index"

record Tree =
  tree_n :: nat
  levels :: "Hash list list"

definition treeLeaves :: "gostring \<Rightarrow> bytes list \<Rightarrow> nat \<Rightarrow> Hash list" where
  "treeLeaves domain leafData sz =
     map (\<lambda>i. if i < length leafData then leafHash (leafData ! i)
              else leafHash (paddingLeaf domain i)) [0..<sz]"

definition nextLevel :: "Hash list \<Rightarrow> Hash list" where
  "nextLevel cur = map (\<lambda>i. nodeHash (cur ! (2 * i)) (cur ! (2 * i + 1))) [0..<length cur div 2]"

lemma length_nextLevel [simp]: "length (nextLevel cur) = length cur div 2"
  by (simp add: nextLevel_def)

function treeLevels :: "Hash list \<Rightarrow> Hash list list" where
  "treeLevels cur = (if length cur > 1 then cur # treeLevels (nextLevel cur) else [cur])"
  by pat_completeness auto
termination
  by (relation "measure length") auto

declare treeLevels.simps [simp del]

definition BuildTree :: "gostring \<Rightarrow> bytes list \<Rightarrow> fault + Tree" where
  "BuildTree domain leafData =
     (let n = length leafData in
      case nextPowerOfTwo (max (int n) 1) of
        None \<Rightarrow> Inl NoReturn
      | Some sz \<Rightarrow>
          Inr \<lparr>tree_n = n, levels = treeLevels (treeLeaves domain leafData (nat sz))\<rparr>)"

definition Root :: "Tree \<Rightarrow> Hash" where
  "Root t = levels t ! (length (levels t) - 1) ! 0"

section \<open>Proofs\<close>

fun auditPath :: "Hash list list \<Rightarrow> int \<Rightarrow> fault + Hash list" where
  "auditPath [] idx = Inr []"
| "auditPath (level # ls) idx =
     tryE (sliceAt level (idx XOR 1)) (\<lambda>h.
     tryE (auditPath ls (drop_bit 1 idx)) (\<lambda>path. Inr (h # path)))"

definition InclusionProof :: "Tree \<Rightarrow> int \<Rightarrow> fault + Hash list" where
  "InclusionProof t index =
     (if index < 0 \<or> index \<ge> int (tree_n t) then Inl (GoError MerkleErrIndexOutOfRange)
      else auditPath (butlast (levels t)) index)"

function treeDepth :: "int \<Rightarrow> nat" where
  "treeDepth p = (if p > 1 then Suc (treeDepth (drop_bit 1 p)) else 0)"
  by pat_completeness auto
termination
  by (relation "measure nat") (auto simp: drop_bit_eq_div)

declare treeDepth.simps [simp del]

fun climb :: "Hash \<Rightarrow> int \<Rightarrow> Hash list \<Rightarrow> Hash" where
  "climb h idx [] = h"
| "climb h idx (sibling # path) =
     climb (if idx AND 1 = 0 then nodeHash h sibling else nodeHash sibling h) (drop_bit 1 idx) path"

definition VerifyInclusionProof ::
  "bytes \<Rightarrow> int \<Rightarrow> int \<Rightarrow> Hash list \<Rightarrow> Hash \<Rightarrow> fault + bool" where
  "VerifyInclusionProof leafData index sz path root =
     (if index < 0 \<or> index \<ge> sz then Inr False
      else case nextPowerOfTwo sz of
        None \<Rightarrow> Inl NoReturn
      | Some p \<Rightarrow>
          if length path \<noteq> treeDepth p then Inr False
          else Inr (climb (leafHash leafData) index path = root))"

section \<open>The doubling loop\<close>

lemma wrap64_double: "k < 62 \<Longrightarrow> wrap64 (2 * 2 ^ k) = 2 ^ Suc k"
proof -
  assume "k < 62"
  then have "(2 :: int) ^ Suc k \<le> 2 ^ 62" by (intro power_increasing) auto
  moreover have "- (2 ^ 63) \<le> (2 :: int) ^ Suc k" by (rule order_trans [of _ 0]) simp_all
  ultimately have "wrap64 (2 ^ Suc k) = 2 ^ Suc k"
    by (intro wrap64_id) (simp_all only: order_le_less_trans [of _ "2 ^ 62 :: int"], simp)
  then show ?thesis by simp
qed

lemma doubleUntil_finds:
  "i \<le> j \<Longrightarrow> j \<le> 62 \<Longrightarrow> n \<le> 2 ^ j \<Longrightarrow> (\<And>k. i \<le> k \<Longrightarrow> k < j \<Longrightarrow> 2 ^ k < n) \<Longrightarrow>
     doubleUntil n (2 ^ i) = Some (2 ^ j)"
proof (induction "j - i" arbitrary: i)
  case 0
  then show ?case by (simp add: doubleUntil.simps)
next
  case (Suc d)
  then have "i < j" and less: "(2 ^ i :: int) < n" by simp_all
  have "wrap64 (2 * 2 ^ i) = 2 ^ Suc i"
    using \<open>i < j\<close> Suc.prems(2) by (intro wrap64_double) simp
  moreover have "doubleUntil n (2 ^ Suc i) = Some (2 ^ j)"
    using Suc \<open>i < j\<close> by (intro Suc.hyps(1)) auto
  ultimately show ?case using less by (subst doubleUntil.simps) simp
qed

text \<open>Up to \<open>2 ^ 62\<close> the loop returns the least power of two that is large enough.\<close>

lemma nextPowerOfTwo_least:
  assumes "n \<le> 2 ^ 62"
  obtains k where "nextPowerOfTwo n = Some (2 ^ k)" and "n \<le> 2 ^ k" and "k \<le> 62"
    and "\<And>j. n \<le> 2 ^ j \<Longrightarrow> k \<le> j"
proof -
  define k where "k = (LEAST j. n \<le> (2 :: int) ^ j)"
  have k: "n \<le> 2 ^ k" unfolding k_def by (rule LeastI) (rule assms)
  have least: "k \<le> j" if "n \<le> 2 ^ j" for j
    unfolding k_def using that by (rule Least_le)
  have "doubleUntil n (2 ^ 0) = Some (2 ^ k)"
    using k least least [OF assms] by (intro doubleUntil_finds) (auto simp: not_le [symmetric])
  then show ?thesis using that k least least [OF assms] by (simp add: nextPowerOfTwo_def)
qed

text \<open>
  Beyond \<open>2 ^ 62\<close> it visits \<open>1, 2, 4, ..., 2 ^ 62, - 2 ^ 63, 0, 0, ...\<close>, all below \<open>n\<close>.
\<close>

definition doubling_orbit :: "int set" where
  "doubling_orbit = {0, - (2 ^ 63)} \<union> (\<lambda>k. 2 ^ k) ` {..62}"

lemma doubling_orbit_step: "p \<in> doubling_orbit \<Longrightarrow> wrap64 (2 * p) \<in> doubling_orbit"
proof -
  assume "p \<in> doubling_orbit"
  then consider "p = 0" | "p = - (2 ^ 63)" | "p = 2 ^ 62" | k where "p = 2 ^ k" "k < 62"
    unfolding doubling_orbit_def by (auto simp: le_less)
  then show ?thesis
  proof cases
    case (4 k)
    then have "wrap64 (2 * p) = 2 ^ Suc k" using wrap64_double by simp
    moreover have "(2 :: int) ^ Suc k \<in> (\<lambda>k. 2 ^ k) ` {..62}" using 4 by (intro imageI) simp
    ultimately show ?thesis unfolding doubling_orbit_def by simp
  qed (simp_all add: doubling_orbit_def wrap64_def)
qed

lemma doubling_orbit_le: "p \<in> doubling_orbit \<Longrightarrow> p \<le> 2 ^ 62"
  unfolding doubling_orbit_def using power_increasing [of _ 62 "2 :: int"] by auto

lemma doubleUntil_diverges:
  assumes "2 ^ 62 < n" and "p \<in> doubling_orbit"
  shows "doubleUntil n p = None"
proof (rule ccontr)
  assume "doubleUntil n p \<noteq> None"
  then obtain r where r: "doubleUntil n p = Some r" by auto
  have "\<not> (2 ^ 62 < n \<and> p \<in> doubling_orbit)"
  proof (rule doubleUntil.raw_induct
      [where P = "\<lambda>n p r. \<not> (2 ^ 62 < n \<and> p \<in> doubling_orbit)", OF _ r])
    fix f n p r
    assume "\<And>n p r. f n p = Some r \<Longrightarrow> \<not> (2 ^ 62 < n \<and> p \<in> doubling_orbit)"
      and "(if p < n then f n (wrap64 (2 * p)) else Some p) = Some r"
    then show "\<not> (2 ^ 62 < n \<and> p \<in> doubling_orbit)"
      using doubling_orbit_step doubling_orbit_le [of p] by (auto split: if_splits)
  qed
  with assms show False by simp
qed

lemma nextPowerOfTwo_diverges:
  assumes "2 ^ 62 < n"
  shows "nextPowerOfTwo n = None"
proof -
  have "1 \<in> doubling_orbit" unfolding doubling_orbit_def by (auto intro: image_eqI [of _ _ 0])
  then show ?thesis
    unfolding nextPowerOfTwo_def by (rule doubleUntil_diverges [OF assms])
qed

lemma treeDepth_power: "treeDepth (2 ^ k) = k"
proof (induction k)
  case 0
  show ?case by (simp add: treeDepth.simps)
next
  case (Suc k)
  have "drop_bit 1 ((2 :: int) ^ Suc k) = 2 ^ k" by (simp add: drop_bit_eq_div)
  moreover have "(1 :: int) < 2 ^ Suc k" by (rule one_less_power) simp_all
  ultimately show ?case using Suc by (subst treeDepth.simps) simp
qed

section \<open>Every leaf's proof verifies\<close>

lemma treeLevels_nonempty [simp]: "treeLevels cur \<noteq> []"
  by (subst treeLevels.simps) simp

lemma treeLevels_Cons:
  "length cur > 1 \<Longrightarrow> treeLevels cur = cur # treeLevels (nextLevel cur)"
  by (subst treeLevels.simps) simp

lemma treeLevels_single: "length cur = 1 \<Longrightarrow> treeLevels cur = [cur]"
  by (subst treeLevels.simps) simp

lemma nextLevel_nth:
  assumes "i < length cur" and "even (length cur)"
  shows "nextLevel cur ! (i div 2) =
    (if even i then nodeHash (cur ! i) (cur ! (i + 1)) else nodeHash (cur ! (i - 1)) (cur ! i))"
proof -
  have "i div 2 < length cur div 2" using assms by presburger
  then show ?thesis
    by (cases "even i") (auto simp: nextLevel_def elim!: evenE oddE)
qed

lemma climb_auditPath:
  assumes "length cur = 2 ^ d" and "i < 2 ^ d"
  shows "\<exists>path. auditPath (butlast (treeLevels cur)) (int i) = Inr path \<and> length path = d
           \<and> climb (cur ! i) (int i) path = last (treeLevels cur) ! 0"
  using assms
proof (induction d arbitrary: cur i)
  case 0
  then show ?case by (simp add: treeLevels_single)
next
  case (Suc d)
  let ?j = "if even i then i + 1 else i - 1"
  have ev: "even (length cur)" and more: "length cur > 1"
    using Suc.prems(1) one_less_power [of "2 :: nat" "Suc d"] by auto
  have "i < length cur" using Suc.prems by simp
  with ev have j: "?j < length cur" by presburger
  have "length (nextLevel cur) = 2 ^ d" and "i div 2 < 2 ^ d" using Suc.prems by auto
  from Suc.IH [OF this] obtain path where path:
    "auditPath (butlast (treeLevels (nextLevel cur))) (int (i div 2)) = Inr path" "length path = d"
    "climb (nextLevel cur ! (i div 2)) (int (i div 2)) path = last (treeLevels (nextLevel cur)) ! 0"
    by blast
  have "auditPath (butlast (treeLevels cur)) (int i) = Inr (cur ! ?j # path)"
    using path(1) sliceAt_in [OF j] by (simp add: treeLevels_Cons [OF more] del: of_nat_add)
  moreover have "climb (cur ! i) (int i) (cur ! ?j # path) = last (treeLevels cur) ! 0"
    using path(3) Suc.prems nextLevel_nth [of i cur] ev
    by (cases "even i") (simp_all add: treeLevels_Cons [OF more] even_iff_mod_2_eq_zero)
  ultimately show ?case using path(2) by auto
qed

lemma BuildTree_Inr:
  assumes "BuildTree domain leaves = Inr t"
  obtains k where "nextPowerOfTwo (max (int (length leaves)) 1) = Some (2 ^ k)"
    and "max (int (length leaves)) 1 \<le> 2 ^ k" and "tree_n t = length leaves"
    and "levels t = treeLevels (treeLeaves domain leaves (2 ^ k))"
proof -
  have "\<not> 2 ^ 62 < max (int (length leaves)) 1"
    using assms nextPowerOfTwo_diverges by (force simp: BuildTree_def split: option.splits)
  then obtain k where "nextPowerOfTwo (max (int (length leaves)) 1) = Some (2 ^ k)"
    and "max (int (length leaves)) 1 \<le> 2 ^ k"
    by (metis nextPowerOfTwo_least not_le)
  with assms that show ?thesis by (auto simp: BuildTree_def nat_power_eq)
qed

lemma BuildTree_total:
  assumes "length leaves \<le> 2 ^ 62"
  shows "\<exists>t. BuildTree domain leaves = Inr t"
proof -
  have "int (length leaves) \<le> 2 ^ 62" using assms by (simp flip: of_nat_le_iff)
  then have "max (int (length leaves)) 1 \<le> 2 ^ 62" by simp
  then show ?thesis by (elim nextPowerOfTwo_least) (simp add: BuildTree_def)
qed

lemma Root_last: "levels t = treeLevels cur \<Longrightarrow> Root t = last (treeLevels cur) ! 0"
  by (simp add: Root_def last_conv_nth)

lemma length_treeLeaves [simp]: "length (treeLeaves domain leaves sz) = sz"
  by (simp add: treeLeaves_def)

lemma proof_verifies:
  assumes t: "BuildTree domain leaves = Inr t" and i: "i < length leaves"
  shows "\<exists>path. InclusionProof t (int i) = Inr path \<and>
    VerifyInclusionProof (leaves ! i) (int i) (int (length leaves)) path (Root t) = Inr True"
proof -
  from t obtain k where k: "nextPowerOfTwo (max (int (length leaves)) 1) = Some (2 ^ k)"
      "max (int (length leaves)) 1 \<le> 2 ^ k" "tree_n t = length leaves"
      "levels t = treeLevels (treeLeaves domain leaves (2 ^ k))"
    by (rule BuildTree_Inr)
  have "int i < 2 ^ k" using k(2) i by simp
  then have i2: "i < 2 ^ k" by (simp flip: of_nat_less_iff)
  have "max (int (length leaves)) 1 = int (length leaves)" using i by simp
  with k(1) have "nextPowerOfTwo (int (length leaves)) = Some (2 ^ k)" by simp
  moreover have "treeLeaves domain leaves (2 ^ k) ! i = leafHash (leaves ! i)"
    using i i2 by (simp add: treeLeaves_def)
  moreover obtain path where
    "auditPath (butlast (levels t)) (int i) = Inr path" "length path = k"
    "climb (treeLeaves domain leaves (2 ^ k) ! i) (int i) path = Root t"
    using climb_auditPath [of "treeLeaves domain leaves (2 ^ k)" k i] i2 Root_last [OF k(4)]
    by (auto simp: k(4))
  ultimately show ?thesis using i k(3)
    by (simp add: InclusionProof_def VerifyInclusionProof_def treeDepth_power)
qed

section \<open>Two proofs for one position\<close>

text \<open>
  \<open>merkleCollision d path d' path' idx\<close> follows two audit paths upwards and returns the first
  pair of different SHA-256 inputs it meets that hash to the same value.
\<close>

definition nodeInput :: "Hash \<Rightarrow> int \<Rightarrow> Hash \<Rightarrow> bytes" where
  "nodeInput h idx sibling =
     (if idx AND 1 = 0 then 0x01 # hashBytes h @ hashBytes sibling
      else 0x01 # hashBytes sibling @ hashBytes h)"

fun pathCollision ::
  "Hash \<Rightarrow> Hash list \<Rightarrow> Hash \<Rightarrow> Hash list \<Rightarrow> int \<Rightarrow> (bytes \<times> bytes) option" where
  "pathCollision h (s # p) h' (s' # p') idx =
     (let x = nodeInput h idx s; x' = nodeInput h' idx s' in
      if x \<noteq> x' \<and> sha256 x = sha256 x' then Some (x, x')
      else pathCollision (climb h idx [s]) p (climb h' idx [s']) p' (drop_bit 1 idx))"
| "pathCollision _ _ _ _ _ = None"

definition merkleCollision ::
  "bytes \<Rightarrow> Hash list \<Rightarrow> bytes \<Rightarrow> Hash list \<Rightarrow> int \<Rightarrow> (bytes \<times> bytes) option" where
  "merkleCollision d p d' p' idx =
     (if d \<noteq> d' \<and> leafHash d = leafHash d' then Some (0x00 # d, 0x00 # d')
      else pathCollision (leafHash d) p (leafHash d') p' idx)"

lemma hashBytes_leafHash [simp]: "hashBytes (leafHash d) = sha256 (0x00 # d)"
  by transfer simp

lemma hashBytes_climb1: "hashBytes (climb h idx [s]) = sha256 (nodeInput h idx s)"
  unfolding nodeInput_def by (simp, transfer, simp)

lemma hash_eq_iff: "h = h' \<longleftrightarrow> hashBytes h = hashBytes h'"
  by (simp add: hashBytes_inject)

lemma nodeInput_inj [simp]: "nodeInput h idx s = nodeInput h' idx s' \<longleftrightarrow> h = h' \<and> s = s'"
  by (auto simp: nodeInput_def hash_eq_iff)

lemma pathCollision_finds:
  assumes "length p = length p'" and "climb h idx p = climb h' idx p'" and "h \<noteq> h' \<or> p \<noteq> p'"
  shows "sha256Collision (pathCollision h p h' p' idx)"
  using assms
proof (induction p p' arbitrary: h h' idx rule: list_induct2)
  case Nil
  then show ?case by simp
next
  case (Cons s p s' p')
  let ?x = "nodeInput h idx s" and ?x' = "nodeInput h' idx s'"
  let ?n = "climb h idx [s]" and ?n' = "climb h' idx [s']"
  show ?case
  proof (cases "?x \<noteq> ?x' \<and> sha256 ?x = sha256 ?x'")
    case True
    then show ?thesis by (simp add: sha256Collision_def Let_def)
  next
    case False
    then have "?n \<noteq> ?n' \<or> p \<noteq> p'"
      using Cons.prems(2) by (auto simp only: hash_eq_iff [of ?n] hashBytes_climb1 nodeInput_inj)
    moreover have "climb ?n (drop_bit 1 idx) p = climb ?n' (drop_bit 1 idx) p'"
      using Cons.prems(1) by simp
    ultimately have "sha256Collision (pathCollision ?n p ?n' p' (drop_bit 1 idx))"
      by (intro Cons.IH)
    moreover have "pathCollision h (s # p) h' (s' # p') idx = pathCollision ?n p ?n' p' (drop_bit 1 idx)"
      using False unfolding pathCollision.simps Let_def by (simp only: if_False)
    ultimately show ?thesis by (simp only:)
  qed
qed

lemma Verify_true:
  "VerifyInclusionProof d idx sz path root = Inr True \<longleftrightarrow>
     0 \<le> idx \<and> idx < sz \<and> (\<exists>p. nextPowerOfTwo sz = Some p \<and> length path = treeDepth p) \<and>
     climb (leafHash d) idx path = root"
  by (auto simp: VerifyInclusionProof_def split: option.splits if_splits)

lemma proofs_bind:
  assumes "VerifyInclusionProof d idx sz path root = Inr True"
    and "VerifyInclusionProof d' idx sz path' root = Inr True"
  shows "d = d' \<and> path = path' \<or> sha256Collision (merkleCollision d path d' path' idx)"
proof (cases "d \<noteq> d' \<and> leafHash d = leafHash d'")
  case True
  then have "sha256 (0x00 # d) = sha256 (0x00 # d')" by (metis hashBytes_leafHash)
  with True show ?thesis by (simp add: merkleCollision_def sha256Collision_def)
next
  case False
  show ?thesis
  proof (cases "d = d' \<and> path = path'")
    case neq: False
    with False have "leafHash d \<noteq> leafHash d' \<or> path \<noteq> path'" by auto
    moreover have "length path = length path'"
      and "climb (leafHash d) idx path = climb (leafHash d') idx path'"
      using assms by (auto simp: Verify_true)
    ultimately have "sha256Collision (pathCollision (leafHash d) path (leafHash d') path' idx)"
      by (intro pathCollision_finds)
    with False show ?thesis by (auto simp: merkleCollision_def)
  qed simp
qed

section \<open>A proof of any claimed size against an honest root\<close>

text \<open>
  The root does not commit to the number of leaves, so a verifier may be given any size. The
  hash inputs of the verifier and of the tree builder are listed; if no input of the one
  collides with an input of the other, the climb from the claimed leaf retraces the tree.
\<close>

definition paddedLeaves :: "gostring \<Rightarrow> bytes list \<Rightarrow> nat \<Rightarrow> bytes list" where
  "paddedLeaves domain leaves sz =
     map (\<lambda>i. if i < length leaves then leaves ! i else paddingLeaf domain i) [0..<sz]"

lemma treeLeaves_padded: "treeLeaves domain leaves sz = map leafHash (paddedLeaves domain leaves sz)"
  by (simp add: treeLeaves_def paddedLeaves_def)

text \<open>The leaves \<open>BuildTree\<close> hashes: padded to the size that \<open>nextPowerOfTwo\<close> gives.\<close>

definition paddedTree :: "gostring \<Rightarrow> bytes list \<Rightarrow> bytes list" where
  "paddedTree domain leaves =
     (case nextPowerOfTwo (max (int (length leaves)) 1) of
        None \<Rightarrow> []
      | Some sz \<Rightarrow> paddedLeaves domain leaves (nat sz))"

lemma paddedTree_levels:
  "BuildTree domain leaves = Inr t \<Longrightarrow> levels t = treeLevels (map leafHash (paddedTree domain leaves))"
  by (auto simp: BuildTree_def paddedTree_def treeLeaves_padded Let_def split: option.splits)

fun climbInputs :: "Hash \<Rightarrow> int \<Rightarrow> Hash list \<Rightarrow> bytes list" where
  "climbInputs h idx [] = []"
| "climbInputs h idx (s # path) =
     nodeInput h idx s # climbInputs (climb h idx [s]) (drop_bit 1 idx) path"

definition verifierInputs :: "bytes \<Rightarrow> int \<Rightarrow> Hash list \<Rightarrow> bytes list" where
  "verifierInputs d idx path = (0x00 # d) # climbInputs (leafHash d) idx path"

definition levelInputs :: "Hash list \<Rightarrow> bytes list" where
  "levelInputs cur =
     map (\<lambda>i. 0x01 # hashBytes (cur ! (2 * i)) @ hashBytes (cur ! (2 * i + 1))) [0..<length cur div 2]"

definition builderInputs :: "bytes list \<Rightarrow> bytes list" where
  "builderInputs padded =
     map ((#) 0x00) padded @ concat (map levelInputs (butlast (treeLevels (map leafHash padded))))"

definition crossCollision :: "bytes list \<Rightarrow> bytes list \<Rightarrow> (bytes \<times> bytes) option" where
  "crossCollision vs ts = firstCollision (List.product vs ts)"

lemma no_crossCollision:
  "\<not> sha256Collision (crossCollision vs ts) \<longleftrightarrow>
     (\<forall>x \<in> set vs. \<forall>y \<in> set ts. sha256 x = sha256 y \<longrightarrow> x = y)"
proof -
  have "sha256Collision (firstCollision ps) \<longleftrightarrow> (\<exists>(x, y) \<in> set ps. x \<noteq> y \<and> sha256 x = sha256 y)"
    for ps by (induction ps) (auto simp: firstCollision_Cons)
  then show ?thesis unfolding crossCollision_def by auto
qed

lemma treeLevels_shape:
  assumes "length cur = 2 ^ k"
  shows "length (treeLevels cur) = Suc k" and "treeLevels cur ! 0 = cur"
    and "l \<le> k \<Longrightarrow> length (treeLevels cur ! l) = 2 ^ (k - l)"
    and "l < k \<Longrightarrow> treeLevels cur ! Suc l = nextLevel (treeLevels cur ! l)"
proof -
  have "length (treeLevels cur) = Suc k \<and> treeLevels cur ! 0 = cur \<and>
      (\<forall>l \<le> k. length (treeLevels cur ! l) = 2 ^ (k - l)) \<and>
      (\<forall>l < k. treeLevels cur ! Suc l = nextLevel (treeLevels cur ! l))"
    using assms
  proof (induction k arbitrary: cur)
    case 0
    then show ?case by (simp add: treeLevels_single)
  next
    case (Suc k)
    have more: "length cur > 1" using Suc.prems one_less_power [of "2 :: nat" "Suc k"] by simp
    have "length (nextLevel cur) = 2 ^ k" using Suc.prems by simp
    note IH = Suc.IH [OF this]
    have "length (treeLevels cur ! l) = 2 ^ (Suc k - l)" if "l \<le> Suc k" for l
      using that IH Suc.prems by (cases l) (auto simp: treeLevels_Cons [OF more])
    moreover have "treeLevels cur ! Suc l = nextLevel (treeLevels cur ! l)" if "l < Suc k" for l
      using that IH by (cases l) (auto simp: treeLevels_Cons [OF more])
    ultimately show ?case using IH by (auto simp: treeLevels_Cons [OF more])
  qed
  then show "length (treeLevels cur) = Suc k" and "treeLevels cur ! 0 = cur"
    and "l \<le> k \<Longrightarrow> length (treeLevels cur ! l) = 2 ^ (k - l)"
    and "l < k \<Longrightarrow> treeLevels cur ! Suc l = nextLevel (treeLevels cur ! l)" by blast+
qed

text \<open>Every node above the leaves is the hash of one of the builder's inputs.\<close>

lemma node_of_builder:
  assumes len: "length padded = 2 ^ k" and l: "l < k" and j: "j < 2 ^ (k - Suc l)"
  defines "Ls \<equiv> treeLevels (map leafHash padded)"
  defines "x \<equiv> 0x01 # hashBytes (Ls ! l ! (2 * j)) @ hashBytes (Ls ! l ! (2 * j + 1))"
  shows "x \<in> set (builderInputs padded)" and "hashBytes (Ls ! Suc l ! j) = sha256 x"
proof -
  have len': "length (map leafHash padded) = 2 ^ k" using len by simp
  note shape = treeLevels_shape [OF len', folded Ls_def]
  have "2 ^ (k - l) = 2 * (2 :: nat) ^ (k - Suc l)" using l by (simp flip: power_Suc add: Suc_diff_Suc)
  then have half: "length (Ls ! l) div 2 = 2 ^ (k - Suc l)" using shape(3) [of l] l by simp
  have "Ls ! l \<in> set (butlast Ls)"
    using l shape(1) nth_mem [of l "butlast Ls"] by (simp add: nth_butlast)
  moreover have "x \<in> set (levelInputs (Ls ! l))"
    unfolding levelInputs_def x_def half using j by (auto simp del: hashBytes_leafHash)
  ultimately show "x \<in> set (builderInputs padded)" by (auto simp: builderInputs_def Ls_def)
  have "Ls ! Suc l ! j = nodeHash (Ls ! l ! (2 * j)) (Ls ! l ! (2 * j + 1))"
    using shape(4) [of l] l j half by (simp add: nextLevel_def)
  then show "hashBytes (Ls ! Suc l ! j) = sha256 x" by (simp add: x_def nodeHash.rep_eq)
qed

lemma nodeInput_int:
  "nodeInput h (int i) s = 0x01 # hashBytes (if even i then h else s) @ hashBytes (if even i then s else h)"
  by (simp add: nodeInput_def even_iff_mod_2_eq_zero)

lemma climb_retraces:
  assumes len: "length padded = 2 ^ k"
    and nc: "\<forall>x \<in> set (climbInputs h (int i) path). \<forall>y \<in> set (builderInputs padded).
      sha256 x = sha256 y \<longrightarrow> x = y"
    and root: "climb h (int i) path = treeLevels (map leafHash padded) ! k ! 0"
    and i: "i < 2 ^ length path"
  shows "length path \<le> k \<and> h = treeLevels (map leafHash padded) ! (k - length path) ! i"
  using nc root i
proof (induction path arbitrary: h i)
  case Nil
  then show ?case by simp
next
  case (Cons s path)
  let ?Ls = "treeLevels (map leafHash padded)" and ?x = "nodeInput h (int i) s"
  let ?h = "climb h (int i) [s]"
  have IH: "length path \<le> k \<and> ?h = ?Ls ! (k - length path) ! (i div 2)"
    using Cons.prems by (intro Cons.IH) auto
  have i2: "i div 2 < 2 ^ length path" using Cons.prems(3) by simp
  have same: "y = ?x" if "y \<in> set (builderInputs padded)" and "hashBytes ?h = sha256 y" for y
    using that Cons.prems(1) by (metis climbInputs.simps(2) hashBytes_climb1 list.set_intros(1))
  show ?case
  proof (cases "length path = k")
    case True
    have "?Ls ! 0 = map leafHash padded" using treeLevels_shape(2) len by simp
    then have "hashBytes ?h = sha256 (0x00 # padded ! (i div 2))"
      using IH True i2 len by simp
    moreover have "0x00 # padded ! (i div 2) \<in> set (builderInputs padded)"
      using i2 True len by (simp add: builderInputs_def)
    ultimately have "0x00 # padded ! (i div 2) = ?x" by (intro same)
    then show ?thesis by (simp add: nodeInput_int)
  next
    case False
    define l where "l = k - Suc (length path)"
    have l: "l < k" "Suc l = k - length path" "k - Suc l = length path"
      using False IH by (auto simp: l_def)
    let ?y = "0x01 # hashBytes (?Ls ! l ! (2 * (i div 2))) @ hashBytes (?Ls ! l ! (2 * (i div 2) + 1))"
    have "?y \<in> set (builderInputs padded)" and "hashBytes (?Ls ! Suc l ! (i div 2)) = sha256 ?y"
      using node_of_builder [OF len l(1), of "i div 2"] i2 l(3) by simp_all
    then have "?y = ?x" using IH l(2) by (intro same) auto
    then have "h = ?Ls ! l ! i"
      by (cases "even i") (auto simp: nodeInput_int hash_eq_iff [of h] elim!: evenE oddE)
    then show ?thesis using l IH by (simp add: l_def)
  qed
qed

lemma proof_any_size:
  assumes t: "BuildTree domain leaves = Inr t"
    and v: "VerifyInclusionProof d (int i) n path (Root t) = Inr True"
  obtains k where "paddedTree domain leaves = paddedLeaves domain leaves (2 ^ k)"
    and "length (levels t) = Suc k"
    and "length path = k \<and> i < 2 ^ k \<and> d = paddedLeaves domain leaves (2 ^ k) ! i \<or>
      sha256Collision (crossCollision (verifierInputs d (int i) path)
        (builderInputs (paddedTree domain leaves)))"
proof -
  from t obtain k where size: "nextPowerOfTwo (max (int (length leaves)) 1) = Some (2 ^ k)"
    and lv: "levels t = treeLevels (treeLeaves domain leaves (2 ^ k))"
    by (rule BuildTree_Inr)
  let ?padded = "paddedLeaves domain leaves (2 ^ k)"
  have len: "length ?padded = 2 ^ k" by (simp add: paddedLeaves_def)
  have lv': "levels t = treeLevels (map leafHash ?padded)" by (simp add: lv treeLeaves_padded)
  have tree: "paddedTree domain leaves = ?padded" by (simp add: paddedTree_def size nat_power_eq)
  have depth: "length (levels t) = Suc k"
    using treeLevels_shape(1) [of "map leafHash ?padded" k] len by (simp add: lv')
  have root: "Root t = treeLevels (map leafHash ?padded) ! k ! 0"
    using treeLevels_shape(1) [of "map leafHash ?padded" k] len by (simp add: Root_def lv')
  from v have ok: "int i < n" "climb (leafHash d) (int i) path = Root t"
    and np: "\<exists>p. nextPowerOfTwo n = Some p \<and> length path = treeDepth p" by (auto simp: Verify_true)
  then have "n \<le> 2 ^ 62" using nextPowerOfTwo_diverges [of n] by (metis not_le option.distinct(1))
  then have "n \<le> 2 ^ length path"
    using np by (elim nextPowerOfTwo_least) (auto simp: treeDepth_power)
  with ok(1) have "int i < 2 ^ length path" by (rule less_le_trans)
  then have i: "i < 2 ^ length path"
    using of_nat_less_iff [of i "2 ^ length path", where ?'a = int] by simp
  have "length path = k \<and> i < 2 ^ k \<and> d = ?padded ! i"
    if "\<not> sha256Collision (crossCollision (verifierInputs d (int i) path) (builderInputs ?padded))"
  proof -
    from that have nc: "\<And>x y. x \<in> set (verifierInputs d (int i) path) \<Longrightarrow>
        y \<in> set (builderInputs ?padded) \<Longrightarrow> sha256 x = sha256 y \<Longrightarrow> x = y"
      unfolding no_crossCollision by blast
    have "length path \<le> k \<and> leafHash d = treeLevels (map leafHash ?padded) ! (k - length path) ! i"
      by (rule climb_retraces [OF len _ _ i]) (use nc ok(2) root in \<open>auto simp: verifierInputs_def\<close>)
    then have le: "length path \<le> k"
      and h: "sha256 (0x00 # d) = hashBytes (treeLevels (map leafHash ?padded) ! (k - length path) ! i)"
      by (simp_all flip: hashBytes_leafHash)
    have din: "0x00 # d \<in> set (verifierInputs d (int i) path)" by (simp add: verifierInputs_def)
    show ?thesis
    proof (cases "length path = k")
      case True
      then have "sha256 (0x00 # d) = sha256 (0x00 # ?padded ! i)"
        using h i len treeLevels_shape(2) [of "map leafHash ?padded" k] by simp
      moreover have "0x00 # ?padded ! i \<in> set (builderInputs ?padded)"
        using i len True by (simp add: builderInputs_def)
      ultimately have "0x00 # d = 0x00 # ?padded ! i" by (intro nc [OF din])
      then show ?thesis using True i by simp
    next
      case False
      define l where "l = k - Suc (length path)"
      have "l < k" "Suc l = k - length path" "i < 2 ^ (k - Suc l)"
        using False le i by (auto simp: l_def)
      from node_of_builder [OF len this(1,3)] this(2) h have
        "0x01 # hashBytes (treeLevels (map leafHash ?padded) ! l ! (2 * i)) @
           hashBytes (treeLevels (map leafHash ?padded) ! l ! (2 * i + 1)) = 0x00 # d"
        by (intro nc [OF din, symmetric]) auto
      then show ?thesis by simp
    qed
  qed
  then show ?thesis using that tree depth by auto
qed

lemma VerifyInclusionProof_NoReturn:
  "VerifyInclusionProof d i n path root = Inl NoReturn \<longleftrightarrow> 0 \<le> i \<and> i < n \<and> 2 ^ 62 < n"
proof (cases "2 ^ 62 < n")
  case True
  then show ?thesis by (auto simp: VerifyInclusionProof_def nextPowerOfTwo_diverges)
next
  case False
  then have "n \<le> 2 ^ 62" by simp
  then obtain k where "nextPowerOfTwo n = Some (2 ^ k)" by (rule nextPowerOfTwo_least)
  with False show ?thesis by (simp add: VerifyInclusionProof_def)
qed

section \<open>The interface the clients use\<close>

text \<open>
  A commitment to a list with openings at positions: an honest opening is accepted, and two
  accepted openings of one position agree unless the commitment is \<open>broken\<close> by them.
\<close>

locale vector_commitment =
  fixes commit :: "'d list \<Rightarrow> fault + 'c"
    and open_at :: "'d list \<Rightarrow> int \<Rightarrow> fault + 'p"
    and accepts :: "'d \<Rightarrow> int \<Rightarrow> int \<Rightarrow> 'p \<Rightarrow> 'c \<Rightarrow> bool"
    and broken :: "'d \<Rightarrow> 'p \<Rightarrow> 'd \<Rightarrow> 'p \<Rightarrow> int \<Rightarrow> bool"
  assumes opening_accepted: "commit ds = Inr c \<Longrightarrow> j < length ds \<Longrightarrow>
      \<exists>p. open_at ds (int j) = Inr p \<and> accepts (ds ! j) (int j) (int (length ds)) p c"
    and accepted_bind: "accepts d i n p c \<Longrightarrow> accepts d' i n p' c \<Longrightarrow>
      d = d' \<and> p = p' \<or> broken d p d' p' i"
    and accepted_range: "accepts d i n p c \<Longrightarrow> 0 \<le> i \<and> i < n"
begin

lemma only_committed:
  assumes c: "commit ds = Inr c" and acc: "accepts d i (int (length ds)) p c"
  shows "\<exists>q. open_at ds i = Inr q \<and>
    (d = ds ! nat i \<and> p = q \<or> broken d p (ds ! nat i) q i)"
proof -
  from acc have i: "0 \<le> i" "nat i < length ds" using accepted_range by fastforce+
  obtain q where "open_at ds i = Inr q" "accepts (ds ! nat i) i (int (length ds)) q c"
    using opening_accepted [OF c i(2)] i(1) by auto
  with accepted_bind [OF acc] show ?thesis by blast
qed

text \<open>The same for records encoded injectively as committed values.\<close>

lemma encoded_bind:
  assumes "\<And>y. enc x = enc y \<Longrightarrow> x = y"
    and "accepts (enc x) i n p c" and "accepts (enc y) i n p' c"
  shows "x = y \<or> broken (enc x) p (enc y) p' i"
  using accepted_bind [OF assms(2,3)] assms(1) by blast

end

definition commitTree :: "gostring \<Rightarrow> bytes list \<Rightarrow> fault + Hash" where
  "commitTree domain leaves = tryE (BuildTree domain leaves) (\<lambda>t. Inr (Root t))"

definition openTree :: "gostring \<Rightarrow> bytes list \<Rightarrow> int \<Rightarrow> fault + Hash list" where
  "openTree domain leaves i = tryE (BuildTree domain leaves) (\<lambda>t. InclusionProof t i)"

definition acceptsPath :: "bytes \<Rightarrow> int \<Rightarrow> int \<Rightarrow> Hash list \<Rightarrow> Hash \<Rightarrow> bool" where
  "acceptsPath d i n path root \<longleftrightarrow> VerifyInclusionProof d i n path root = Inr True"

definition brokenBy :: "bytes \<Rightarrow> Hash list \<Rightarrow> bytes \<Rightarrow> Hash list \<Rightarrow> int \<Rightarrow> bool" where
  "brokenBy d p d' p' i \<longleftrightarrow> sha256Collision (merkleCollision d p d' p' i)"

text \<open>A proof yields a collision with the construction of the tree of \<open>leaves\<close>.\<close>

definition brokenTree :: "gostring \<Rightarrow> bytes \<Rightarrow> int \<Rightarrow> Hash list \<Rightarrow> bytes list \<Rightarrow> bool" where
  "brokenTree domain d i path leaves \<longleftrightarrow> sha256Collision
     (crossCollision (verifierInputs d i path) (builderInputs (paddedTree domain leaves)))"

interpretation mtree: vector_commitment "commitTree domain" "openTree domain" acceptsPath brokenBy
  for domain
proof unfold_locales
  fix ds :: "bytes list" and c and i :: nat
  assume "commitTree domain ds = Inr c" and i: "i < length ds"
  then obtain t where "BuildTree domain ds = Inr t" "c = Root t"
    by (auto simp: commitTree_def tryE_Inr)
  with proof_verifies [OF this(1) i]
  show "\<exists>p. openTree domain ds (int i) = Inr p \<and>
          acceptsPath (ds ! i) (int i) (int (length ds)) p c"
    by (simp add: openTree_def acceptsPath_def)
next
  fix d i n p c d' p'
  assume "acceptsPath d i n p c" and "acceptsPath d' i n p' c"
  then show "d = d' \<and> p = p' \<or> brokenBy d p d' p' i"
    unfolding acceptsPath_def brokenBy_def by (rule proofs_bind)
qed (simp_all add: acceptsPath_def Verify_true)

section \<open>Properties\<close>

text \<open>
  A tree over at most \<open>2 ^ 62\<close> leaves can be built, and for every leaf index
  \<open>InclusionProof\<close> returns an audit path that \<open>VerifyInclusionProof\<close> accepts for that leaf
  under the tree's root (merkle.go, BuildTree, InclusionProof, VerifyInclusionProof).
\<close>

theorem merkle_complete:
  assumes "length leaves \<le> 2 ^ 62"
  shows "\<exists>t. BuildTree domain leaves = Inr t \<and>
    (\<forall>i < length leaves. \<exists>path. InclusionProof t (int i) = Inr path \<and>
       VerifyInclusionProof (leaves ! i) (int i) (int (length leaves)) path (Root t) = Inr True)"
  using BuildTree_total [OF assms] proof_verifies by blast

lemma merkle_complete_witness:
  "\<exists>t path. BuildTree (ascii ''translog'') [[1], [2], [3]] = Inr t \<and>
     InclusionProof t 2 = Inr path \<and> VerifyInclusionProof [3] 2 3 path (Root t) = Inr True"
proof -
  obtain t where t: "BuildTree (ascii ''translog'') [[1], [2], [3]] = Inr t"
    "\<forall>i < 3. \<exists>path. InclusionProof t (int i) = Inr path \<and>
       VerifyInclusionProof ([[1], [2], [3]] ! i) (int i) 3 path (Root t) = Inr True"
    using merkle_complete [of "[[1], [2], [3]]" "ascii ''translog''"] by auto
  from t(2) [rule_format, of 2] t(1) show ?thesis by auto
qed

text \<open>
  Position binding. When two leaves verify at the same index and size under one root,
  they and their audit paths are equal, or following the two paths upwards
  (\<open>merkleCollision\<close>) yields two different inputs with the same SHA-256 hash.
\<close>

theorem merkle_binding:
  assumes "VerifyInclusionProof d i n path root = Inr True"
    and "VerifyInclusionProof d' i n path' root = Inr True"
  shows "d = d' \<and> path = path' \<or>
    (\<exists>x y. merkleCollision d path d' path' i = Some (x, y) \<and> x \<noteq> y \<and> sha256 x = sha256 y)"
  using proofs_bind [OF assms] by (auto simp: sha256Collision_def split: option.splits)

lemma merkle_binding_witness:
  "\<exists>path root. VerifyInclusionProof [7] 0 1 path root = Inr True \<and>
     ([7 :: byte] = [7] \<and> path = path \<or>
      (\<exists>x y. merkleCollision [7] path [7] path 0 = Some (x, y) \<and> x \<noteq> y \<and> sha256 x = sha256 y))"
proof -
  have v: "VerifyInclusionProof [7] 0 1 [] (leafHash [7]) = Inr True"
    by (simp add: VerifyInclusionProof_def nextPowerOfTwo_def doubleUntil.simps treeDepth.simps)
  from merkle_binding [OF v v] v show ?thesis by blast
qed

text \<open>
  Against the root of a tree built from a list of leaves, \<open>VerifyInclusionProof\<close> accepts
  at index \<open>i\<close> only the \<open>i\<close>th leaf with the path \<open>InclusionProof\<close> gives, or exhibits a SHA-256
  collision with it.
\<close>

theorem merkle_sound:
  assumes "BuildTree domain leaves = Inr t"
    and "VerifyInclusionProof d i (int (length leaves)) path (Root t) = Inr True"
  shows "\<exists>q. InclusionProof t i = Inr q \<and> (d = leaves ! nat i \<and> path = q \<or>
    (\<exists>x y. merkleCollision d path (leaves ! nat i) q i = Some (x, y) \<and> x \<noteq> y \<and>
       sha256 x = sha256 y))"
proof -
  have "commitTree domain leaves = Inr (Root t)" by (simp add: commitTree_def assms(1))
  moreover have "acceptsPath d i (int (length leaves)) path (Root t)"
    using assms(2) by (simp add: acceptsPath_def)
  ultimately have "\<exists>q. openTree domain leaves i = Inr q \<and>
      (d = leaves ! nat i \<and> path = q \<or> brokenBy d path (leaves ! nat i) q i)"
    by (rule mtree.only_committed)
  then show ?thesis
    by (auto simp: openTree_def assms(1) brokenBy_def sha256Collision_def split: option.splits)
qed

lemma merkle_sound_witness:
  "\<exists>t path q. BuildTree [] [[1], [2]] = Inr t \<and>
     VerifyInclusionProof [2] 1 2 path (Root t) = Inr True \<and> InclusionProof t 1 = Inr q \<and>
     ([2 :: byte] = [[1], [2]] ! nat 1 \<and> path = q \<or>
      (\<exists>x y. merkleCollision [2] path ([[1], [2]] ! nat 1) q 1 = Some (x, y) \<and> x \<noteq> y \<and>
         sha256 x = sha256 y))"
proof -
  obtain t where t: "BuildTree [] [[1], [2]] = Inr t"
    using BuildTree_total [of "[[1], [2]]" "[]"] by auto
  obtain path where v: "VerifyInclusionProof [2] 1 (int (length [[1], [2 :: byte]])) path (Root t) = Inr True"
    using proof_verifies [OF t, of 1] by auto
  from merkle_sound [OF t v] t v show ?thesis by auto
qed

text \<open>
  C28: the root is unambiguous for every claimed size. If \<open>VerifyInclusionProof\<close> accepts any
  data at index \<open>i\<close> with any size against the root of a built tree, then the path is one hash
  shorter than the tree has levels and the data is the tree's leaf at \<open>i\<close>, real or padding; or one of
  the verifier's hash inputs collides with one of those \<open>BuildTree\<close> hashed for this very tree, whose
  levels are computed from \<open>paddedTree\<close>, the leaves padded to \<open>nextPowerOfTwo\<close>.
\<close>

theorem merkle_sound_any_size:
  assumes "BuildTree domain leaves = Inr t"
    and "VerifyInclusionProof d (int i) n path (Root t) = Inr True"
  shows "levels t = treeLevels (map leafHash (paddedTree domain leaves)) \<and>
    (Suc (length path) = length (levels t) \<and> i < 2 ^ length path \<and>
       d = (if i < length leaves then leaves ! i else paddingLeaf domain i) \<or>
     (\<exists>x y. crossCollision (verifierInputs d (int i) path) (builderInputs (paddedTree domain leaves)) =
        Some (x, y) \<and> x \<noteq> y \<and> sha256 x = sha256 y))"
proof -
  obtain k where "length (levels t) = Suc k"
    and "length path = k \<and> i < 2 ^ k \<and> d = paddedLeaves domain leaves (2 ^ k) ! i \<or>
      sha256Collision (crossCollision (verifierInputs d (int i) path)
        (builderInputs (paddedTree domain leaves)))"
    using proof_any_size [OF assms] by metis
  then show ?thesis
    using paddedTree_levels [OF assms(1)] by (auto simp: sha256Collision_iff paddedLeaves_def)
qed

lemma merkle_sound_any_size_witness:
  "\<exists>t path. BuildTree [] [[1], [2]] = Inr t \<and> VerifyInclusionProof [2] (int 1) 2 path (Root t) = Inr True \<and>
    (Suc (length path) = length (levels t) \<and> 1 < (2 :: nat) ^ length path \<and> [2] = [[1], [2 :: byte]] ! 1 \<or>
     (\<exists>x y. crossCollision (verifierInputs [2] 1 path) (builderInputs (paddedTree [] [[1], [2]])) =
        Some (x, y) \<and> x \<noteq> y \<and> sha256 x = sha256 y))"
proof -
  obtain t where t: "BuildTree [] [[1], [2]] = Inr t"
    using BuildTree_total [of "[[1], [2]]" "[]"] by auto
  obtain path where v: "VerifyInclusionProof [2] (int 1) 2 path (Root t) = Inr True"
    using proof_verifies [OF t, of 1] by auto
  from merkle_sound_any_size [OF t v] t v show ?thesis by auto
qed

text \<open>
  \<open>VerifyInclusionProof\<close> fails to return exactly when the index is in range and the
  claimed size exceeds \<open>2 ^ 62\<close>: the doubling loop of \<open>nextPowerOfTwo\<close> then overflows to 0
  and spins forever. The size is an unauthenticated field of a prekey bundle.
\<close>

theorem verify_hangs_iff:
  "VerifyInclusionProof d i n path root = Inl NoReturn \<longleftrightarrow> 0 \<le> i \<and> i < n \<and> 2 ^ 62 < n"
  by (rule VerifyInclusionProof_NoReturn)

text \<open>
  On a built tree \<open>InclusionProof\<close> never panics on an out-of-range level access: it
  returns the index error exactly for indices outside the real leaves, and otherwise a path
  whose length is the base-two logarithm of the padded size, rounded up.
\<close>

theorem inclusion_proof_cases:
  assumes "BuildTree domain leaves = Inr t"
  shows "if 0 \<le> i \<and> i < int (length leaves)
    then \<exists>path k. InclusionProof t i = Inr path \<and> length path = k \<and> length leaves \<le> 2 ^ k \<and>
           k = (LEAST j. length leaves \<le> 2 ^ j)
    else InclusionProof t i = Inl (GoError MerkleErrIndexOutOfRange)"
proof (cases "0 \<le> i \<and> i < int (length leaves)")
  case True
  then have i: "i = int (nat i)" "nat i < length leaves" by auto
  have "\<not> 2 ^ 62 < max (int (length leaves)) 1"
    using assms nextPowerOfTwo_diverges by (force simp: BuildTree_def split: option.splits)
  moreover have mx: "max (int (length leaves)) 1 = int (length leaves)" using i by simp
  ultimately have small: "int (length leaves) \<le> 2 ^ 62" by simp
  obtain k where k: "nextPowerOfTwo (int (length leaves)) = Some (2 ^ k)"
    "int (length leaves) \<le> 2 ^ k" "\<And>j. int (length leaves) \<le> 2 ^ j \<Longrightarrow> k \<le> j"
    using nextPowerOfTwo_least [OF small] by metis
  have nat_le: "length leaves \<le> 2 ^ j \<longleftrightarrow> int (length leaves) \<le> 2 ^ j" for j
    using of_nat_le_iff [of "length leaves" "2 ^ j", where ?'a = int] by simp
  obtain path where path: "InclusionProof t i = Inr path"
    "VerifyInclusionProof (leaves ! nat i) i (int (length leaves)) path (Root t) = Inr True"
    using proof_verifies [OF assms i(2)] i(1) by auto
  then have "length path = k" using k(1) by (auto simp: Verify_true treeDepth_power)
  moreover have "length leaves \<le> 2 ^ k" using nat_le k(2) by blast
  moreover have "k \<le> j" if "length leaves \<le> 2 ^ j" for j using that nat_le k(3) by blast
  ultimately have "k = (LEAST j. length leaves \<le> 2 ^ j)"
    by (intro Least_equality [symmetric])
  with \<open>length path = k\<close> \<open>length leaves \<le> 2 ^ k\<close> True path(1) show ?thesis by auto
next
  case False
  with assms show ?thesis by (auto simp: InclusionProof_def elim: BuildTree_Inr)
qed

lemma inclusion_proof_cases_witness:
  "\<exists>t. BuildTree [] [[1], [2], [3]] = Inr t \<and>
     InclusionProof t 3 = Inl (GoError MerkleErrIndexOutOfRange)"
proof -
  obtain t where t: "BuildTree [] [[1], [2], [3]] = Inr t"
    using BuildTree_total [of "[[1], [2], [3]]" "[]"] by auto
  from inclusion_proof_cases [OF t, of 3] t show ?thesis by simp
qed

end
