(* ===== verification/Prekey.thy ===== *)
theory Prekey
  imports Identity KemHybrid Merkle
begin

text \<open>
  \<open>crypto/prekey/prekey.go\<close>: batches of one-time hybrid KEM prekeys whose Merkle root the
  identity signs once, the bundles handed out from a batch, their verification, and the signed
  last-resort prekey. It is a client of \<open>Identity\<close>'s \<open>signature_scheme\<close>, \<open>KemHybrid\<close>'s
  \<open>key_encapsulation\<close> and \<open>Merkle\<close>'s \<open>vector_commitment\<close>.
\<close>

section \<open>Batches\<close>

definition prekey_merkleDomain :: gostring where
  "prekey_merkleDomain = ascii ''prekey-batch''"

definition lastResortDomainTag :: gostring where
  "lastResortDomainTag = ascii ''pqchat-v1-last-resort-prekey''"

text \<open>The index is written as \<open>uint32(index)\<close>.\<close>

definition prekey_leafData :: "bytes \<Rightarrow> int \<Rightarrow> bytes" where
  "prekey_leafData pubBytes index = pubBytes @ be32 (word_of_int index)"

record Batch =
  batchPrivates :: "KemPrivateKey list"
  batchPubBytes :: "bytes list"
  batchTree :: Tree
  batchRoot :: Hash
  batchRootSig :: Signature

text \<open>The loop of \<open>GenerateBatch\<close> from slot \<open>i\<close>, \<open>n\<close> slots to go.\<close>

fun generateSlots ::
  "primitives \<Rightarrow> nat \<Rightarrow> nat \<Rightarrow> (world, (KemPrivateKey \<times> bytes \<times> bytes) list) action" where
  "generateSlots P i 0 = ret []"
| "generateSlots P i (Suc n) =
     tryS (kem_GenerateKeyPair P None) (\<lambda>priv.
     tryS (pureS (kem_MarshalPublicKey (kem_Public P priv))) (\<lambda>pb.
     tryS (generateSlots P (Suc i) n) (\<lambda>rest.
     ret ((priv, pb, prekey_leafData pb (int i)) # rest))))"

definition GenerateBatch :: "primitives \<Rightarrow> KeyPair \<Rightarrow> int \<Rightarrow> (world, Batch) action" where
  "GenerateBatch P ident sz =
     (if sz \<le> 0 then fail (GoError ErrBatchSizeNotPositive)
      else
       tryS (generateSlots P 0 (nat sz)) (\<lambda>slots.
       tryS (pureS (BuildTree prekey_merkleDomain (map (\<lambda>(_, _, leaf). leaf) slots))) (\<lambda>tree.
       let root = Root tree in
       tryS (identity_Sign P ident (hashBytes root)) (\<lambda>sig.
       ret \<lparr>batchPrivates = map (\<lambda>(priv, _, _). priv) slots,
            batchPubBytes = map (\<lambda>(_, pb, _). pb) slots,
            batchTree = tree, batchRoot = root, batchRootSig = sig\<rparr>))))"

definition batch_Size :: "Batch \<Rightarrow> int" where
  "batch_Size b = int (length (batchPrivates b))"

definition batch_PrivateKey :: "Batch \<Rightarrow> int \<Rightarrow> fault + KemPrivateKey" where
  "batch_PrivateKey b index =
     (if index < 0 \<or> index \<ge> int (length (batchPrivates b))
      then Inl (GoError PrekeyErrIndexOutOfRange)
      else sliceAt (batchPrivates b) index)"

section \<open>Bundles\<close>

record Bundle =
  bundlePublicKey :: bytes
  bundleIndex :: int
  bundleBatchSize :: int
  bundleProof :: "Hash list"
  bundleRoot :: Hash
  bundleRootSignature :: Signature

definition batch_Bundle :: "Batch \<Rightarrow> int \<Rightarrow> fault + Bundle" where
  "batch_Bundle b index =
     (if index < 0 \<or> index \<ge> int (length (batchPrivates b))
      then Inl (GoError PrekeyErrIndexOutOfRange)
      else
       tryE (InclusionProof (batchTree b) index) (\<lambda>proof.
       tryE (sliceAt (batchPubBytes b) index) (\<lambda>pb.
       Inr \<lparr>bundlePublicKey = pb, bundleIndex = index,
            bundleBatchSize = int (length (batchPrivates b)), bundleProof = proof,
            bundleRoot = batchRoot b, bundleRootSignature = batchRootSig b\<rparr>)))"

definition VerifyBundle :: "primitives \<Rightarrow> IdPublicKey \<Rightarrow> Bundle \<Rightarrow> fault + unit" where
  "VerifyBundle P issuerPub bundle =
     tryE (identity_Verify P issuerPub (hashBytes (bundleRoot bundle)) (bundleRootSignature bundle)) (\<lambda>_.
     tryE (VerifyInclusionProof (prekey_leafData (bundlePublicKey bundle) (bundleIndex bundle))
             (bundleIndex bundle) (bundleBatchSize bundle) (bundleProof bundle) (bundleRoot bundle)) (\<lambda>ok.
     if \<not> ok then Inl (GoError PrekeyErrInvalidInclusionProof) else Inr ()))"

section \<open>The last-resort prekey\<close>

record LastResort =
  lrPublicKey :: bytes
  lrSignature :: Signature

definition GenerateLastResort ::
  "primitives \<Rightarrow> KeyPair \<Rightarrow> (world, KemPrivateKey \<times> LastResort) action" where
  "GenerateLastResort P ident =
     tryS (kem_GenerateKeyPair P None) (\<lambda>priv.
     tryS (pureS (kem_MarshalPublicKey (kem_Public P priv))) (\<lambda>pubBytes.
     tryS (identity_Sign P ident (lastResortDomainTag @ pubBytes)) (\<lambda>sig.
     ret (priv, \<lparr>lrPublicKey = pubBytes, lrSignature = sig\<rparr>))))"

definition VerifyLastResort :: "primitives \<Rightarrow> IdPublicKey \<Rightarrow> LastResort \<Rightarrow> fault + unit" where
  "VerifyLastResort P issuerPub lr =
     identity_Verify P issuerPub (lastResortDomainTag @ lrPublicKey lr) (lrSignature lr)"

section \<open>Lemmas\<close>

text \<open>What a run of the generation loop leaves behind.\<close>

definition slotsFrom :: "primitives \<Rightarrow> nat \<Rightarrow> (KemPrivateKey \<times> bytes \<times> bytes) list \<Rightarrow> bool" where
  "slotsFrom P i slots \<longleftrightarrow> (\<forall>j priv pb leaf. j < length slots \<longrightarrow> slots ! j = (priv, pb, leaf) \<longrightarrow>
     genuineKem P priv \<and> kem_MarshalPublicKey (kem_Public P priv) = Inr pb \<and>
     leaf = prekey_leafData pb (int (i + j)))"

lemma generateSlots_slots:
  assumes "mlkem_laws P"
  shows "generateSlots P i n w = (Inr slots, w') \<Longrightarrow> length slots = n \<and> slotsFrom P i slots"
proof (induction n arbitrary: i w slots)
  case 0
  then show ?case by (simp add: slotsFrom_def)
next
  case (Suc n)
  then obtain priv w1 pb rest w2 where
    g: "kem_GenerateKeyPair P None w = (Inr priv, w1)" and
    pb: "kem_MarshalPublicKey (kem_Public P priv) = Inr pb" and
    rest: "generateSlots P (Suc i) n w1 = (Inr rest, w')" and
    slots: "slots = (priv, pb, prekey_leafData pb (int i)) # rest"
    by (auto simp: tryS_Inr)
  have "length rest = n" and r: "slotsFrom P (Suc i) rest" using Suc.IH [OF rest] by auto
  moreover have "slotsFrom P i slots"
    unfolding slotsFrom_def
  proof (intro allI impI)
    fix j priv' pb' leaf
    assume "j < length slots" and "slots ! j = (priv', pb', leaf)"
    then show "genuineKem P priv' \<and> kem_MarshalPublicKey (kem_Public P priv') = Inr pb' \<and>
        leaf = prekey_leafData pb' (int (i + j))"
      using r GenerateKeyPair_genuine [OF assms g] pb
      by (cases j) (auto simp: slots slotsFrom_def)
  qed
  ultimately show ?case by (simp add: slots)
qed

text \<open>
  A well-formed batch: genuine keys, their encodings, the tree over the leaves and a signature
  of its root that verifies under the issuer.
\<close>

definition batchLeaves :: "Batch \<Rightarrow> bytes list" where
  "batchLeaves b = map (\<lambda>i. prekey_leafData (batchPubBytes b ! i) (int i)) [0..<length (batchPubBytes b)]"

definition batchInv :: "primitives \<Rightarrow> IdPublicKey \<Rightarrow> Batch \<Rightarrow> bool" where
  "batchInv P issuer b \<longleftrightarrow>
     length (batchPubBytes b) = length (batchPrivates b) \<and>
     (\<forall>i < length (batchPrivates b). genuineKem P (batchPrivates b ! i) \<and>
        kem_MarshalPublicKey (kem_Public P (batchPrivates b ! i)) = Inr (batchPubBytes b ! i)) \<and>
     BuildTree prekey_merkleDomain (batchLeaves b) = Inr (batchTree b) \<and>
     batchRoot b = Root (batchTree b) \<and>
     identity_Verify P issuer (hashBytes (batchRoot b)) (batchRootSig b) = Inr ()"

lemma GenerateBatch_inv:
  assumes laws: "mlkem_laws P" "signature_laws P" and ident: "genuineKeyPair P ident"
    and run: "GenerateBatch P ident sz w = (Inr b, w')"
  shows "batchInv P (identity_Public ident) b" and "batch_Size b = sz" and "0 < sz"
proof -
  obtain slots w1 tree where
    slots: "generateSlots P 0 (nat sz) w = (Inr slots, w1)" and sz: "0 < sz" and
    tree: "BuildTree prekey_merkleDomain (map (\<lambda>(_, _, leaf). leaf) slots) = Inr tree" and
    sig: "identity_Sign P ident (hashBytes (Root tree)) w1 = (Inr (batchRootSig b), w')" and
    b: "batchPrivates b = map (\<lambda>(priv, _, _). priv) slots"
       "batchPubBytes b = map (\<lambda>(_, pb, _). pb) slots" "batchTree b = tree" "batchRoot b = Root tree"
    using run by (auto simp: GenerateBatch_def tryS_Inr Let_def split: if_splits)
  have len: "length slots = nat sz" and sl: "slotsFrom P 0 slots"
    using generateSlots_slots [OF laws(1) slots] by auto
  have slot: "slots ! i = (batchPrivates b ! i, batchPubBytes b ! i, prekey_leafData (batchPubBytes b ! i) (int i))
      \<and> genuineKem P (batchPrivates b ! i)
      \<and> kem_MarshalPublicKey (kem_Public P (batchPrivates b ! i)) = Inr (batchPubBytes b ! i)"
    if "i < length slots" for i
    using sl that by (cases "slots ! i") (auto simp: b slotsFrom_def)
  have "map (\<lambda>(_, _, leaf). leaf) slots = batchLeaves b"
    by (rule nth_equalityI) (auto simp: batchLeaves_def b(2) dest!: slot)
  then show "batchInv P (identity_Public ident) b"
    using slot tree id_sig.sign_verifies [OF laws(2) ident sig]
    by (simp add: batchInv_def b)
  show "batch_Size b = sz" using len sz by (simp add: batch_Size_def b)
  show "0 < sz" by (rule sz)
qed

lemma VerifyBundle_Inr:
  "VerifyBundle P issuer bundle = Inr u \<longleftrightarrow>
     identity_Verify P issuer (hashBytes (bundleRoot bundle)) (bundleRootSignature bundle) = Inr () \<and>
     VerifyInclusionProof (prekey_leafData (bundlePublicKey bundle) (bundleIndex bundle))
       (bundleIndex bundle) (bundleBatchSize bundle) (bundleProof bundle) (bundleRoot bundle) = Inr True"
  by (auto simp: VerifyBundle_def tryE_Inr split: if_splits)

lemma batch_Bundle_verifies:
  assumes inv: "batchInv P issuer b" and i: "0 \<le> i" "i < batch_Size b"
  shows "\<exists>bundle. batch_Bundle b i = Inr bundle \<and> VerifyBundle P issuer bundle = Inr () \<and>
    bundlePublicKey bundle = batchPubBytes b ! nat i \<and> bundleIndex bundle = i \<and>
    bundleRoot bundle = batchRoot b \<and> bundleBatchSize bundle = batch_Size b"
proof -
  have n: "nat i < length (batchPubBytes b)" "length (batchLeaves b) = length (batchPrivates b)"
    using inv i by (auto simp: batchInv_def batch_Size_def batchLeaves_def)
  have tree: "BuildTree prekey_merkleDomain (batchLeaves b) = Inr (batchTree b)"
    using inv by (simp add: batchInv_def)
  have leaf: "batchLeaves b ! nat i = prekey_leafData (batchPubBytes b ! nat i) i"
    using n i by (simp add: batchLeaves_def)
  obtain path where "InclusionProof (batchTree b) i = Inr path"
    "VerifyInclusionProof (batchLeaves b ! nat i) i (batch_Size b) path (batchRoot b) = Inr True"
    using proof_verifies [OF tree, of "nat i"] inv i n by (auto simp: batchInv_def batch_Size_def)
  then show ?thesis
    using inv i n by (auto simp: batch_Bundle_def VerifyBundle_Inr leaf batchInv_def batch_Size_def
        sliceAt_def)
qed

lemma prekey_leafData_inj:
  assumes "prekey_leafData pb i = prekey_leafData pb' i'"
  shows "pb = pb' \<and> word_of_int i = (word_of_int i' :: u32)"
  using assms by (simp add: prekey_leafData_def)

text \<open>
  Padding leaves hold no zero byte; the leaf of a slot below \<open>2 ^ 24\<close> does.
\<close>

lemma zero_notin_decimal: "0 \<notin> set (decimal n)"
proof (induction n rule: decimal.induct)
  case (1 n)
  have digit: "of_nat (48 + m) \<noteq> (0 :: byte)" if "m < 10" for m :: nat
    using that word_of_nat_eq_0_iff [of "48 + m", where 'a = 8] by (auto dest: dvd_imp_le)
  have "0 \<notin> set (decimal (n div 10))" if "\<not> n < 10" using "1.IH" that by simp
  then show ?case using digit [of n] digit [of "n mod 10"] by (subst decimal.simps) auto
qed

lemma zero_notin_padding: "0 \<notin> set (paddingLeaf prekey_merkleDomain i)"
  unfolding paddingLeaf_def by (simp add: zero_notin_decimal ascii_def prekey_merkleDomain_def)

lemma zero_in_be32: "i < 2 ^ 24 \<Longrightarrow> 0 \<in> set (be32 (word_of_int (int i)))"
proof -
  assume "i < 2 ^ 24"
  then have "unat (drop_bit 24 (word_of_nat i :: u32)) = 0"
    by (simp only: unat_drop_bit_eq) (simp add: unsigned_of_nat take_bit_eq_mod drop_bit_eq_div)
  then have "drop_bit 24 (word_of_nat i :: u32) = 0" by (simp add: unat_eq_zero)
  then show ?thesis by (simp add: be32_def)
qed

lemma padding_no_leaf: "i < 2 ^ 24 \<Longrightarrow> paddingLeaf prekey_merkleDomain i \<noteq> prekey_leafData pb (int i)"
  using zero_notin_padding [of i] zero_in_be32 [of i] by (auto simp: prekey_leafData_def)

text \<open>Generation needs 96 bytes of entropy for each slot and 32 for the signature.\<close>

lemma GenerateKeyPair_succeeds:
  "96 \<le> length (rng w) \<Longrightarrow> \<exists>priv. kem_GenerateKeyPair P None w = (Inr priv, w\<lparr>rng := drop 96 (rng w)\<rparr>)"
  by (cases "mlkem_keygen P (take 64 (drop 32 (rng w)))")
    (simp add: kem_GenerateKeyPair_def ecdh_GenerateKey_def mlkem_GenerateKeyPair_def tryS_step
      readFrom_sys)

lemma generateSlots_succeeds:
  "96 * n \<le> length (rng w) \<Longrightarrow>
     \<exists>slots. generateSlots P i n w = (Inr slots, w\<lparr>rng := drop (96 * n) (rng w)\<rparr>)"
proof (induction n arbitrary: i w)
  case (Suc n)
  obtain priv where g: "kem_GenerateKeyPair P None w = (Inr priv, w\<lparr>rng := drop 96 (rng w)\<rparr>)"
    using GenerateKeyPair_succeeds [of w P] Suc.prems by auto
  obtain rest where "generateSlots P (Suc i) n (w\<lparr>rng := drop 96 (rng w)\<rparr>) =
      (Inr rest, w\<lparr>rng := drop (96 * Suc n) (rng w)\<rparr>)"
    using Suc.IH [of "w\<lparr>rng := drop 96 (rng w)\<rparr>" "Suc i"] Suc.prems
    by (auto simp: add.commute le_diff_conv2)
  then show ?case by (simp add: tryS_step g kem_MarshalPublicKey_def)
qed (simp add: ret_def)

lemma GenerateBatch_succeeds:
  assumes laws: "mlkem_laws P" "signature_laws P" and ident: "genuineKeyPair P ident"
    and sz: "0 < sz" "sz \<le> 2 ^ 62" and rng: "96 * nat sz + 32 \<le> length (rng w)"
  shows "\<exists>b. GenerateBatch P ident sz w = (Inr b, w\<lparr>rng := drop (96 * nat sz + 32) (rng w)\<rparr>)"
proof -
  obtain slots where slots:
    "generateSlots P 0 (nat sz) w = (Inr slots, w\<lparr>rng := drop (96 * nat sz) (rng w)\<rparr>)"
    using generateSlots_succeeds [of "nat sz" w P 0] rng by auto
  have "length slots = nat sz" using generateSlots_slots [OF laws(1) slots] by blast
  then have "length (map (\<lambda>(_, _, leaf). leaf) slots) \<le> 2 ^ 62" using sz by simp
  then obtain tree where tree: "BuildTree prekey_merkleDomain (map (\<lambda>(_, _, leaf). leaf) slots) = Inr tree"
    using BuildTree_total by blast
  obtain sig where "identity_Sign P ident (hashBytes (Root tree)) (w\<lparr>rng := drop (96 * nat sz) (rng w)\<rparr>) =
      (Inr sig, w\<lparr>rng := drop (96 * nat sz + 32) (rng w)\<rparr>)"
    using id_sig.sign_succeeds [OF laws(2) ident, of "w\<lparr>rng := drop (96 * nat sz) (rng w)\<rparr>"] rng
    by (auto simp: add.commute le_diff_conv2)
  then show ?thesis using sz by (simp add: GenerateBatch_def tryS_step slots tree Let_def)
qed

lemma demo_batch:
  assumes "genuineKeyPair demoPrimitives ident"
  shows "\<exists>b w'. GenerateBatch demoPrimitives ident 2 (demoWorld 224) = (Inr b, w')"
  using GenerateBatch_succeeds [OF _ demo_signature_laws assms, of 2 "demoWorld 224"] demo_kem_laws
  by (auto simp: kem_laws_def)

section \<open>Properties\<close>

text \<open>
  \<open>GenerateBatch\<close> with \<open>0 < size \<le> 2 ^ 62\<close> and enough entropy returns a batch of that
  size. For every index of it \<open>Bundle\<close> returns a bundle that \<open>VerifyBundle\<close> accepts under the
  issuer's public key and that carries the public half of the key \<open>PrivateKey\<close> returns; for every
  other index both return \<open>ErrIndexOutOfRange\<close> (prekey.go).
\<close>

theorem prekey_batch_published:
  assumes "kem_laws P" and "signature_laws P" and "identity_Generate P w0 = (Inr ident, w1)"
    and "0 < sz" and "sz \<le> 2 ^ 62" and "96 * nat sz + 32 \<le> length (rng w)"
  shows "\<exists>b. GenerateBatch P ident sz w = (Inr b, w\<lparr>rng := drop (96 * nat sz + 32) (rng w)\<rparr>) \<and>
    batch_Size b = sz \<and>
    (\<forall>i. if 0 \<le> i \<and> i < sz
       then \<exists>bundle priv. batch_Bundle b i = Inr bundle \<and> batch_PrivateKey b i = Inr priv \<and>
          VerifyBundle P (identity_Public ident) bundle = Inr () \<and>
          kem_MarshalPublicKey (kem_Public P priv) = Inr (bundlePublicKey bundle) \<and>
          bundleIndex bundle = i
       else batch_Bundle b i = Inl (GoError PrekeyErrIndexOutOfRange) \<and>
          batch_PrivateKey b i = Inl (GoError PrekeyErrIndexOutOfRange))"
proof -
  have ml: "mlkem_laws P" using assms(1) by (simp add: kem_laws_def)
  have gen: "genuineKeyPair P ident" using assms(3) by (rule Generate_genuine)
  obtain b where b: "GenerateBatch P ident sz w = (Inr b, w\<lparr>rng := drop (96 * nat sz + 32) (rng w)\<rparr>)"
    using GenerateBatch_succeeds [OF ml assms(2) gen assms(4-6)] by blast
  note inv = GenerateBatch_inv [OF ml assms(2) gen b]
  have "if 0 \<le> i \<and> i < sz
       then \<exists>bundle priv. batch_Bundle b i = Inr bundle \<and> batch_PrivateKey b i = Inr priv \<and>
          VerifyBundle P (identity_Public ident) bundle = Inr () \<and>
          kem_MarshalPublicKey (kem_Public P priv) = Inr (bundlePublicKey bundle) \<and>
          bundleIndex bundle = i
       else batch_Bundle b i = Inl (GoError PrekeyErrIndexOutOfRange) \<and>
          batch_PrivateKey b i = Inl (GoError PrekeyErrIndexOutOfRange)" for i
  proof (cases "0 \<le> i \<and> i < sz")
    case True
    then obtain bd where "batch_Bundle b i = Inr bd"
      "VerifyBundle P (identity_Public ident) bd = Inr ()"
      "bundlePublicKey bd = batchPubBytes b ! nat i" "bundleIndex bd = i"
      using batch_Bundle_verifies [OF inv(1)] inv(2) by blast
    moreover have "nat i < length (batchPrivates b)" using True inv(2) by (auto simp: batch_Size_def)
    ultimately show ?thesis
      using True inv(1) by (simp add: batch_PrivateKey_def sliceAt_def batchInv_def)
  next
    case False
    then show ?thesis
      using inv(2) by (auto simp: batch_PrivateKey_def batch_Bundle_def batch_Size_def)
  qed
  with b inv(2) show ?thesis by blast
qed

lemma prekey_batch_published_witness:
  "\<exists>ident w1 b w' bundle priv. identity_Generate demoPrimitives (demoWorld 64) = (Inr ident, w1) \<and>
     GenerateBatch demoPrimitives ident 2 (demoWorld 224) = (Inr b, w') \<and>
     batch_Bundle b 1 = Inr bundle \<and> batch_PrivateKey b 1 = Inr priv \<and>
     VerifyBundle demoPrimitives (identity_Public ident) bundle = Inr () \<and>
     batch_Bundle b 2 = Inl (GoError PrekeyErrIndexOutOfRange)"
proof -
  obtain ident w1 where g: "identity_Generate demoPrimitives (demoWorld 64) = (Inr ident, w1)"
    by (rule demo_identity)
  obtain b w' where "GenerateBatch demoPrimitives ident 2 (demoWorld 224) = (Inr b, w')" and
    every: "\<forall>i. if 0 \<le> i \<and> i < 2
       then \<exists>bundle priv. batch_Bundle b i = Inr bundle \<and> batch_PrivateKey b i = Inr priv \<and>
          VerifyBundle demoPrimitives (identity_Public ident) bundle = Inr () \<and>
          kem_MarshalPublicKey (kem_Public demoPrimitives priv) = Inr (bundlePublicKey bundle) \<and>
          bundleIndex bundle = i
       else batch_Bundle b i = Inl (GoError PrekeyErrIndexOutOfRange) \<and>
          batch_PrivateKey b i = Inl (GoError PrekeyErrIndexOutOfRange)"
    using prekey_batch_published [OF demo_kem_laws demo_signature_laws g, of 2 "demoWorld 224"] by auto
  from every [rule_format, of 1] every [rule_format, of 2] this(1) g show ?thesis by fastforce
qed

lemma bundle_bound:
  assumes inv: "batchInv P issuer b" and "VerifyBundle P issuer bundle = Inr ()"
    and "bundleRoot bundle = batchRoot b" and "bundleIndex bundle = int i" and "i < 2 ^ 24"
  shows "(\<exists>priv. batch_PrivateKey b (int i) = Inr priv \<and>
      kem_MarshalPublicKey (kem_Public P priv) = Inr (bundlePublicKey bundle)) \<or>
    brokenTree prekey_merkleDomain (prekey_leafData (bundlePublicKey bundle) (int i)) (int i)
      (bundleProof bundle) (batchLeaves b)"
proof -
  let ?leaf = "prekey_leafData (bundlePublicKey bundle) (int i)"
  from inv have tree: "BuildTree prekey_merkleDomain (batchLeaves b) = Inr (batchTree b)"
    and root: "batchRoot b = Root (batchTree b)"
    and len: "length (batchLeaves b) = length (batchPrivates b)"
    by (auto simp: batchInv_def batchLeaves_def)
  have ok: "VerifyInclusionProof ?leaf (int i) (bundleBatchSize bundle) (bundleProof bundle)
      (Root (batchTree b)) = Inr True"
    using assms(2-4) root by (simp add: VerifyBundle_Inr)
  show ?thesis
  proof (rule proof_any_size [OF tree ok], elim disjE conjE)
    fix k :: nat
    assume "i < 2 ^ k" and leaf: "?leaf = paddedLeaves prekey_merkleDomain (batchLeaves b) (2 ^ k) ! i"
    have i: "i < length (batchPrivates b)"
      using leaf \<open>i < 2 ^ k\<close> padding_no_leaf [OF assms(5), of "bundlePublicKey bundle"] len
      by (auto simp: paddedLeaves_def split: if_splits)
    then have "?leaf = prekey_leafData (batchPubBytes b ! i) (int i)"
      using leaf \<open>i < 2 ^ k\<close> len inv by (simp add: paddedLeaves_def batchLeaves_def batchInv_def)
    with i inv show ?thesis
      by (simp add: batch_PrivateKey_def batchInv_def prekey_leafData_def)
  qed (auto simp: brokenTree_def)
qed

text \<open>
  C9: no key can be slipped under an honest root. If \<open>VerifyBundle\<close> accepts a bundle with the
  root of a generated batch and an index below \<open>2 ^ 24\<close>, whatever public key, size and proof
  it carries, then the issuer holds the private key of exactly that public key at exactly that
  index; or \<open>crossCollision\<close>, computed from the bundle and the batch, is a SHA-256 collision between
  an input that \<open>VerifyBundle\<close> hashed and one that \<open>BuildTree\<close> hashed for the batch.
\<close>

theorem prekey_bundle_sound:
  assumes "mlkem_laws P" and "signature_laws P" and "identity_Generate P w0 = (Inr ident, w1)"
    and "GenerateBatch P ident sz w = (Inr b, w')"
    and "VerifyBundle P (identity_Public ident) bundle = Inr ()"
    and "bundleRoot bundle = batchRoot b"
    and "bundleIndex bundle = int i" and "i < 2 ^ 24"
  shows "(\<exists>priv. batch_PrivateKey b (int i) = Inr priv \<and>
      kem_MarshalPublicKey (kem_Public P priv) = Inr (bundlePublicKey bundle)) \<or>
    (\<exists>x y. crossCollision
        (verifierInputs (prekey_leafData (bundlePublicKey bundle) (int i)) (int i) (bundleProof bundle))
        (builderInputs (paddedTree prekey_merkleDomain (batchLeaves b))) = Some (x, y) \<and>
      x \<noteq> y \<and> sha256 x = sha256 y)"
proof -
  have "genuineKeyPair P ident" using assms(3) by (rule Generate_genuine)
  then have "batchInv P (identity_Public ident) b" using GenerateBatch_inv assms(1,2,4) by blast
  from bundle_bound [OF this assms(5-8)] show ?thesis by (auto simp: brokenTree_def sha256Collision_iff)
qed

lemma prekey_bundle_sound_witness:
  "\<exists>b bundle. batch_Bundle b 1 = Inr bundle \<and>
    ((\<exists>priv. batch_PrivateKey b 1 = Inr priv \<and>
        kem_MarshalPublicKey (kem_Public demoPrimitives priv) = Inr (bundlePublicKey bundle)) \<or>
     (\<exists>x y. crossCollision
        (verifierInputs (prekey_leafData (bundlePublicKey bundle) 1) 1 (bundleProof bundle))
        (builderInputs (paddedTree prekey_merkleDomain (batchLeaves b))) = Some (x, y) \<and>
       x \<noteq> y \<and> sha256 x = sha256 y))"
proof -
  have ml: "mlkem_laws demoPrimitives" using demo_kem_laws by (simp add: kem_laws_def)
  obtain ident w1 where g: "identity_Generate demoPrimitives (demoWorld 64) = (Inr ident, w1)"
    and gen: "genuineKeyPair demoPrimitives ident" by (rule demo_identity)
  obtain b w' where b: "GenerateBatch demoPrimitives ident 2 (demoWorld 224) = (Inr b, w')"
    using demo_batch [OF gen] by blast
  note inv = GenerateBatch_inv [OF ml demo_signature_laws gen b]
  obtain bd where bd: "batch_Bundle b 1 = Inr bd"
    "VerifyBundle demoPrimitives (identity_Public ident) bd = Inr ()" "bundleIndex bd = int 1"
    "bundleRoot bd = batchRoot b"
    using batch_Bundle_verifies [OF inv(1), of 1] inv(2) by auto
  from prekey_bundle_sound [OF ml demo_signature_laws g b bd(2,4,3)] bd(1) show ?thesis
    by (intro exI [of _ b] exI [of _ bd]) simp
qed

text \<open>
  C40: \<open>VerifyBundle\<close> fails to return exactly on bundles whose root signature is valid and whose
  \<open>BatchSize\<close>, which neither the signature nor the leaf covers, exceeds \<open>2 ^ 62\<close> with the index
  in range. A relay can thus hang every client that fetches an honest bundle by rewriting one
  unauthenticated field.
\<close>

theorem verify_bundle_hangs_iff:
  "VerifyBundle P issuer bundle = Inl NoReturn \<longleftrightarrow>
     identity_Verify P issuer (hashBytes (bundleRoot bundle)) (bundleRootSignature bundle) = Inr () \<and>
     0 \<le> bundleIndex bundle \<and> bundleIndex bundle < bundleBatchSize bundle \<and>
     2 ^ 62 < bundleBatchSize bundle"
proof -
  have "identity_Verify P issuer m s \<noteq> Inl NoReturn" for m s
    by (auto simp: identity_Verify_def ed25519_Verify_def)
  moreover have "VerifyInclusionProof d i n path root = Inl NoReturn \<longleftrightarrow> 0 \<le> i \<and> i < n \<and> 2 ^ 62 < n"
    for d i n path root using VerifyInclusionProof_NoReturn .
  ultimately show ?thesis by (auto simp: VerifyBundle_def tryE_Inl split: if_splits)
qed

text \<open>
  \<open>GenerateLastResort\<close>, given 128 bytes of entropy, returns a private key and a published
  prekey that \<open>VerifyLastResort\<close> accepts under the issuer, and whatever is encapsulated to the
  published encoding decapsulates with that private key to the same session key.
\<close>

theorem last_resort_published:
  assumes "kem_laws P" and "signature_laws P" and "identity_Generate P w0 = (Inr ident, w1)"
    and "128 \<le> length (rng w)"
  shows "\<exists>priv lr w'. GenerateLastResort P ident w = (Inr (priv, lr), w') \<and>
    VerifyLastResort P (identity_Public ident) lr = Inr () \<and>
    (\<exists>pub. kem_UnmarshalPublicKey P (lrPublicKey lr) = Inr pub \<and>
       (\<forall>t rnd v ct key v'. Encapsulate P pub t rnd v = (Inr (ct, key), v') \<longrightarrow>
          Decapsulate P priv ct t = Inr key))"
proof -
  have gen: "genuineKeyPair P ident" using assms(3) by (rule Generate_genuine)
  obtain priv where g: "kem_GenerateKeyPair P None w = (Inr priv, w\<lparr>rng := drop 96 (rng w)\<rparr>)"
    using GenerateKeyPair_succeeds [of w P] assms(4) by auto
  have priv: "genuineKem P priv"
    using GenerateKeyPair_genuine [OF _ g] assms(1) by (simp add: kem_laws_def)
  obtain pb where pb: "kem_MarshalPublicKey (kem_Public P priv) = Inr pb"
    "kem_UnmarshalPublicKey P pb = Inr (kem_Public P priv)"
    using hybrid_kem.encode_decode [OF assms(1) priv] by blast
  obtain sig w2 where s: "identity_Sign P ident (lastResortDomainTag @ pb)
      (w\<lparr>rng := drop 96 (rng w)\<rparr>) = (Inr sig, w2)"
    using id_sig.sign_succeeds [OF assms(2) gen, of "w\<lparr>rng := drop 96 (rng w)\<rparr>"] assms(4) by fastforce
  let ?lr = "\<lparr>lrPublicKey = pb, lrSignature = sig\<rparr>"
  have "GenerateLastResort P ident w = (Inr (priv, ?lr), w2)"
    by (simp add: GenerateLastResort_def tryS_step g pb s)
  moreover have "VerifyLastResort P (identity_Public ident) ?lr = Inr ()"
    using id_sig.sign_verifies [OF assms(2) gen s] by (simp add: VerifyLastResort_def)
  moreover have "Decapsulate P priv ct t = Inr key"
    if "Encapsulate P (kem_Public P priv) t rnd v = (Inr (ct, key), v')" for t rnd v ct key v'
    using hybrid_kem.encap_decap [OF assms(1) priv that] .
  ultimately show ?thesis using pb(2)
    by (intro exI [of _ priv] exI [of _ ?lr] exI [of _ w2]) auto
qed

lemma last_resort_published_witness:
  "\<exists>ident w1 priv lr w'. identity_Generate demoPrimitives (demoWorld 64) = (Inr ident, w1) \<and>
     GenerateLastResort demoPrimitives ident (demoWorld 128) = (Inr (priv, lr), w') \<and>
     VerifyLastResort demoPrimitives (identity_Public ident) lr = Inr ()"
proof -
  obtain ident w1 where g: "identity_Generate demoPrimitives (demoWorld 64) = (Inr ident, w1)"
    by (rule demo_identity)
  from last_resort_published [OF demo_kem_laws demo_signature_laws g, of "demoWorld 128"] g
  show ?thesis by auto
qed

end
