(* ===== verification/Header.thy ===== *)
theory Header
  imports Prelude
begin

text \<open>
  \<open>crypto/ratchet/header.go\<close>: the header sent with every ratchet message and its wire format,
  length-prefixed fields in network byte order. Each field is an instance of \<open>prefix_codec\<close>,
  from which the round trip and the rejection of truncated input follow. \<open>None\<close> is a nil slice.
\<close>

section \<open>The header\<close>

record Header =
  hdrDHPub :: bytes
  hdrPN :: u32
  hdrN :: u32
  hdrMLKEMPub :: "bytes option"
  hdrMLKEMCiphertext :: "bytes option"

text \<open>A nil slice has no bytes.\<close>

definition sliceBytes :: "bytes option \<Rightarrow> bytes" where
  "sliceBytes b = (case b of None \<Rightarrow> [] | Some bs \<Rightarrow> bs)"

definition appendBytes :: "bytes \<Rightarrow> bytes \<Rightarrow> bytes" where
  "appendBytes buf dat = buf @ be32 (of_nat (length dat)) @ dat"

definition Header_Marshal :: "Header \<Rightarrow> bytes" where
  "Header_Marshal h =
     (let buf = appendBytes [] (hdrDHPub h);
          buf = buf @ be32 (hdrPN h);
          buf = buf @ be32 (hdrN h);
          buf = appendBytes buf (sliceBytes (hdrMLKEMPub h))
      in appendBytes buf (sliceBytes (hdrMLKEMCiphertext h)))"

definition readUint32 :: "bytes \<Rightarrow> fault + u32 \<times> bytes" where
  "readUint32 buf =
     (if length buf < 4 then Inl (GoError ErrTruncatedHeader)
      else tryE (beUint32 buf) (\<lambda>n. tryE (sliceFrom buf 4) (\<lambda>rest. Inr (n, rest))))"

definition readBytes :: "bytes \<Rightarrow> fault + bytes \<times> bytes" where
  "readBytes buf =
     tryE (readUint32 buf) (\<lambda>(n, buf).
     if length buf < unat n then Inl (GoError ErrTruncatedHeaderField)
     else tryE (sliceTo buf (unat n)) (\<lambda>field. tryE (sliceFrom buf (unat n)) (\<lambda>rest. Inr (field, rest))))"

definition UnmarshalHeader :: "bytes \<Rightarrow> fault + Header" where
  "UnmarshalHeader buf =
     tryE (readBytes buf) (\<lambda>(dh, buf).
     tryE (readUint32 buf) (\<lambda>(pn, buf).
     tryE (readUint32 buf) (\<lambda>(n, buf).
     tryE (readBytes buf) (\<lambda>(kp, buf).
     tryE (readBytes buf) (\<lambda>(kc, buf).
     if length buf \<noteq> 0 then Inl (GoError ErrTrailingBytesAfterHeader)
     else Inr \<lparr>hdrDHPub = dh, hdrPN = pn, hdrN = n,
               hdrMLKEMPub = (if length kp = 0 then None else Some kp),
               hdrMLKEMCiphertext = (if length kc = 0 then None else Some kc)\<rparr>)))))"

section \<open>The fields as codecs\<close>

text \<open>A field is written with its length as \<open>uint32(len(data))\<close>, which truncates from \<open>2 ^ 32\<close> on.\<close>

definition fitsField :: "bytes \<Rightarrow> bool" where
  "fitsField b \<longleftrightarrow> length b < 2 ^ 32"

lemma be32_head: "length buf \<ge> 4 \<Longrightarrow> be32 (uint32_be buf) @ drop 4 buf = buf"
proof -
  assume "length buf \<ge> 4"
  then have "length (take 4 buf) = 4" by simp
  moreover have "uint32_be (take 4 buf) = uint32_be buf" by (simp add: uint32_be_def)
  ultimately have "be32 (uint32_be buf) = take 4 buf" using be32_uint32_be by metis
  then show ?thesis by simp
qed

interpretation u32_codec: prefix_codec be32 readUint32 "\<lambda>_. True"
proof unfold_locales
  fix buf x rest
  assume "readUint32 buf = Inr (x, rest)"
  then show "buf = be32 x @ rest \<and> True"
    using be32_head [of buf] by (auto simp: readUint32_def split: if_splits)
qed (simp add: readUint32_def)

interpretation bytes_codec: prefix_codec "appendBytes []" readBytes fitsField
proof unfold_locales
  fix x rest
  assume "fitsField x"
  then have "unat (of_nat (length x) :: u32) = length x"
    by (simp add: fitsField_def unsigned_of_nat take_bit_eq_mod)
  then show "readBytes (appendBytes [] x @ rest) = Inr (x, rest)"
    by (simp add: appendBytes_def readBytes_def u32_codec.get_put)
next
  fix buf x rest
  assume "readBytes buf = Inr (x, rest)"
  then obtain n buf' where n: "readUint32 buf = Inr (n, buf')" and len: "unat n \<le> length buf'"
    and x: "x = take (unat n) buf'" "rest = drop (unat n) buf'"
    by (auto simp: readBytes_def tryE_Inr split: if_splits)
  have "length x = unat n" using len x by simp
  then have "of_nat (length x) = n" by simp
  moreover have "unat n < 2 ^ 32" using unsigned_less [of n] by simp
  ultimately show "buf = appendBytes [] x @ rest \<and> fitsField x"
    using n x len by (auto simp: appendBytes_def fitsField_def u32_codec.get_iff)
qed

lemmas field_iff = u32_codec.get_iff bytes_codec.get_iff

lemma appendBytes_append: "appendBytes buf d = buf @ appendBytes [] d"
  by (simp add: appendBytes_def)

text \<open>What is written of a header, and which headers are written faithfully.\<close>

definition headerFits :: "Header \<Rightarrow> bool" where
  "headerFits h \<longleftrightarrow> fitsField (hdrDHPub h) \<and> fitsField (sliceBytes (hdrMLKEMPub h)) \<and>
     fitsField (sliceBytes (hdrMLKEMCiphertext h))"

definition nilEmpty :: "bytes option \<Rightarrow> bytes option" where
  "nilEmpty b = (if sliceBytes b = [] then None else b)"

definition normHeader :: "Header \<Rightarrow> Header" where
  "normHeader h = h\<lparr>hdrMLKEMPub := nilEmpty (hdrMLKEMPub h),
                    hdrMLKEMCiphertext := nilEmpty (hdrMLKEMCiphertext h)\<rparr>"

lemma Marshal_fields:
  "Header_Marshal h = appendBytes [] (hdrDHPub h) @ be32 (hdrPN h) @ be32 (hdrN h) @
     appendBytes [] (sliceBytes (hdrMLKEMPub h)) @ appendBytes [] (sliceBytes (hdrMLKEMCiphertext h))"
  by (simp add: Header_Marshal_def Let_def appendBytes_append [of "_ @ _"])

lemma nilEmpty_simps [simp]:
  "nilEmpty None = None" "nilEmpty (Some []) = None" "nilEmpty (Some (x # xs)) = Some (x # xs)"
  by (simp_all add: nilEmpty_def sliceBytes_def)

lemma nilEmpty_cases: "nilEmpty b = b \<longleftrightarrow> b \<noteq> Some []"
  by (auto simp: nilEmpty_def sliceBytes_def split: option.splits)

lemma Unmarshal_Marshal: "headerFits h \<Longrightarrow> UnmarshalHeader (Header_Marshal h) = Inr (normHeader h)"
  by (cases h) (auto simp: UnmarshalHeader_def Marshal_fields headerFits_def u32_codec.get_put
      bytes_codec.get_put bytes_codec.get_put_all normHeader_def nilEmpty_def sliceBytes_def
      split: option.splits)

lemma Unmarshal_Inr:
  "UnmarshalHeader buf = Inr h \<Longrightarrow> buf = Header_Marshal h \<and> headerFits h \<and> normHeader h = h"
  by (auto simp: UnmarshalHeader_def tryE_Inr field_iff Marshal_fields headerFits_def
      normHeader_def sliceBytes_def nilEmpty_def split: if_splits)

lemma Unmarshal_extended:
  "headerFits h \<Longrightarrow> extra \<noteq> [] \<Longrightarrow>
     UnmarshalHeader (Header_Marshal h @ extra) = Inl (GoError ErrTrailingBytesAfterHeader)"
  by (simp add: UnmarshalHeader_def Marshal_fields headerFits_def u32_codec.get_put
      bytes_codec.get_put)

text \<open>The outcomes of the parser; what it calls trailing follows a whole header.\<close>

lemma readUint32_Inl: "readUint32 buf = Inl e \<Longrightarrow> e = GoError ErrTruncatedHeader"
  by (auto simp: readUint32_def split: if_splits)

lemma readBytes_Inl:
  "readBytes buf = Inl e \<Longrightarrow> e \<in> {GoError ErrTruncatedHeader, GoError ErrTruncatedHeaderField}"
  by (auto simp: readBytes_def tryE_Inl dest: readUint32_Inl split: if_splits)

lemma Unmarshal_Inl:
  assumes "UnmarshalHeader buf = Inl e"
  shows "e \<in> {GoError ErrTruncatedHeader, GoError ErrTruncatedHeaderField} \<or>
    (\<exists>h extra. headerFits h \<and> buf = Header_Marshal h @ extra)"
proof (cases "\<exists>dh b1 pn b2 n b3 kp b4 kc b5. readBytes buf = Inr (dh, b1) \<and>
    readUint32 b1 = Inr (pn, b2) \<and> readUint32 b2 = Inr (n, b3) \<and> readBytes b3 = Inr (kp, b4) \<and>
    readBytes b4 = Inr (kc, b5)")
  case True
  then obtain dh b1 pn b2 n b3 kp b4 kc b5 where r: "readBytes buf = Inr (dh, b1)"
    "readUint32 b1 = Inr (pn, b2)" "readUint32 b2 = Inr (n, b3)" "readBytes b3 = Inr (kp, b4)"
    "readBytes b4 = Inr (kc, b5)" by blast
  let ?h = "\<lparr>hdrDHPub = dh, hdrPN = pn, hdrN = n, hdrMLKEMPub = Some kp, hdrMLKEMCiphertext = Some kc\<rparr>"
  have "headerFits ?h \<and> buf = Header_Marshal ?h @ b5"
    using r by (auto simp: field_iff headerFits_def Marshal_fields sliceBytes_def)
  then show ?thesis by blast
next
  case False
  with assms show ?thesis
    by (auto simp: UnmarshalHeader_def tryE_Inl dest!: readUint32_Inl readBytes_Inl)
qed

text \<open>Headers that are written alike are the same up to nil and empty slices.\<close>

lemma Header_Marshal_inj:
  "headerFits h \<Longrightarrow> headerFits h' \<Longrightarrow> Header_Marshal h = Header_Marshal h' \<Longrightarrow>
     normHeader h = normHeader h'"
  using Unmarshal_Marshal by (metis sum.inject(2))

interpretation header_codec: prefix_codec
  "\<lambda>h. appendBytes [] (Header_Marshal h)"
  "\<lambda>buf. tryE (readBytes buf) (\<lambda>(b, rest). tryE (UnmarshalHeader b) (\<lambda>h. Inr (h, rest)))"
  "\<lambda>h. headerFits h \<and> normHeader h = h \<and> fitsField (Header_Marshal h)"
proof unfold_locales
  fix h rest
  assume "headerFits h \<and> normHeader h = h \<and> fitsField (Header_Marshal h)"
  then show "tryE (readBytes (appendBytes [] (Header_Marshal h) @ rest))
      (\<lambda>(b, rest). tryE (UnmarshalHeader b) (\<lambda>h. Inr (h, rest))) = Inr (h, rest)"
    using Unmarshal_Marshal [of h] by (simp add: bytes_codec.get_put)
next
  fix buf h rest
  assume "tryE (readBytes buf) (\<lambda>(b, rest). tryE (UnmarshalHeader b) (\<lambda>h. Inr (h, rest))) = Inr (h, rest)"
  then show "buf = appendBytes [] (Header_Marshal h) @ rest \<and>
      headerFits h \<and> normHeader h = h \<and> fitsField (Header_Marshal h)"
    by (auto simp: tryE_Inr field_iff dest!: Unmarshal_Inr)
qed

section \<open>Properties\<close>

text \<open>
  The header format is canonical. \<open>UnmarshalHeader\<close> returns a header exactly when the buffer
  is what \<open>Marshal\<close> writes for it, its fields are shorter than \<open>2 ^ 32\<close> bytes and its optional
  fields are nil or nonempty; so no two buffers parse to one header, and nothing is lost.
\<close>

theorem header_format_canonical:
  "UnmarshalHeader buf = Inr h \<longleftrightarrow>
     buf = Header_Marshal h \<and> length (hdrDHPub h) < 2 ^ 32 \<and>
     length (sliceBytes (hdrMLKEMPub h)) < 2 ^ 32 \<and>
     length (sliceBytes (hdrMLKEMCiphertext h)) < 2 ^ 32 \<and>
     hdrMLKEMPub h \<noteq> Some [] \<and> hdrMLKEMCiphertext h \<noteq> Some []"
proof -
  have "normHeader h = h \<longleftrightarrow> hdrMLKEMPub h \<noteq> Some [] \<and> hdrMLKEMCiphertext h \<noteq> Some []"
    by (cases h) (simp add: normHeader_def nilEmpty_cases)
  then show ?thesis
    using Unmarshal_Inr [of buf h] Unmarshal_Marshal [of h] by (auto simp: headerFits_def fitsField_def)
qed

text \<open>
  A header written by \<open>Marshal\<close> and cut short anywhere is rejected as truncated, and followed
  by further bytes it is rejected for them: the parser never reads a header off part of a buffer.
\<close>

theorem header_cut_or_extended_rejected:
  assumes "length (hdrDHPub h) < 2 ^ 32" and "length (sliceBytes (hdrMLKEMPub h)) < 2 ^ 32"
    and "length (sliceBytes (hdrMLKEMCiphertext h)) < 2 ^ 32"
    and "k < length (Header_Marshal h)" and "extra \<noteq> []"
  shows "UnmarshalHeader (take k (Header_Marshal h))
      \<in> {Inl (GoError ErrTruncatedHeader), Inl (GoError ErrTruncatedHeaderField)} \<and>
    UnmarshalHeader (Header_Marshal h @ extra) = Inl (GoError ErrTrailingBytesAfterHeader)"
proof
  have fits: "headerFits h" using assms(1-3) by (simp add: headerFits_def fitsField_def)
  show "UnmarshalHeader (Header_Marshal h @ extra) = Inl (GoError ErrTrailingBytesAfterHeader)"
    by (rule Unmarshal_extended [OF fits assms(5)])
  let ?cut = "take k (Header_Marshal h)"
  have split: "?cut @ drop k (Header_Marshal h) = Header_Marshal h" and more:  "drop k (Header_Marshal h) \<noteq> []"
    using assms(4) by auto
  then have no: "?cut \<noteq> Header_Marshal h' @ x" if "headerFits h'" for h' x
    using Unmarshal_extended [OF that, of "x @ drop k (Header_Marshal h)"] Unmarshal_Marshal [OF fits]
      split more by (metis append_assoc append_is_Nil_conv sum.distinct(1))
  show "UnmarshalHeader ?cut
      \<in> {Inl (GoError ErrTruncatedHeader), Inl (GoError ErrTruncatedHeaderField)}"
  proof (cases "UnmarshalHeader ?cut")
    case (Inl e)
    from Unmarshal_Inl [OF this] no Inl show ?thesis by auto
  next
    case (Inr h')
    from Unmarshal_Inr [OF this] no [of h' "[]"] show ?thesis by (metis append_Nil2)
  qed
qed

lemma header_cut_or_extended_rejected_witness:
  "let h = \<lparr>hdrDHPub = [1], hdrPN = 2, hdrN = 3, hdrMLKEMPub = None, hdrMLKEMCiphertext = Some [4]\<rparr>
   in UnmarshalHeader (take 19 (Header_Marshal h))
        \<in> {Inl (GoError ErrTruncatedHeader), Inl (GoError ErrTruncatedHeaderField)} \<and>
      UnmarshalHeader (Header_Marshal h @ [0]) = Inl (GoError ErrTrailingBytesAfterHeader)"
  unfolding Let_def
  by (rule header_cut_or_extended_rejected)
    (simp_all add: sliceBytes_def Header_Marshal_def appendBytes_def Let_def)

end
