(* ===== verification/Wire.thy ===== *)
theory Wire
  imports Identity KemHybrid Header
begin

text \<open>
  \<open>crypto/session/wire.go\<close> and the message types of \<open>session.go\<close>: the two envelopes that cross
  the relay, their encoders and parsers. Length-prefixed fields are again instances of
  \<open>prefix_codec\<close>; the headers inside are those of \<open>Header\<close>.
\<close>

section \<open>Messages\<close>

record InitialMessage =
  SenderIdentity :: IdPublicKey
  KEMCiphertext :: Ciphertext
  PrekeyIndex :: int
  IsLastResort :: bool
  imHeader :: Header
  imCiphertext :: bytes

record SubsequentMessage =
  smHeader :: Header
  smCiphertext :: bytes

text \<open>What \<open>UnmarshalEnvelope\<close> returns: exactly one of the two pointers is not nil.\<close>

datatype envelope = InitialEnvelope InitialMessage | SubsequentEnvelope SubsequentMessage

definition envelopeTypeInitial :: byte where "envelopeTypeInitial = 1"
definition envelopeTypeSubsequent :: byte where "envelopeTypeSubsequent = 2"

section \<open>Fields\<close>

definition appendLenPrefixed :: "bytes \<Rightarrow> bytes \<Rightarrow> bytes" where
  "appendLenPrefixed buf dat = buf @ be32 (of_nat (length dat)) @ dat"

definition readLenPrefixed :: "bytes \<Rightarrow> fault + bytes \<times> bytes" where
  "readLenPrefixed buf =
     (if length buf < 4 then Inl (GoError ErrTruncatedField)
      else tryE (beUint32 buf) (\<lambda>n.
           tryE (sliceFrom buf 4) (\<lambda>buf.
           if length buf < unat n then Inl (GoError ErrTruncatedFieldBody)
           else tryE (sliceTo buf (unat n)) (\<lambda>field.
                tryE (sliceFrom buf (unat n)) (\<lambda>rest. Inr (field, rest))))))"

definition unmarshalIdentityPublicKey :: "bytes \<Rightarrow> fault + IdPublicKey" where
  "unmarshalIdentityPublicKey buf =
     (if length buf \<noteq> 32 + mldsa_PublicKeySize then Inl (GoError ErrInvalidIdentityLength)
      else tryE (sliceTo buf 32) (\<lambda>edPub.
           tryE (sliceFrom buf 32) (\<lambda>mldsaBytes.
           tryE (mldsa_UnmarshalBinary mldsaBytes) (\<lambda>mldsaPub.
           Inr \<lparr>idEd25519 = edPub, idMLDSA = mldsaPub\<rparr>))))"

section \<open>The initial message\<close>

definition InitialMessage_Marshal :: "InitialMessage \<Rightarrow> fault + bytes" where
  "InitialMessage_Marshal m =
     tryE (identity_Marshal (SenderIdentity m)) (\<lambda>idBytes.
     tryE (kem_MarshalCiphertext (KEMCiphertext m)) (\<lambda>ctBytes.
     let buf = appendLenPrefixed [] idBytes;
         buf = appendLenPrefixed buf ctBytes;
         buf = buf @ be32 (word_of_int (PrekeyIndex m));
         buf = (if IsLastResort m then buf @ [1] else buf @ [0]);
         buf = appendLenPrefixed buf (Header_Marshal (imHeader m))
     in Inr (appendLenPrefixed buf (imCiphertext m))))"

definition UnmarshalInitialMessage :: "bytes \<Rightarrow> fault + InitialMessage" where
  "UnmarshalInitialMessage buf =
     tryE (readLenPrefixed buf) (\<lambda>(idBytes, buf).
     tryE (unmarshalIdentityPublicKey idBytes) (\<lambda>senderID.
     tryE (readLenPrefixed buf) (\<lambda>(ctBytes, buf).
     tryE (kem_UnmarshalCiphertext ctBytes) (\<lambda>ct.
     if length buf < 4 then Inl (GoError ErrTruncatedPrekeyIndex)
     else tryE (beUint32 buf) (\<lambda>prekeyIndex.
     tryE (sliceFrom buf 4) (\<lambda>buf.
     if length buf < 1 then Inl (GoError ErrTruncatedLastResortFlag)
     else tryE (sliceAt buf 0) (\<lambda>flag.
     let isLastResort = (flag \<noteq> 0) in
     tryE (sliceFrom buf 1) (\<lambda>buf.
     tryE (readLenPrefixed buf) (\<lambda>(hdrBytes, buf).
     tryE (UnmarshalHeader hdrBytes) (\<lambda>hdr.
     tryE (readLenPrefixed buf) (\<lambda>(ciphertext, buf).
     if length buf \<noteq> 0 then Inl (GoError ErrTrailingBytes)
     else Inr \<lparr>SenderIdentity = senderID, KEMCiphertext = ct, PrekeyIndex = uint prekeyIndex,
               IsLastResort = isLastResort, imHeader = hdr, imCiphertext = ciphertext\<rparr>)))))))))))"

section \<open>Subsequent messages and envelopes\<close>

definition SubsequentMessage_Marshal :: "SubsequentMessage \<Rightarrow> bytes" where
  "SubsequentMessage_Marshal m =
     (let buf = appendLenPrefixed [] (Header_Marshal (smHeader m))
      in appendLenPrefixed buf (smCiphertext m))"

definition UnmarshalSubsequentMessage :: "bytes \<Rightarrow> fault + SubsequentMessage" where
  "UnmarshalSubsequentMessage buf =
     tryE (readLenPrefixed buf) (\<lambda>(hdrBytes, buf).
     tryE (UnmarshalHeader hdrBytes) (\<lambda>hdr.
     tryE (readLenPrefixed buf) (\<lambda>(ciphertext, buf).
     if length buf \<noteq> 0 then Inl (GoError ErrTrailingBytes)
     else Inr \<lparr>smHeader = hdr, smCiphertext = ciphertext\<rparr>)))"

definition InitialMessage_MarshalEnvelope :: "InitialMessage \<Rightarrow> fault + bytes" where
  "InitialMessage_MarshalEnvelope m =
     tryE (InitialMessage_Marshal m) (\<lambda>body. Inr (envelopeTypeInitial # body))"

definition SubsequentMessage_MarshalEnvelope :: "SubsequentMessage \<Rightarrow> bytes" where
  "SubsequentMessage_MarshalEnvelope m = envelopeTypeSubsequent # SubsequentMessage_Marshal m"

definition UnmarshalEnvelope :: "bytes \<Rightarrow> fault + envelope" where
  "UnmarshalEnvelope buf =
     (if length buf = 0 then Inl (GoError ErrEmptyEnvelope)
      else tryE (sliceAt buf 0) (\<lambda>t.
        if t = envelopeTypeInitial
        then tryE (sliceFrom buf 1) (\<lambda>body.
             tryE (UnmarshalInitialMessage body) (\<lambda>m. Inr (InitialEnvelope m)))
        else if t = envelopeTypeSubsequent
        then tryE (sliceFrom buf 1) (\<lambda>body.
             tryE (UnmarshalSubsequentMessage body) (\<lambda>m. Inr (SubsequentEnvelope m)))
        else Inl (GoError ErrUnknownEnvelopeType)))"

section \<open>Lemmas\<close>

lemma UnmarshalEnvelope_eq:
  "UnmarshalEnvelope buf =
     (case buf of
        [] \<Rightarrow> Inl (GoError ErrEmptyEnvelope)
      | t # body \<Rightarrow>
          if t = envelopeTypeInitial
          then tryE (UnmarshalInitialMessage body) (\<lambda>m. Inr (InitialEnvelope m))
          else if t = envelopeTypeSubsequent
          then tryE (UnmarshalSubsequentMessage body) (\<lambda>m. Inr (SubsequentEnvelope m))
          else Inl (GoError ErrUnknownEnvelopeType))"
  by (simp add: UnmarshalEnvelope_def split: list.split)

text \<open>The field format is that of the header package, with its own errors.\<close>

lemma appendLenPrefixed_eq: "appendLenPrefixed = appendBytes"
  by (rule ext)+ (simp add: appendLenPrefixed_def appendBytes_def)

lemma readLenPrefixed_Inr: "readLenPrefixed buf = Inr p \<longleftrightarrow> readBytes buf = Inr p"
  by (auto simp: readLenPrefixed_def readBytes_def readUint32_def Let_def)

interpretation len_codec: prefix_codec "appendLenPrefixed []" readLenPrefixed fitsField
  by unfold_locales
    (simp_all add: readLenPrefixed_Inr appendLenPrefixed_eq bytes_codec.get_put bytes_codec.get_iff)

lemma appendLenPrefixed_append: "appendLenPrefixed buf d = buf @ appendLenPrefixed [] d"
  by (simp add: appendLenPrefixed_def)

lemma unmarshalIdentity_Inr:
  "unmarshalIdentityPublicKey b = Inr i \<longleftrightarrow> b = idEd25519 i @ idMLDSA i \<and>
     length (idEd25519 i) = 32 \<and> length (idMLDSA i) = mldsa_PublicKeySize"
  by (cases i) (auto simp: unmarshalIdentityPublicKey_def mldsa_UnmarshalBinary_def)

lemma UnmarshalCiphertext_Inr:
  "kem_UnmarshalCiphertext c = Inr ct \<longleftrightarrow> c = X25519Ephemeral ct @ MLKEMCiphertext ct \<and>
     length (X25519Ephemeral ct) = 32 \<and> length (MLKEMCiphertext ct) = mlkem_CiphertextSize"
  by (cases ct) (auto simp: kem_UnmarshalCiphertext_def ecdh_NewPublicKey_def tryE_Inr split: if_splits)

lemma UnmarshalHeader_iff:
  "UnmarshalHeader b = Inr h \<longleftrightarrow> b = Header_Marshal h \<and> headerFits h \<and> normHeader h = h"
  using Unmarshal_Inr Unmarshal_Marshal by (metis (full_types))

text \<open>The body of an initial message, with the flag byte as it stands.\<close>

definition initialBody :: "InitialMessage \<Rightarrow> byte \<Rightarrow> bytes" where
  "initialBody m flag =
     appendLenPrefixed [] (idEd25519 (SenderIdentity m) @ idMLDSA (SenderIdentity m)) @
     appendLenPrefixed [] (X25519Ephemeral (KEMCiphertext m) @ MLKEMCiphertext (KEMCiphertext m)) @
     be32 (word_of_int (PrekeyIndex m)) @ [flag] @
     appendLenPrefixed [] (Header_Marshal (imHeader m)) @ appendLenPrefixed [] (imCiphertext m)"

lemma Marshal_initialBody:
  "InitialMessage_Marshal m = Inr (initialBody m (if IsLastResort m then 1 else 0))"
  by (simp add: InitialMessage_Marshal_def kem_MarshalCiphertext_def initialBody_def Let_def
      appendLenPrefixed_append [of "_ @ _"] appendLenPrefixed_append [of "appendLenPrefixed _ _"])

definition headerOk :: "Header \<Rightarrow> bool" where
  "headerOk h \<longleftrightarrow> headerFits h \<and> normHeader h = h \<and> fitsField (Header_Marshal h)"

definition initialOk :: "InitialMessage \<Rightarrow> bool" where
  "initialOk m \<longleftrightarrow> length (idEd25519 (SenderIdentity m)) = 32 \<and>
     length (idMLDSA (SenderIdentity m)) = mldsa_PublicKeySize \<and>
     length (X25519Ephemeral (KEMCiphertext m)) = 32 \<and>
     length (MLKEMCiphertext (KEMCiphertext m)) = mlkem_CiphertextSize \<and>
     0 \<le> PrekeyIndex m \<and> PrekeyIndex m < 2 ^ 32 \<and> headerOk (imHeader m) \<and> fitsField (imCiphertext m)"

lemma fixed_fields_fit:
  "length a = 32 \<Longrightarrow> length b = mldsa_PublicKeySize \<Longrightarrow> fitsField (a @ b)"
  "length a = 32 \<Longrightarrow> length b = mlkem_CiphertextSize \<Longrightarrow> fitsField (a @ b)"
  by (simp_all add: fitsField_def mldsa_PublicKeySize_def mlkem_CiphertextSize_def)

lemma Unmarshal_initialBody:
  assumes "initialOk m" and "IsLastResort m \<longleftrightarrow> flag \<noteq> 0"
  shows "UnmarshalInitialMessage (initialBody m flag) = Inr m"
proof -
  have i: "uint (word_of_int (PrekeyIndex m) :: u32) = PrekeyIndex m"
    using assms(1) by (simp add: initialOk_def unsigned_of_int take_bit_eq_mod)
  have ids: "unmarshalIdentityPublicKey (idEd25519 (SenderIdentity m) @ idMLDSA (SenderIdentity m)) =
      Inr (SenderIdentity m)"
    and ct: "kem_UnmarshalCiphertext (X25519Ephemeral (KEMCiphertext m) @ MLKEMCiphertext (KEMCiphertext m)) =
      Inr (KEMCiphertext m)"
    using assms(1) by (auto simp: unmarshalIdentity_Inr UnmarshalCiphertext_Inr initialOk_def)
  have h: "UnmarshalHeader (Header_Marshal (imHeader m)) = Inr (imHeader m)"
    using assms(1) by (simp add: UnmarshalHeader_iff initialOk_def headerOk_def)
  show ?thesis
    using assms
    by (simp add: UnmarshalInitialMessage_def initialBody_def len_codec.get_put len_codec.get_put_all
        initialOk_def headerOk_def fixed_fields_fit ids ct h i)
qed

lemma Unmarshal_Initial_Inr:
  assumes "UnmarshalInitialMessage buf = Inr m"
  shows "\<exists>flag. buf = initialBody m flag \<and> (IsLastResort m \<longleftrightarrow> flag \<noteq> 0) \<and> initialOk m"
proof -
  obtain idb b1 sid ctb b2 ct hb b4 hdr cph where
    r: "readLenPrefixed buf = Inr (idb, b1)" "unmarshalIdentityPublicKey idb = Inr sid"
      "readLenPrefixed b1 = Inr (ctb, b2)" "kem_UnmarshalCiphertext ctb = Inr ct"
      "4 < length b2" "readLenPrefixed (drop 5 b2) = Inr (hb, b4)" "UnmarshalHeader hb = Inr hdr"
      "readLenPrefixed b4 = Inr (cph, [])"
    and m: "m = \<lparr>SenderIdentity = sid, KEMCiphertext = ct, PrekeyIndex = uint (uint32_be b2),
      IsLastResort = (b2 ! 4 \<noteq> 0), imHeader = hdr, imCiphertext = cph\<rparr>"
    using assms
    by (auto simp: UnmarshalInitialMessage_def tryE_Inr Let_def not_less split: if_splits)
  have b2: "b2 = be32 (uint32_be b2) @ [b2 ! 4] @ drop 5 b2"
    using be32_head [of b2] r(5) Cons_nth_drop_Suc [of 4 b2] by simp
  have "buf = initialBody m (b2 ! 4)"
    using r b2 by (simp add: len_codec.get_iff unmarshalIdentity_Inr UnmarshalCiphertext_Inr
        UnmarshalHeader_iff initialBody_def m)
  moreover have "uint (uint32_be b2) < 2 ^ 32" using unsigned_less [of "uint32_be b2", where ?'a = int] by simp
  then have "initialOk m"
    using r by (auto simp: len_codec.get_iff unmarshalIdentity_Inr UnmarshalCiphertext_Inr
        UnmarshalHeader_iff initialOk_def headerOk_def m)
  ultimately show ?thesis by (auto simp: m)
qed

lemma Unmarshal_Subsequent_iff:
  "UnmarshalSubsequentMessage buf = Inr m \<longleftrightarrow>
     buf = SubsequentMessage_Marshal m \<and> headerOk (smHeader m) \<and> fitsField (smCiphertext m)"
proof
  assume "UnmarshalSubsequentMessage buf = Inr m"
  then show "buf = SubsequentMessage_Marshal m \<and> headerOk (smHeader m) \<and> fitsField (smCiphertext m)"
    by (auto simp: UnmarshalSubsequentMessage_def tryE_Inr len_codec.get_iff UnmarshalHeader_iff
        SubsequentMessage_Marshal_def appendLenPrefixed_append [of "appendLenPrefixed _ _"]
        headerOk_def split: if_splits)
next
  assume ok: "buf = SubsequentMessage_Marshal m \<and> headerOk (smHeader m) \<and> fitsField (smCiphertext m)"
  then have "UnmarshalHeader (Header_Marshal (smHeader m)) = Inr (smHeader m)"
    by (simp add: UnmarshalHeader_iff headerOk_def)
  with ok show "UnmarshalSubsequentMessage buf = Inr m"
    by (simp add: UnmarshalSubsequentMessage_def SubsequentMessage_Marshal_def
        appendLenPrefixed_append [of "appendLenPrefixed _ _"] len_codec.get_put len_codec.get_put_all
        headerOk_def)
qed

lemma initialOk_lengths:
  assumes "initialOk m"
  shows "initialBody m flag = (let buf = initialBody m 0 in buf[3116 := flag])"
    and "3116 < length (initialBody m flag)" and "initialBody m flag ! 3116 = flag"
proof -
  let ?hd = "appendLenPrefixed [] (idEd25519 (SenderIdentity m) @ idMLDSA (SenderIdentity m)) @
     appendLenPrefixed [] (X25519Ephemeral (KEMCiphertext m) @ MLKEMCiphertext (KEMCiphertext m)) @
     be32 (word_of_int (PrekeyIndex m))"
  let ?tl = "appendLenPrefixed [] (Header_Marshal (imHeader m)) @ appendLenPrefixed [] (imCiphertext m)"
  have body: "initialBody m f = ?hd @ f # ?tl" for f by (simp add: initialBody_def)
  have "length ?hd = 3116"
    using assms by (simp add: initialOk_def appendLenPrefixed_def mldsa_PublicKeySize_def
        mlkem_CiphertextSize_def)
  then show "initialBody m flag = (let buf = initialBody m 0 in buf[3116 := flag])"
    "3116 < length (initialBody m flag)" "initialBody m flag ! 3116 = flag"
    unfolding body by (simp_all del: append_assoc add: list_update_append nth_append)
qed

lemma Unmarshal_InitialEnvelope_iff:
  "UnmarshalEnvelope buf = Inr (InitialEnvelope m) \<longleftrightarrow>
     (\<exists>flag. buf = envelopeTypeInitial # initialBody m flag \<and> (IsLastResort m \<longleftrightarrow> flag \<noteq> 0) \<and> initialOk m)"
  by (auto simp: UnmarshalEnvelope_eq tryE_Inr envelopeTypeInitial_def envelopeTypeSubsequent_def
      Unmarshal_initialBody dest: Unmarshal_Initial_Inr split: list.splits if_splits)

lemma Unmarshal_SubsequentEnvelope_iff:
  "UnmarshalEnvelope buf = Inr (SubsequentEnvelope m) \<longleftrightarrow>
     buf = SubsequentMessage_MarshalEnvelope m \<and> headerOk (smHeader m) \<and> fitsField (smCiphertext m)"
  by (auto simp: UnmarshalEnvelope_eq SubsequentMessage_MarshalEnvelope_def tryE_Inr
      envelopeTypeInitial_def envelopeTypeSubsequent_def Unmarshal_Subsequent_iff
      split: list.splits if_splits)

lemma MarshalEnvelope_body:
  "InitialMessage_MarshalEnvelope m =
     Inr (envelopeTypeInitial # initialBody m (if IsLastResort m then 1 else 0))"
  by (simp add: InitialMessage_MarshalEnvelope_def Marshal_initialBody)

lemma initial_envelope_roundtrip:
  "initialOk m \<Longrightarrow> \<exists>b. InitialMessage_MarshalEnvelope m = Inr b \<and>
     UnmarshalEnvelope b = Inr (InitialEnvelope m)"
  by (auto simp: MarshalEnvelope_body Unmarshal_InitialEnvelope_iff)

text \<open>A failing parse returns an error: no input makes the parser panic or loop.\<close>

lemma field_faults:
  "readLenPrefixed buf = Inl f \<Longrightarrow> \<exists>x. f = GoError x"
  "unmarshalIdentityPublicKey buf = Inl f \<Longrightarrow> \<exists>x. f = GoError x"
  "kem_UnmarshalCiphertext buf = Inl f \<Longrightarrow> \<exists>x. f = GoError x"
  by (auto simp: readLenPrefixed_def unmarshalIdentityPublicKey_def mldsa_UnmarshalBinary_def
      kem_UnmarshalCiphertext_def ecdh_NewPublicKey_def Let_def split: if_splits)

lemma header_faults: "UnmarshalHeader buf = Inl f \<Longrightarrow> \<exists>x. f = GoError x"
  by (auto simp: UnmarshalHeader_def tryE_Inl dest!: readUint32_Inl readBytes_Inl split: if_splits)

lemma envelope_faults: "UnmarshalEnvelope buf = Inl f \<Longrightarrow> \<exists>x. f = GoError x"
  by (auto simp: UnmarshalEnvelope_eq UnmarshalInitialMessage_def UnmarshalSubsequentMessage_def
      tryE_Inl Let_def split: list.splits if_splits dest: field_faults header_faults)

text \<open>No accepted envelope is a proper prefix of another.\<close>

lemma initialBody_prefix:
  assumes "initialOk m" and "initialOk m'" and "initialBody m f @ extra = initialBody m' f'"
  shows "extra = []"
proof -
  have fixed: "fitsField (idEd25519 (SenderIdentity k) @ idMLDSA (SenderIdentity k))"
    "fitsField (X25519Ephemeral (KEMCiphertext k) @ MLKEMCiphertext (KEMCiphertext k))"
    "fitsField (Header_Marshal (imHeader k))" "fitsField (imCiphertext k)" if "initialOk k" for k
    using that by (simp_all add: initialOk_def headerOk_def fixed_fields_fit)
  note free = len_codec.put_prefix_free [THEN conjunct2]
  have "be32 (word_of_int (PrekeyIndex m)) @ f #
        appendLenPrefixed [] (Header_Marshal (imHeader m)) @ appendLenPrefixed [] (imCiphertext m) @ extra =
      be32 (word_of_int (PrekeyIndex m')) @ f' #
        appendLenPrefixed [] (Header_Marshal (imHeader m')) @ appendLenPrefixed [] (imCiphertext m')"
    using assms(3) fixed [OF assms(1)] fixed [OF assms(2)]
    unfolding initialBody_def append_assoc append_Cons append_Nil
    by (blast dest: free)
  then have "appendLenPrefixed [] (Header_Marshal (imHeader m)) @ appendLenPrefixed [] (imCiphertext m) @ extra =
      appendLenPrefixed [] (Header_Marshal (imHeader m')) @ appendLenPrefixed [] (imCiphertext m') @ []"
    by simp
  with fixed(3,4) [OF assms(1)] fixed(3,4) [OF assms(2)] show ?thesis by (blast dest: free)
qed

lemma subsequent_prefix:
  assumes "headerOk (smHeader m)" and "fitsField (smCiphertext m)"
    and "headerOk (smHeader m')" and "fitsField (smCiphertext m')"
    and "SubsequentMessage_Marshal m @ extra = SubsequentMessage_Marshal m'"
  shows "extra = []"
proof -
  have "appendLenPrefixed [] (Header_Marshal (smHeader m)) @ appendLenPrefixed [] (smCiphertext m) @ extra =
      appendLenPrefixed [] (Header_Marshal (smHeader m')) @ appendLenPrefixed [] (smCiphertext m') @ []"
    using assms(5) by (simp add: SubsequentMessage_Marshal_def
        appendLenPrefixed_append [of "appendLenPrefixed _ _"])
  with assms(1-4) show ?thesis
    unfolding headerOk_def by (blast dest: len_codec.put_prefix_free [THEN conjunct2])
qed

lemma envelope_prefix:
  assumes "UnmarshalEnvelope buf = Inr e" and "UnmarshalEnvelope (buf @ extra) = Inr e'"
  shows "extra = []"
proof (cases e; cases e')
  fix m m' assume "e = InitialEnvelope m" "e' = InitialEnvelope m'"
  with assms show ?thesis
    by (auto simp: Unmarshal_InitialEnvelope_iff dest!: initialBody_prefix [rotated 2])
next
  fix m m' assume "e = SubsequentEnvelope m" "e' = SubsequentEnvelope m'"
  with assms show ?thesis
    by (auto simp: Unmarshal_SubsequentEnvelope_iff SubsequentMessage_MarshalEnvelope_def
        dest!: subsequent_prefix [rotated 4])
qed (use assms in \<open>auto simp: Unmarshal_InitialEnvelope_iff Unmarshal_SubsequentEnvelope_iff
      SubsequentMessage_MarshalEnvelope_def envelopeTypeInitial_def envelopeTypeSubsequent_def\<close>)

section \<open>Properties\<close>

text \<open>
  C17: what \<open>UnmarshalEnvelope\<close> accepts is exactly what \<open>MarshalEnvelope\<close> writes of the message it
  returns, except that for an initial message byte 3117, the last-resort flag, may be any byte
  with the same truth value. So a well-formed message is read back as it was, a subsequent message
  has one encoding, and an initial message with the flag set has 255 of them (wire.go).
\<close>

theorem envelope_accepts_iff:
  "UnmarshalEnvelope buf = Inr e \<longleftrightarrow>
     (case e of
        InitialEnvelope m \<Rightarrow> initialOk m \<and>
          (\<exists>b flag. InitialMessage_MarshalEnvelope m = Inr b \<and> buf = b[3117 := flag] \<and>
             (flag \<noteq> 0 \<longleftrightarrow> IsLastResort m))
      | SubsequentEnvelope m \<Rightarrow> headerOk (smHeader m) \<and> fitsField (smCiphertext m) \<and>
          buf = SubsequentMessage_MarshalEnvelope m)"
proof (cases e)
  case (InitialEnvelope m)
  have body: "initialOk m \<Longrightarrow> (initialBody m d)[3116 := flag] = initialBody m flag" for flag d
    using initialOk_lengths(1) [of m flag] initialOk_lengths(1) [of m d] by simp
  show ?thesis
    by (auto simp: InitialEnvelope Unmarshal_InitialEnvelope_iff MarshalEnvelope_body body)
next
  case (SubsequentEnvelope m)
  then show ?thesis by (auto simp: Unmarshal_SubsequentEnvelope_iff)
qed

text \<open>
  C31: bytes from the relay cannot crash the parser. \<open>UnmarshalEnvelope\<close> returns on every input,
  with a message or an error value and never a panic, and an accepted envelope that is cut short
  anywhere or followed by further bytes is rejected with an error. Every index, slice and \<open>Uint32\<close> of the
  parsers is one that panics out of range, so this says that their length checks suffice.
\<close>

theorem envelope_parse_safe:
  assumes "UnmarshalEnvelope buf = Inr e" and "k < length buf" and "extra \<noteq> []"
  shows "UnmarshalEnvelope arbitrary \<noteq> Inl Panics \<and> UnmarshalEnvelope arbitrary \<noteq> Inl NoReturn \<and>
    (\<exists>x. UnmarshalEnvelope (take k buf) = Inl (GoError x)) \<and>
    (\<exists>x. UnmarshalEnvelope (buf @ extra) = Inl (GoError x))"
proof -
  have "\<nexists>e'. UnmarshalEnvelope (buf @ extra) = Inr e'"
    using envelope_prefix [OF assms(1)] assms(3) by blast
  moreover have "\<nexists>e'. UnmarshalEnvelope (take k buf) = Inr e'"
    using envelope_prefix [of "take k buf" _ "drop k buf" e] assms(1,2) by auto
  ultimately show ?thesis
    using envelope_faults by (metis fault.distinct(1,3) sum.exhaust)
qed

lemma envelope_parse_safe_witness:
  "let m = \<lparr>smHeader = \<lparr>hdrDHPub = [1], hdrPN = 2, hdrN = 3, hdrMLKEMPub = None,
       hdrMLKEMCiphertext = Some [4]\<rparr>, smCiphertext = [5, 6]\<rparr>;
       buf = SubsequentMessage_MarshalEnvelope m
   in UnmarshalEnvelope buf = Inr (SubsequentEnvelope m) \<and>
      (\<exists>x. UnmarshalEnvelope (take 30 buf) = Inl (GoError x)) \<and>
      (\<exists>x. UnmarshalEnvelope (buf @ [0]) = Inl (GoError x))"
proof -
  let ?m = "\<lparr>smHeader = \<lparr>hdrDHPub = [1], hdrPN = 2, hdrN = 3, hdrMLKEMPub = None,
       hdrMLKEMCiphertext = Some [4]\<rparr>, smCiphertext = [5, 6]\<rparr>"
  have ok: "UnmarshalEnvelope (SubsequentMessage_MarshalEnvelope ?m) = Inr (SubsequentEnvelope ?m)"
    by (simp add: Unmarshal_SubsequentEnvelope_iff headerOk_def headerFits_def normHeader_def
        nilEmpty_def fitsField_def sliceBytes_def Header_Marshal_def appendBytes_def Let_def)
  have "30 < length (SubsequentMessage_MarshalEnvelope ?m)"
    by (simp add: SubsequentMessage_MarshalEnvelope_def SubsequentMessage_Marshal_def Let_def
        appendLenPrefixed_def Header_Marshal_def appendBytes_def sliceBytes_def)
  from ok envelope_parse_safe [OF ok this, of "[0]"] show ?thesis by (simp add: Let_def)
qed

end
