(* ===== verification/Ratchet.thy ===== *)
theory Ratchet
  imports Primitives Header
begin

text \<open>
  \<open>crypto/ratchet\<close> (\<open>kdf.go\<close>, \<open>aead.go\<close>, \<open>ratchet.go\<close>): one party's Double Ratchet with the
  periodic ML-KEM injection. A method that can fail is an action on the \<open>State\<close>: the state it
  leaves when it returns an error is the one Go leaves, half-done updates included. Methods that
  draw entropy or read the clock act on the state and the world.
\<close>

section \<open>Key derivation and AEAD\<close>

definition rootKDFInfo :: gostring where
  "rootKDFInfo = ascii ''pqchat-v1-ratchet''"

definition hmacSum :: "bytes \<Rightarrow> bytes \<Rightarrow> bytes" where
  "hmacSum key dat = hmac_sha256 key dat"

text \<open>The message key and the advanced chain key; a nil chain key is an empty HMAC key.\<close>

definition chainStep :: "bytes option \<Rightarrow> bytes \<times> bytes option" where
  "chainStep ck = (hmacSum (sliceBytes ck) [0x01], Some (hmacSum (sliceBytes ck) [0x02]))"

definition rootKDF :: "bytes \<Rightarrow> bytes \<Rightarrow> bytes \<Rightarrow> fault + bytes \<times> bytes" where
  "rootKDF rootKey dhOut kemSS =
     tryE (hkdf_Key (dhOut @ kemSS) rootKey rootKDFInfo 64) (\<lambda>out. Inr (take 32 out, drop 32 out))"

definition zeroNonce :: bytes where
  "zeroNonce = replicate 12 0"

definition aeadSeal :: "primitives \<Rightarrow> bytes \<Rightarrow> bytes \<Rightarrow> bytes \<Rightarrow> fault + bytes" where
  "aeadSeal P messageKey plaintext ad =
     (if length messageKey \<noteq> 32 then Inl (GoError LibErrAEADKey)
      else Inr (chacha_seal P messageKey zeroNonce plaintext ad))"

definition aeadOpen :: "primitives \<Rightarrow> bytes \<Rightarrow> bytes \<Rightarrow> bytes \<Rightarrow> fault + bytes" where
  "aeadOpen P messageKey ciphertext ad =
     (if length messageKey \<noteq> 32 then Inl (GoError LibErrAEADKey)
      else case chacha_open P messageKey zeroNonce ciphertext ad of
        None \<Rightarrow> Inl (GoError LibErrAEADOpen)
      | Some pt \<Rightarrow> Inr pt)"

definition associatedDataWithHeader :: "Header \<Rightarrow> bytes \<Rightarrow> bytes" where
  "associatedDataWithHeader hdr ad = ad @ Header_Marshal hdr"

section \<open>The state\<close>

text \<open>
  Private keys are 32-byte scalars (X25519) or decapsulation keys (ML-KEM); \<open>None\<close> is a nil
  pointer or slice. The skipped keys are indexed by ratchet public key and message number.
\<close>

type_synonym skippedKey = "bytes \<times> u32"

record State =
  RootKey :: bytes
  dhSelf :: bytes
  dhRemote :: "bytes option"
  chainSend :: "bytes option"
  chainRecv :: "bytes option"
  nSend :: u32
  nRecv :: u32
  pn :: u32
  needsNewSendingChain :: bool
  skipped :: "skippedKey \<rightharpoonup> bytes"
  MessageThreshold :: int
  TimeThreshold :: int
  msgsSinceInject :: int
  lastInject :: gotime
  selfPendingKEMPriv :: "bytes option"
  peerAdvertisedKEMPub :: "bytes option"

definition DefaultMessageThreshold :: int where "DefaultMessageThreshold = 50"
definition DefaultTimeThreshold :: int where "DefaultTimeThreshold = 24 * 3600 * 10 ^ 9"
definition MaxSkip :: u32 where "MaxSkip = 1000"

definition newState :: "bytes \<Rightarrow> (world, State) action" where
  "newState rootKey = tryS timeNow (\<lambda>now. ret
     \<lparr>RootKey = rootKey, dhSelf = [], dhRemote = None, chainSend = None, chainRecv = None,
      nSend = 0, nRecv = 0, pn = 0, needsNewSendingChain = False, skipped = Map.empty,
      MessageThreshold = DefaultMessageThreshold, TimeThreshold = DefaultTimeThreshold,
      msgsSinceInject = 0, lastInject = now, selfPendingKEMPriv = None,
      peerAdvertisedKEMPub = None\<rparr>)"

definition InitAlice :: "primitives \<Rightarrow> bytes \<Rightarrow> bytes \<Rightarrow> (world, State) action" where
  "InitAlice P sessionKey bobRatchetPub =
     tryS (ecdh_GenerateKey None) (\<lambda>(self, _).
     tryS (newState sessionKey) (\<lambda>s.
     tryS (pureS (ecdh_ECDH P self bobRatchetPub)) (\<lambda>dhOut.
     tryS (pureS (rootKDF (RootKey s) dhOut [])) (\<lambda>(rk, ck).
     ret (s\<lparr>dhSelf := self, dhRemote := Some bobRatchetPub, RootKey := rk, chainSend := Some ck\<rparr>)))))"

definition InitBob :: "bytes \<Rightarrow> bytes \<Rightarrow> (world, State) action" where
  "InitBob sessionKey bobRatchetPriv =
     tryS (newState sessionKey) (\<lambda>s.
     ret (s\<lparr>dhSelf := bobRatchetPriv, needsNewSendingChain := False\<rparr>))"

section \<open>Sending\<close>

text \<open>The clock is read only when the message count does not already decide.\<close>

definition injectionDue :: "(State \<times> world, bool) action" where
  "injectionDue = (\<lambda>(s, w).
     if msgsSinceInject s \<ge> MessageThreshold s then (Inr True, (s, w))
     else tryS (liftW timeNow) (\<lambda>now. ret (timeSub now (lastInject s) \<ge> TimeThreshold s)) (s, w))"

definition respondToInjection :: "primitives \<Rightarrow> Header \<Rightarrow> (State \<times> world, Header \<times> bytes) action" where
  "respondToInjection P hdr =
     tryS (liftT (asks peerAdvertisedKEMPub)) (\<lambda>advertised.
     case advertised of
       None \<Rightarrow> ret (hdr, [])
     | Some pk \<Rightarrow>
         tryS (liftW (mlkem_EncapsulateTo P pk)) (\<lambda>(ct, ss).
         tryS (liftT (modify (\<lambda>s. s\<lparr>peerAdvertisedKEMPub := None\<rparr>))) (\<lambda>_.
         ret (hdr\<lparr>hdrMLKEMCiphertext := Some ct\<rparr>, ss))))"

definition initiateInjection :: "primitives \<Rightarrow> Header \<Rightarrow> (State \<times> world, Header) action" where
  "initiateInjection P hdr =
     tryS (liftW (mlkem_GenerateKeyPair P None)) (\<lambda>((pub, priv), _).
     tryS (pureS (mlkem_MarshalBinary pub)) (\<lambda>pubBytes.
     tryS (liftT (modify (\<lambda>s. s\<lparr>selfPendingKEMPriv := Some priv, msgsSinceInject := 0\<rparr>))) (\<lambda>_.
     tryS (liftW timeNow) (\<lambda>now.
     tryS (liftT (modify (\<lambda>s. s\<lparr>lastInject := now\<rparr>))) (\<lambda>_.
     ret (hdr\<lparr>hdrMLKEMPub := Some pubBytes\<rparr>))))))"

text \<open>\<open>s.RootKey, s.chainSend, err = rootKDF(...)\<close>\<close>

definition sendingRootStep :: "bytes \<Rightarrow> bytes \<Rightarrow> (State, unit) action" where
  "sendingRootStep dhOut kemSS = (\<lambda>s.
     case rootKDF (RootKey s) dhOut kemSS of
       Inl e \<Rightarrow> (Inl e, s\<lparr>RootKey := [], chainSend := None\<rparr>)
     | Inr (rk, ck) \<Rightarrow> (Inr (), s\<lparr>RootKey := rk, chainSend := Some ck\<rparr>))"

definition ecdhWithRemote :: "primitives \<Rightarrow> State \<Rightarrow> fault + bytes" where
  "ecdhWithRemote P s =
     (case dhRemote s of None \<Rightarrow> Inl Panics | Some r \<Rightarrow> ecdh_ECDH P (dhSelf s) r)"

text \<open>The body of \<open>if s.needsNewSendingChain\<close>.\<close>

definition startSendingChain :: "primitives \<Rightarrow> Header \<Rightarrow> (State \<times> world, Header) action" where
  "startSendingChain P hdr =
     tryS (liftW (ecdh_GenerateKey None)) (\<lambda>(newSelf, _).
     tryS (liftT (modify (\<lambda>s. s\<lparr>dhSelf := newSelf\<rparr>))) (\<lambda>_.
     tryS (liftT (\<lambda>s. (ecdhWithRemote P s, s))) (\<lambda>dhOut.
     tryS (respondToInjection P hdr) (\<lambda>(hdr, kemSS).
     tryS (liftT (modify (\<lambda>s. s\<lparr>pn := nSend s, nSend := 0\<rparr>))) (\<lambda>_.
     tryS (liftT (asks pn)) (\<lambda>prev.
     tryS (liftT (sendingRootStep dhOut kemSS)) (\<lambda>_.
     tryS (liftT (modify (\<lambda>s. s\<lparr>needsNewSendingChain := False\<rparr>))) (\<lambda>_.
     tryS injectionDue (\<lambda>due.
     if due then initiateInjection P (hdr\<lparr>hdrPN := prev\<rparr>) else ret (hdr\<lparr>hdrPN := prev\<rparr>))))))))))"

definition prepareSendingChain :: "primitives \<Rightarrow> (State \<times> world, Header) action" where
  "prepareSendingChain P =
     tryS (liftT (asks pn)) (\<lambda>prev.
     tryS (liftT (asks needsNewSendingChain)) (\<lambda>needsNew.
     let hdr = \<lparr>hdrDHPub = [], hdrPN = prev, hdrN = 0, hdrMLKEMPub = None, hdrMLKEMCiphertext = None\<rparr> in
     tryS (if needsNew then startSendingChain P hdr else ret hdr) (\<lambda>hdr.
     tryS (liftT (asks dhSelf)) (\<lambda>self.
     ret (hdr\<lparr>hdrDHPub := ecdh_PublicKey P self\<rparr>)))))"

text \<open>\<open>mk := chainStep(&s.chainSend); s.nSend++; s.msgsSinceInject++\<close>\<close>

definition nextSendKey :: "(State, bytes) action" where
  "nextSendKey = (\<lambda>s. case chainStep (chainSend s) of (mk, ck) \<Rightarrow>
     (Inr mk, s\<lparr>chainSend := ck, nSend := nSend s + 1,
                msgsSinceInject := wrap64 (msgsSinceInject s + 1)\<rparr>))"

definition EncryptMessage ::
  "primitives \<Rightarrow> bytes \<Rightarrow> bytes \<Rightarrow> (State \<times> world, Header \<times> bytes) action" where
  "EncryptMessage P plaintext ad =
     tryS (prepareSendingChain P) (\<lambda>hdr.
     tryS (liftT (asks nSend)) (\<lambda>n.
     let hdr = hdr\<lparr>hdrN := n\<rparr> in
     tryS (liftT nextSendKey) (\<lambda>mk.
     tryS (pureS (aeadSeal P mk plaintext (associatedDataWithHeader hdr ad))) (\<lambda>ct.
     ret (hdr, ct)))))"

section \<open>Receiving\<close>

definition takeSkippedKey :: "Header \<Rightarrow> State \<Rightarrow> bytes option \<times> State" where
  "takeSkippedKey hdr s =
     (case skipped s (hdrDHPub hdr, hdrN hdr) of
        None \<Rightarrow> (None, s)
      | Some mk \<Rightarrow> (Some mk, s\<lparr>skipped := (skipped s)((hdrDHPub hdr, hdrN hdr) := None)\<rparr>))"

text \<open>One round of the loop of \<open>skipMessageKeys\<close>, and the loop.\<close>

definition skipOne :: "bytes \<Rightarrow> State \<Rightarrow> State" where
  "skipOne dhKey s = (case chainStep (chainRecv s) of (mk, ck) \<Rightarrow>
     s\<lparr>chainRecv := ck, skipped := (skipped s)((dhKey, nRecv s) \<mapsto> mk), nRecv := nRecv s + 1\<rparr>)"

lemma nRecv_skipOne [simp]: "nRecv (skipOne k s) = nRecv s + 1"
  by (simp add: skipOne_def chainStep_def)

lemma u32_suc: "(a :: u32) < b \<Longrightarrow> unat (a + 1) = Suc (unat a)"
  using unsigned_less [of b, where ?'a = nat] by (simp add: unat_word_ariths word_less_nat_alt)

function skipLoop :: "bytes \<Rightarrow> u32 \<Rightarrow> State \<Rightarrow> State" where
  "skipLoop dhKey until s = (if nRecv s < until then skipLoop dhKey until (skipOne dhKey s) else s)"
  by pat_completeness auto

termination
  by (relation "measure (\<lambda>(_, until, s). unat until - unat (nRecv s))")
    (auto simp: u32_suc word_less_nat_alt)

declare skipLoop.simps [simp del]

definition skipMessageKeys :: "u32 \<Rightarrow> (State, unit) action" where
  "skipMessageKeys until = (\<lambda>s.
     if chainRecv s = None then (Inr (), s)
     else if until < nRecv s then (Inr (), s)
     else if until - nRecv s > MaxSkip then (Inl (GoError ErrSkipTooLarge), s)
     else case dhRemote s of
       None \<Rightarrow> (Inl Panics, s)
     | Some dhKey \<Rightarrow> (Inr (), skipLoop dhKey until s))"

definition consumeInjection :: "primitives \<Rightarrow> Header \<Rightarrow> (State, bytes) action" where
  "consumeInjection P hdr = (\<lambda>s.
     case hdrMLKEMCiphertext hdr of
       None \<Rightarrow> (Inr [], s)
     | Some ct \<Rightarrow>
         (case selfPendingKEMPriv s of
            None \<Rightarrow> (Inl (GoError ErrUnexpectedKEMCT), s)
          | Some priv \<Rightarrow>
              tryS (pureS (mlkem_DecapsulateTo P priv ct)) (\<lambda>ss.
              tryS (modify (\<lambda>s. s\<lparr>selfPendingKEMPriv := None\<rparr>)) (\<lambda>_. ret ss)) s))"

definition receivingRootStep :: "bytes \<Rightarrow> bytes \<Rightarrow> (State, unit) action" where
  "receivingRootStep dhOut kemSS = (\<lambda>s.
     case rootKDF (RootKey s) dhOut kemSS of
       Inl e \<Rightarrow> (Inl e, s\<lparr>RootKey := [], chainRecv := None\<rparr>)
     | Inr (rk, ck) \<Rightarrow> (Inr (), s\<lparr>RootKey := rk, chainRecv := Some ck\<rparr>))"

definition recordInjection :: "primitives \<Rightarrow> Header \<Rightarrow> (State, unit) action" where
  "recordInjection P hdr =
     (case hdrMLKEMPub hdr of
        None \<Rightarrow> ret ()
      | Some kp \<Rightarrow>
          tryS (pureS (mlkem_Unpack P kp)) (\<lambda>pub.
          modify (\<lambda>s. s\<lparr>peerAdvertisedKEMPub := Some pub\<rparr>)))"

definition dhRatchetStep :: "primitives \<Rightarrow> Header \<Rightarrow> (State, unit) action" where
  "dhRatchetStep P hdr =
     tryS (pureS (ecdh_NewPublicKey (hdrDHPub hdr))) (\<lambda>remotePub.
     tryS (consumeInjection P hdr) (\<lambda>kemSS.
     tryS (modify (\<lambda>s. s\<lparr>dhRemote := Some remotePub\<rparr>)) (\<lambda>_.
     tryS (\<lambda>s. (ecdhWithRemote P s, s)) (\<lambda>dhOut.
     tryS (modify (\<lambda>s. s\<lparr>nRecv := 0\<rparr>)) (\<lambda>_.
     tryS (receivingRootStep dhOut kemSS) (\<lambda>_.
     tryS (recordInjection P hdr) (\<lambda>_.
     modify (\<lambda>s. s\<lparr>needsNewSendingChain := True\<rparr>))))))))"

text \<open>\<open>mk := chainStep(&s.chainRecv); s.nRecv++\<close>\<close>

definition nextRecvKey :: "(State, bytes) action" where
  "nextRecvKey = (\<lambda>s. case chainStep (chainRecv s) of (mk, ck) \<Rightarrow>
     (Inr mk, s\<lparr>chainRecv := ck, nRecv := nRecv s + 1\<rparr>))"

text \<open>What \<open>DecryptMessage\<close> does up to the message key, when no skipped key matches.\<close>

definition enterNewKey :: "primitives \<Rightarrow> Header \<Rightarrow> (State, unit) action" where
  "enterNewKey P hdr = tryS (asks dhRemote) (\<lambda>remote.
     if remote = None \<or> remote \<noteq> Some (hdrDHPub hdr)
     then tryS (if remote \<noteq> None then skipMessageKeys (hdrPN hdr) else ret ()) (\<lambda>_.
          dhRatchetStep P hdr)
     else ret ())"

definition receivingKey :: "primitives \<Rightarrow> Header \<Rightarrow> (State, bytes) action" where
  "receivingKey P hdr =
     tryS (enterNewKey P hdr) (\<lambda>_.
     tryS (skipMessageKeys (hdrN hdr)) (\<lambda>_.
     nextRecvKey))"

definition DecryptMessage :: "primitives \<Rightarrow> Header \<Rightarrow> bytes \<Rightarrow> bytes \<Rightarrow> (State, bytes) action" where
  "DecryptMessage P hdr ciphertext ad = (\<lambda>s.
     case takeSkippedKey hdr s of
       (Some mk, s') \<Rightarrow> (aeadOpen P mk ciphertext (associatedDataWithHeader hdr ad), s')
     | (None, s') \<Rightarrow>
         tryS (receivingKey P hdr) (\<lambda>mk.
         pureS (aeadOpen P mk ciphertext (associatedDataWithHeader hdr ad))) s')"

section \<open>The interface of the AEAD\<close>

locale authenticated_encryption =
  fixes laws :: "'l \<Rightarrow> bool"
    and seal :: "'l \<Rightarrow> bytes \<Rightarrow> bytes \<Rightarrow> bytes \<Rightarrow> fault + bytes"
    and unseal :: "'l \<Rightarrow> bytes \<Rightarrow> bytes \<Rightarrow> bytes \<Rightarrow> fault + bytes"
    and key_ok :: "bytes \<Rightarrow> bool"
  assumes seal_total: "key_ok k \<Longrightarrow> \<exists>ct. seal L k pt ad = Inr ct"
    and unseal_seal: "laws L \<Longrightarrow> seal L k pt ad = Inr ct \<Longrightarrow> unseal L k ct ad = Inr pt"
begin

lemma seal_unseal: "laws L \<Longrightarrow> key_ok k \<Longrightarrow> \<exists>ct. seal L k pt ad = Inr ct \<and> unseal L k ct ad = Inr pt"
  using seal_total unseal_seal by blast

text \<open>Distinct plaintexts never share a ciphertext under one key and associated data.\<close>

lemma seal_inj: "laws L \<Longrightarrow> seal L k pt ad = Inr ct \<Longrightarrow> seal L k pt' ad = Inr ct \<Longrightarrow> pt = pt'"
  using unseal_seal by (metis sum.inject(2))

end

interpretation aead: authenticated_encryption aead_laws aeadSeal aeadOpen "\<lambda>k. length k = 32"
  by unfold_locales (auto simp: aeadSeal_def aeadOpen_def aead_laws_def split: if_splits)

section \<open>Lemmas\<close>

text \<open>The symmetric chain: the key of a position and the chain that follows it.\<close>

definition messageKey :: "bytes option \<Rightarrow> bytes" where
  "messageKey ck = fst (chainStep ck)"

definition nextChain :: "bytes option \<Rightarrow> bytes option" where
  "nextChain ck = snd (chainStep ck)"

lemma chainStep_eq: "chainStep ck = (messageKey ck, nextChain ck)"
  by (simp add: messageKey_def nextChain_def)

lemma length_messageKey [simp]: "length (messageKey ck) = 32"
  by (simp add: messageKey_def chainStep_def hmacSum_def)

lemma nextChain_Some [simp]: "nextChain ck \<noteq> None"
  by (simp add: nextChain_def chainStep_def)

lemma rootKDF_ok:
  obtains rk ck where "rootKDF r d k = Inr (rk, ck)" and "length rk = 32" and "length ck = 32"
proof -
  obtain out where "hkdf_Key (d @ k) r rootKDFInfo 64 = Inr out" "length out = 64"
    by (rule hkdf_Key_ok [of 64]) auto
  then show ?thesis using that by (simp add: rootKDF_def)
qed

lemma rootKDF_length: "rootKDF r d k = Inr (rk, ck) \<Longrightarrow> length rk = 32 \<and> length ck = 32"
  using rootKDF_ok [of r d k] by (metis Pair_inject sum.inject(2))

text \<open>Initial states.\<close>

lemma InitAlice_Inr:
  assumes "InitAlice P key bobPub w = (Inr a, w')"
  obtains dhOut where "length (dhSelf a) = 32" and "ecdh_ECDH P (dhSelf a) bobPub = Inr dhOut"
    and "\<exists>ck. rootKDF key dhOut [] = Inr (RootKey a, ck) \<and> chainSend a = Some ck"
    and "dhRemote a = Some bobPub" and "chainRecv a = None" and "nSend a = 0" and "nRecv a = 0"
    and "pn a = 0" and "\<not> needsNewSendingChain a" and "skipped a = Map.empty"
    and "selfPendingKEMPriv a = None" and "peerAdvertisedKEMPub a = None"
    and "msgsSinceInject a = 0" and "MessageThreshold a = 50"
proof -
  obtain self r w1 s w2 dhOut rk ck where
    g: "ecdh_GenerateKey None w = (Inr (self, r), w1)" and
    s: "newState key w1 = (Inr s, w2)" and d: "ecdh_ECDH P self bobPub = Inr dhOut" and
    k: "rootKDF (RootKey s) dhOut [] = Inr (rk, ck)" and
    a: "a = s\<lparr>dhSelf := self, dhRemote := Some bobPub, RootKey := rk, chainSend := Some ck\<rparr>"
    using assms by (auto simp: InitAlice_def tryS_Inr)
  have "length self = 32" using g readFrom_length by (simp add: ecdh_GenerateKey_def)
  with s d k a that show ?thesis
    by (auto simp: newState_def tryS_Inr DefaultMessageThreshold_def)
qed

lemma InitBob_Inr:
  assumes "InitBob key priv w = (Inr b, w')"
  shows "RootKey b = key" and "dhSelf b = priv" and "dhRemote b = None" and "chainSend b = None"
    and "chainRecv b = None" and "nSend b = 0" and "nRecv b = 0" and "pn b = 0"
    and "\<not> needsNewSendingChain b" and "skipped b = Map.empty"
    and "selfPendingKEMPriv b = None" and "peerAdvertisedKEMPub b = None"
  using assms by (auto simp: InitBob_def newState_def tryS_Inr)

lemma InitBob_total: "\<exists>b w'. InitBob key priv w = (Inr b, w')"
  by (simp add: InitBob_def newState_def tryS_step)

text \<open>Sending on the current chain always succeeds.\<close>

definition plainHeader :: "primitives \<Rightarrow> State \<Rightarrow> Header" where
  "plainHeader P s = \<lparr>hdrDHPub = ecdh_PublicKey P (dhSelf s), hdrPN = pn s, hdrN = nSend s,
     hdrMLKEMPub = None, hdrMLKEMCiphertext = None\<rparr>"

definition advanceSend :: "State \<Rightarrow> State" where
  "advanceSend s = s\<lparr>chainSend := nextChain (chainSend s), nSend := nSend s + 1,
     msgsSinceInject := wrap64 (msgsSinceInject s + 1)\<rparr>"

lemma advanceSend_frame [simp]:
  "RootKey (advanceSend s) = RootKey s"
  "dhSelf (advanceSend s) = dhSelf s"
  "dhRemote (advanceSend s) = dhRemote s"
  "chainRecv (advanceSend s) = chainRecv s"
  "nRecv (advanceSend s) = nRecv s"
  "pn (advanceSend s) = pn s"
  "needsNewSendingChain (advanceSend s) = needsNewSendingChain s"
  "skipped (advanceSend s) = skipped s"
  "selfPendingKEMPriv (advanceSend s) = selfPendingKEMPriv s"
  "peerAdvertisedKEMPub (advanceSend s) = peerAdvertisedKEMPub s"
  by (simp_all add: advanceSend_def)

lemma nextSendKey_run: "nextSendKey s = (Inr (messageKey (chainSend s)), advanceSend s)"
  by (simp add: nextSendKey_def chainStep_eq advanceSend_def)

lemma EncryptMessage_continue:
  assumes "\<not> needsNewSendingChain s"
  shows "EncryptMessage P pt ad (s, w) =
    (Inr (plainHeader P s, chacha_seal P (messageKey (chainSend s)) zeroNonce pt
        (associatedDataWithHeader (plainHeader P s) ad)), (advanceSend s, w))"
  using assms
  by (simp add: EncryptMessage_def prepareSendingChain_def tryS_step liftT_run nextSendKey_run
      Let_def plainHeader_def aeadSeal_def)

text \<open>A message that is next on the known receiving chain, or whose key was skipped.\<close>

definition advanceRecv :: "State \<Rightarrow> State" where
  "advanceRecv s = s\<lparr>chainRecv := nextChain (chainRecv s), nRecv := nRecv s + 1\<rparr>"

lemma advanceRecv_frame [simp]:
  "RootKey (advanceRecv s) = RootKey s"
  "dhSelf (advanceRecv s) = dhSelf s"
  "dhRemote (advanceRecv s) = dhRemote s"
  "chainSend (advanceRecv s) = chainSend s"
  "nSend (advanceRecv s) = nSend s"
  "pn (advanceRecv s) = pn s"
  "needsNewSendingChain (advanceRecv s) = needsNewSendingChain s"
  "skipped (advanceRecv s) = skipped s"
  "selfPendingKEMPriv (advanceRecv s) = selfPendingKEMPriv s"
  "peerAdvertisedKEMPub (advanceRecv s) = peerAdvertisedKEMPub s"
  by (simp_all add: advanceRecv_def)

lemma plainHeader_advanceRecv [simp]: "plainHeader P (advanceRecv s) = plainHeader P s"
  by (simp add: plainHeader_def)

lemma nextRecvKey_run: "nextRecvKey s = (Inr (messageKey (chainRecv s)), advanceRecv s)"
  by (simp add: nextRecvKey_def chainStep_eq advanceRecv_def)

lemma skipLoop_done [simp]: "\<not> nRecv s < until \<Longrightarrow> skipLoop k until s = s"
  by (simp add: skipLoop.simps)

lemma skipMessageKeys_none:
  "until \<le> nRecv s \<Longrightarrow> chainRecv s = None \<or> dhRemote s \<noteq> None \<Longrightarrow> skipMessageKeys until s = (Inr (), s)"
  by (auto simp: skipMessageKeys_def MaxSkip_def)

lemma takeSkippedKey_None: "skipped s (hdrDHPub hdr, hdrN hdr) = None \<Longrightarrow> takeSkippedKey hdr s = (None, s)"
  by (simp add: takeSkippedKey_def)

lemma DecryptMessage_current:
  assumes "skipped s (hdrDHPub hdr, hdrN hdr) = None" and "dhRemote s = Some (hdrDHPub hdr)"
    and "hdrN hdr \<le> nRecv s"
  shows "DecryptMessage P hdr ct ad s =
    (aeadOpen P (messageKey (chainRecv s)) ct (associatedDataWithHeader hdr ad), advanceRecv s)"
  using assms
  by (simp add: DecryptMessage_def takeSkippedKey_None receivingKey_def enterNewKey_def tryS_step
      skipMessageKeys_none nextRecvKey_run)

lemma DecryptMessage_skipped:
  assumes "skipped s (hdrDHPub hdr, hdrN hdr) = Some mk"
  shows "DecryptMessage P hdr ct ad s =
    (aeadOpen P mk ct (associatedDataWithHeader hdr ad),
     s\<lparr>skipped := (skipped s)((hdrDHPub hdr, hdrN hdr) := None)\<rparr>)"
  using assms by (simp add: DecryptMessage_def takeSkippedKey_def)

text \<open>Starting a new sending chain, phase by phase.\<close>

definition answers :: "primitives \<Rightarrow> bytes option \<Rightarrow> bytes option \<Rightarrow> bytes \<Rightarrow> bool" where
  "answers P advertised ct ss \<longleftrightarrow>
     (case advertised of
        None \<Rightarrow> ct = None \<and> ss = []
      | Some pk \<Rightarrow> (\<exists>c. ct = Some c \<and> (\<forall>sk. mlkem_pair P pk sk \<longrightarrow> mlkem_DecapsulateTo P sk c = Inr ss)))"

definition advertises :: "primitives \<Rightarrow> bytes option \<Rightarrow> bytes option \<Rightarrow> bool" where
  "advertises P kp pending \<longleftrightarrow>
     (case kp of None \<Rightarrow> pending = None | Some pk \<Rightarrow> (\<exists>sk. pending = Some sk \<and> mlkem_pair P pk sk))"

text \<open>Weaker: an older private key may still be pending.\<close>

definition offers :: "primitives \<Rightarrow> bytes option \<Rightarrow> bytes option \<Rightarrow> bool" where
  "offers P kp pending \<longleftrightarrow> (\<forall>pk. kp = Some pk \<longrightarrow> (\<exists>sk. pending = Some sk \<and> mlkem_pair P pk sk))"

lemma respondToInjection_Inr:
  assumes "mlkem_laws P" and "respondToInjection P hdr (s, w) = (Inr (hdr', ss), (s', w'))"
  shows "s' = s\<lparr>peerAdvertisedKEMPub := None\<rparr> \<and>
    (\<exists>ct. answers P (peerAdvertisedKEMPub s) ct ss \<and>
      hdr' = (case ct of None \<Rightarrow> hdr | Some c \<Rightarrow> hdr\<lparr>hdrMLKEMCiphertext := Some c\<rparr>))"
proof (cases "peerAdvertisedKEMPub s")
  case None
  then show ?thesis using assms(2)
    by (auto simp: respondToInjection_def answers_def intro!: exI [of _ None] State.equality)
next
  case (Some pk)
  then obtain c w1 where e: "mlkem_EncapsulateTo P pk w = (Inr (c, ss), w')"
    and r: "s' = s\<lparr>peerAdvertisedKEMPub := None\<rparr>" "hdr' = hdr\<lparr>hdrMLKEMCiphertext := Some c\<rparr>"
    using assms(2) by (auto simp: respondToInjection_def tryS_Inr liftW_Inr split: prod.splits)
  have "\<forall>sk. mlkem_pair P pk sk \<longrightarrow> mlkem_DecapsulateTo P sk c = Inr ss"
    using encaps_decaps [OF assms(1) _ e] by blast
  with r Some show ?thesis by (auto simp: answers_def intro!: exI [of _ "Some c"])
qed

definition timeIsUp :: "State \<Rightarrow> world \<Rightarrow> bool" where
  "timeIsUp s w \<longleftrightarrow> msgsSinceInject s \<ge> MessageThreshold s \<or>
     timeSub (clock w (ticks w)) (lastInject s) \<ge> TimeThreshold s"

lemma injectionDue_run:
  "\<exists>w'. injectionDue (s, w) = (Inr (timeIsUp s w), (s, w'))"
  by (simp add: injectionDue_def timeIsUp_def tryS_step liftW_run)

text \<open>What the clock showed when it was last read.\<close>

definition lastReading :: "world \<Rightarrow> gotime" where
  "lastReading w = clock w (ticks w - 1)"

lemma initiateInjection_Inr:
  assumes "mlkem_laws P" and "initiateInjection P hdr (s, w) = (Inr hdr', (s', w'))"
  obtains pk sk now where "mlkem_pair P pk sk" and "hdr' = hdr\<lparr>hdrMLKEMPub := Some pk\<rparr>"
    and "s' = s\<lparr>selfPendingKEMPriv := Some sk, msgsSinceInject := 0, lastInject := now\<rparr>"
    and "now = lastReading w'"
proof -
  obtain pk sk r w1 where g: "mlkem_GenerateKeyPair P None w = (Inr ((pk, sk), r), w1)"
    using assms(2) by (auto simp: initiateInjection_def tryS_def liftW_def split: prod.splits sum.splits)
  then have "hdr' = hdr\<lparr>hdrMLKEMPub := Some pk\<rparr>"
    "s' = s\<lparr>selfPendingKEMPriv := Some sk, msgsSinceInject := 0, lastInject := clock w1 (ticks w1)\<rparr>"
    "clock w1 (ticks w1) = lastReading w'"
    using assms(2) by (auto simp: initiateInjection_def tryS_step liftW_run lastReading_def)
  moreover have "mlkem_pair P pk sk"
    using g by (auto simp: mlkem_GenerateKeyPair_def tryS_Inr mlkem_pair_def dest: readFrom_length)
  ultimately show ?thesis using that by blast
qed

text \<open>A whole new chain, with its first message.\<close>

definition newChainResult ::
  "primitives \<Rightarrow> State \<Rightarrow> bytes \<Rightarrow> bytes \<Rightarrow> bytes \<Rightarrow> Header \<Rightarrow> State \<Rightarrow> bool" where
  "newChainResult P s dhOut ss ck hdr s' \<longleftrightarrow>
     length (dhSelf s') = 32 \<and> dhRemote s \<noteq> None \<and>
     ecdh_ECDH P (dhSelf s') (the (dhRemote s)) = Inr dhOut \<and>
     rootKDF (RootKey s) dhOut ss = Inr (RootKey s', ck) \<and>
     chainSend s' = nextChain (Some ck) \<and> nSend s' = 1 \<and> pn s' = nSend s \<and>
     \<not> needsNewSendingChain s' \<and> dhRemote s' = dhRemote s \<and> chainRecv s' = chainRecv s \<and>
     nRecv s' = nRecv s \<and> skipped s' = skipped s \<and> peerAdvertisedKEMPub s' = None \<and>
     hdrDHPub hdr = ecdh_PublicKey P (dhSelf s') \<and> hdrPN hdr = nSend s \<and> hdrN hdr = 0 \<and>
     answers P (peerAdvertisedKEMPub s) (hdrMLKEMCiphertext hdr) ss \<and>
     offers P (hdrMLKEMPub hdr) (selfPendingKEMPriv s') \<and>
     (selfPendingKEMPriv s = None \<longrightarrow> advertises P (hdrMLKEMPub hdr) (selfPendingKEMPriv s'))"

text \<open>Drawing entropy leaves the clock alone.\<close>

lemma readRand_clock: "readRand n w = (r, w') \<Longrightarrow> clock w' = clock w \<and> ticks w' = ticks w"
  by (auto simp: readRand_def split: prod.splits)

lemma GenerateKey_clock:
  "ecdh_GenerateKey None w = (r, w') \<Longrightarrow> clock w' = clock w \<and> ticks w' = ticks w"
  by (auto simp: ecdh_GenerateKey_def readFrom_def tryS_def split: prod.splits sum.splits
      dest!: readRand_clock)

lemma respondToInjection_clock:
  "respondToInjection P hdr (s, w) = (Inr r, (s', w')) \<Longrightarrow> clock w' = clock w \<and> ticks w' = ticks w"
  by (auto simp: respondToInjection_def tryS_Inr liftW_Inr mlkem_EncapsulateTo_def
      split: option.splits prod.splits sum.splits dest!: readRand_clock)

lemma newChain_phases:
  assumes laws: "mlkem_laws P" and new: "needsNewSendingChain s"
    and run: "EncryptMessage P pt ad (s, w) = (Inr (hdr, ct), (s', w'))"
  obtains self dhOut c ss rk ck hb wc h1 s1 where "length self = 32"
    and "ecdhWithRemote P (s\<lparr>dhSelf := self\<rparr>) = Inr dhOut"
    and "answers P (peerAdvertisedKEMPub s) c ss" and "rootKDF (RootKey s) dhOut ss = Inr (rk, ck)"
    and "hdrMLKEMCiphertext hb = c" and "hdrMLKEMPub hb = None" and "hdrPN hb = nSend s"
    and "(if timeIsUp s w then initiateInjection P hb else ret hb)
      (s\<lparr>dhSelf := self, peerAdvertisedKEMPub := None, pn := nSend s, nSend := 0, RootKey := rk,
        chainSend := Some ck, needsNewSendingChain := False\<rparr>, wc) = (Inr h1, (s1, w'))"
    and "hdr = h1\<lparr>hdrDHPub := ecdh_PublicKey P (dhSelf s1), hdrN := nSend s1\<rparr>"
    and "s' = advanceSend s1"
    and "ct = chacha_seal P (messageKey (chainSend s1)) zeroNonce pt (associatedDataWithHeader hdr ad)"
proof -
  let ?h = "\<lparr>hdrDHPub = [], hdrPN = pn s, hdrN = 0, hdrMLKEMPub = None, hdrMLKEMCiphertext = None\<rparr>"
  obtain h1 s1 where start: "startSendingChain P ?h (s, w) = (Inr h1, (s1, w'))"
    and hdr: "hdr = h1\<lparr>hdrDHPub := ecdh_PublicKey P (dhSelf s1), hdrN := nSend s1\<rparr>"
    and s': "s' = advanceSend s1"
    and ct: "ct = chacha_seal P (messageKey (chainSend s1)) zeroNonce pt (associatedDataWithHeader hdr ad)"
    using run new
    by (auto simp: EncryptMessage_def prepareSendingChain_def tryS_Inr liftT_Inr nextSendKey_run
        Let_def aeadSeal_def)
  obtain self r wa dhOut hb ss sb wb where
    self: "ecdh_GenerateKey None w = (Inr (self, r), wa)" and
    dh: "ecdhWithRemote P (s\<lparr>dhSelf := self\<rparr>) = Inr dhOut" and
    resp: "respondToInjection P ?h (s\<lparr>dhSelf := self\<rparr>, wa) = (Inr (hb, ss), (sb, wb))" and
    rest: "tryS (liftT (sendingRootStep dhOut ss)) (\<lambda>_.
       tryS (liftT (modify (\<lambda>s. s\<lparr>needsNewSendingChain := False\<rparr>))) (\<lambda>_.
       tryS injectionDue (\<lambda>due.
       if due then initiateInjection P (hb\<lparr>hdrPN := pn (sb\<lparr>pn := nSend sb, nSend := 0\<rparr>)\<rparr>)
       else ret (hb\<lparr>hdrPN := pn (sb\<lparr>pn := nSend sb, nSend := 0\<rparr>)\<rparr>))))
       (sb\<lparr>pn := nSend sb, nSend := 0\<rparr>, wb) = (Inr h1, (s1, w'))"
    using start by (auto simp: startSendingChain_def tryS_Inr [where m = "liftW _"]
        tryS_Inr [where m = "liftT (\<lambda>s. (ecdhWithRemote P s, s))"]
        tryS_Inr [where m = "respondToInjection _ _"] liftW_Inr liftT_Inr)
  have len: "length self = 32" using self readFrom_length by (simp add: ecdh_GenerateKey_def)
  obtain c where sb: "sb = s\<lparr>dhSelf := self, peerAdvertisedKEMPub := None\<rparr>"
    and c: "answers P (peerAdvertisedKEMPub s) c ss"
    and hb: "hb = (case c of None \<Rightarrow> ?h | Some c \<Rightarrow> ?h\<lparr>hdrMLKEMCiphertext := Some c\<rparr>)"
    using respondToInjection_Inr [OF laws resp] by auto
  have hc: "hdrMLKEMCiphertext hb = c" "hdrMLKEMPub hb = None" using hb by (simp_all split: option.splits)
  obtain rk ck where kdf: "rootKDF (RootKey s) dhOut ss = Inr (rk, ck)" by (rule rootKDF_ok)
  let ?sc = "sb\<lparr>pn := nSend s, nSend := 0, RootKey := rk, chainSend := Some ck, needsNewSendingChain := False\<rparr>"
  have same: "timeIsUp ?sc wb = timeIsUp s w"
    using GenerateKey_clock [OF self] respondToInjection_clock [OF resp] by (simp add: timeIsUp_def sb)
  obtain wc where inj: "(if timeIsUp s w then initiateInjection P (hb\<lparr>hdrPN := nSend s\<rparr>)
      else ret (hb\<lparr>hdrPN := nSend s\<rparr>)) (?sc, wc) = (Inr h1, (s1, w'))"
    using rest injectionDue_run [of ?sc wb, unfolded same]
    by (auto simp: sb sendingRootStep_def kdf tryS_step liftT_run cong: if_cong)
  show ?thesis
    by (rule that [OF len dh c kdf _ _ _ _ hdr s' ct, of "hb\<lparr>hdrPN := nSend s\<rparr>" wc])
      (use inj hc in \<open>simp_all add: sb\<close>)
qed

lemma EncryptMessage_newChain:
  assumes laws: "mlkem_laws P" and new: "needsNewSendingChain s"
    and run: "EncryptMessage P pt ad (s, w) = (Inr (hdr, ct), (s', w'))"
  obtains dhOut ss ck where "newChainResult P s dhOut ss ck hdr s'"
    and "hdrMLKEMPub hdr \<noteq> None \<longleftrightarrow> timeIsUp s w"
    and "ct = chacha_seal P (messageKey (Some ck)) zeroNonce pt (associatedDataWithHeader hdr ad)"
proof -
  obtain self dhOut c ss rk ck hb wc h1 s1 where len: "length self = 32"
    and dh: "ecdhWithRemote P (s\<lparr>dhSelf := self\<rparr>) = Inr dhOut"
    and c: "answers P (peerAdvertisedKEMPub s) c ss" and kdf: "rootKDF (RootKey s) dhOut ss = Inr (rk, ck)"
    and hc: "hdrMLKEMCiphertext hb = c" "hdrMLKEMPub hb = None" "hdrPN hb = nSend s"
    and inj: "(if timeIsUp s w then initiateInjection P hb else ret hb)
      (s\<lparr>dhSelf := self, peerAdvertisedKEMPub := None, pn := nSend s, nSend := 0, RootKey := rk,
        chainSend := Some ck, needsNewSendingChain := False\<rparr>, wc) = (Inr h1, (s1, w'))" (is "_ (?sc, _) = _")
    and hdr: "hdr = h1\<lparr>hdrDHPub := ecdh_PublicKey P (dhSelf s1), hdrN := nSend s1\<rparr>"
    and s': "s' = advanceSend s1"
    and ct: "ct = chacha_seal P (messageKey (chainSend s1)) zeroNonce pt (associatedDataWithHeader hdr ad)"
    by (rule newChain_phases [OF laws new run])
  have s1: "(hdrMLKEMPub h1 \<noteq> None \<longleftrightarrow> timeIsUp s w) \<and> hdrPN h1 = nSend s \<and> hdrMLKEMCiphertext h1 = c \<and>
      offers P (hdrMLKEMPub h1) (selfPendingKEMPriv s1) \<and>
      (selfPendingKEMPriv s = None \<longrightarrow> advertises P (hdrMLKEMPub h1) (selfPendingKEMPriv s1)) \<and>
      dhSelf s1 = self \<and> dhRemote s1 = dhRemote s \<and> RootKey s1 = rk \<and> chainSend s1 = Some ck \<and>
      nSend s1 = 0 \<and> pn s1 = nSend s \<and> \<not> needsNewSendingChain s1 \<and> chainRecv s1 = chainRecv s \<and>
      nRecv s1 = nRecv s \<and> skipped s1 = skipped s \<and> peerAdvertisedKEMPub s1 = None"
  proof (cases "timeIsUp s w")
    case True
    then have "initiateInjection P hb (?sc, wc) = (Inr h1, (s1, w'))" using inj by simp
    then show ?thesis
      by (rule initiateInjection_Inr [OF laws]) (use True in \<open>simp add: advertises_def offers_def hc\<close>)
  next
    case False
    with inj have "h1 = hb" and "s1 = ?sc" by auto
    with False show ?thesis by (simp add: advertises_def offers_def hc)
  qed
  have "newChainResult P s dhOut ss ck hdr s'"
    unfolding newChainResult_def
    using len dh kdf c s1
    by (auto simp: s' advanceSend_def hdr ecdhWithRemote_def split: option.splits)
  moreover have "ct = chacha_seal P (messageKey (Some ck)) zeroNonce pt (associatedDataWithHeader hdr ad)"
    by (simp add: ct s1)
  moreover have "hdrMLKEMPub hdr \<noteq> None \<longleftrightarrow> timeIsUp s w" using s1 by (simp add: hdr)
  ultimately show ?thesis using that by blast
qed

text \<open>The first message of a new chain of the peer, none of the old chain being outstanding.\<close>

definition decapsulates :: "primitives \<Rightarrow> bytes option \<Rightarrow> bytes option \<Rightarrow> bytes \<Rightarrow> bool" where
  "decapsulates P pending ct ss \<longleftrightarrow>
     (case ct of
        None \<Rightarrow> ss = []
      | Some c \<Rightarrow> (\<exists>sk. pending = Some sk \<and> mlkem_DecapsulateTo P sk c = Inr ss))"

definition enterChain :: "Header \<Rightarrow> bytes \<Rightarrow> bytes \<Rightarrow> State \<Rightarrow> State" where
  "enterChain hdr rk ck s = s\<lparr>dhRemote := Some (hdrDHPub hdr), RootKey := rk, chainRecv := Some ck,
     nRecv := 0, needsNewSendingChain := True,
     selfPendingKEMPriv := (if hdrMLKEMCiphertext hdr = None then selfPendingKEMPriv s else None),
     peerAdvertisedKEMPub := (case hdrMLKEMPub hdr of None \<Rightarrow> peerAdvertisedKEMPub s | Some kp \<Rightarrow> Some kp)\<rparr>"

lemma consumeInjection_run:
  "decapsulates P (selfPendingKEMPriv s) (hdrMLKEMCiphertext hdr) ss \<Longrightarrow>
     consumeInjection P hdr s = (Inr ss,
       s\<lparr>selfPendingKEMPriv := (if hdrMLKEMCiphertext hdr = None then selfPendingKEMPriv s else None)\<rparr>)"
  by (auto simp: decapsulates_def consumeInjection_def split: option.splits)

lemma dhRatchetStep_run:
  assumes "length (hdrDHPub hdr) = 32"
    and "ecdh_ECDH P (dhSelf s) (hdrDHPub hdr) = Inr dhOut"
    and "decapsulates P (selfPendingKEMPriv s) (hdrMLKEMCiphertext hdr) ss"
    and "rootKDF (RootKey s) dhOut ss = Inr (rk, ck)"
    and "\<forall>kp. hdrMLKEMPub hdr = Some kp \<longrightarrow> mlkem_Unpack P kp = Inr kp"
  shows "dhRatchetStep P hdr s = (Inr (), enterChain hdr rk ck s)"
  using assms
  by (cases "hdrMLKEMPub hdr")
    (simp_all add: dhRatchetStep_def ecdh_NewPublicKey_def tryS_step consumeInjection_run
      ecdhWithRemote_def receivingRootStep_def recordInjection_def enterChain_def)

lemma DecryptMessage_newChain:
  assumes "skipped s (hdrDHPub hdr, hdrN hdr) = None" and "hdrN hdr = 0"
    and "dhRemote s \<noteq> Some (hdrDHPub hdr)" and "hdrPN hdr \<le> nRecv s"
    and "dhRatchetStep P hdr s = (Inr (), enterChain hdr rk ck s)"
  shows "DecryptMessage P hdr ct ad s =
    (aeadOpen P (messageKey (Some ck)) ct (associatedDataWithHeader hdr ad),
     advanceRecv (enterChain hdr rk ck s))"
proof -
  have "skipMessageKeys 0 (enterChain hdr rk ck s) = (Inr (), enterChain hdr rk ck s)"
    by (rule skipMessageKeys_none) (simp_all add: enterChain_def)
  moreover have "chainRecv (enterChain hdr rk ck s) = Some ck" by (simp add: enterChain_def)
  ultimately show ?thesis
    using assms
    by (cases "dhRemote s") (simp_all add: DecryptMessage_def takeSkippedKey_None receivingKey_def enterNewKey_def
        tryS_step skipMessageKeys_none nextRecvKey_run)
qed

end
