(* ===== verification/Conversation.thy ===== *)
theory Conversation
  imports Prelude
begin

text \<open>
  The environment of a two-party channel: both parties send and receive whenever they like, and
  each direction delivers in order. The interface \<open>fifo_channel\<close> states what a protocol must keep
  for this to be faithful; the theorem that it is follows once for all protocols.
\<close>

section \<open>Runs\<close>

datatype party = Initiator | Responder

fun peer :: "party \<Rightarrow> party" where
  "peer Initiator = Responder"
| "peer Responder = Initiator"

lemma peer_peer [simp]: "peer (peer p) = p"
  by (cases p) simp_all

lemma peer_neq [simp]: "peer p \<noteq> p" "p \<noteq> peer p"
  by (cases p; simp)+

lemma other_party: "q \<noteq> p \<Longrightarrow> q = peer p"
  by (cases p; cases q) simp_all

text \<open>
  \<open>Send p m ad\<close>: the application of \<open>p\<close> sends plaintext \<open>m\<close> with associated data \<open>ad\<close>;
  \<open>Deliver p\<close>: the oldest packet on its way to \<open>p\<close>, if any, reaches it.
\<close>

datatype event = Send party bytes bytes | Deliver party

text \<open>
  \<open>inflight p\<close> are the packets on their way to \<open>p\<close>, \<open>sent p\<close> the plaintexts \<open>p\<close> has sent and
  \<open>got p\<close> what decrypting at \<open>p\<close> returned. \<open>halted\<close> records that a send returned an error or was
  not \<open>fresh\<close>.
\<close>

record ('s, 'w, 'm) conv =
  cstate :: "party \<Rightarrow> 's"
  cworld :: "party \<Rightarrow> 'w"
  inflight :: "party \<Rightarrow> ('m \<times> bytes) list"
  sent :: "party \<Rightarrow> bytes list"
  got :: "party \<Rightarrow> (fault + bytes) list"
  halted :: bool

definition startConv :: "(party \<Rightarrow> 's) \<Rightarrow> (party \<Rightarrow> 'w) \<Rightarrow> ('s, 'w, 'm) conv" where
  "startConv st w = \<lparr>cstate = st, cworld = w, inflight = (\<lambda>_. []), sent = (\<lambda>_. []),
     got = (\<lambda>_. []), halted = False\<rparr>"

fun convStep ::
  "(bytes \<Rightarrow> bytes \<Rightarrow> ('s \<times> 'w, 'm) action) \<Rightarrow> ('m \<Rightarrow> bytes \<Rightarrow> ('s, bytes) action) \<Rightarrow>
   ('s \<Rightarrow> 'm \<Rightarrow> bool) \<Rightarrow> event \<Rightarrow> ('s, 'w, 'm) conv \<Rightarrow> ('s, 'w, 'm) conv" where
  "convStep enc dec fresh (Send p pt ad) c =
     (case enc pt ad (cstate c p, cworld c p) of
        (Inl _, (s, w)) \<Rightarrow>
          c\<lparr>cstate := (cstate c)(p := s), cworld := (cworld c)(p := w), halted := True\<rparr>
      | (Inr m, (s, w)) \<Rightarrow>
          c\<lparr>cstate := (cstate c)(p := s), cworld := (cworld c)(p := w),
            inflight := (inflight c)(peer p := inflight c (peer p) @ [(m, ad)]),
            sent := (sent c)(p := sent c p @ [pt]),
            halted := halted c \<or> \<not> fresh (cstate c p) m\<rparr>)"
| "convStep enc dec fresh (Deliver p) c =
     (case inflight c p of
        [] \<Rightarrow> c
      | (m, ad) # rest \<Rightarrow>
          (case dec m ad (cstate c p) of
             (r, s) \<Rightarrow> c\<lparr>cstate := (cstate c)(p := s), inflight := (inflight c)(p := rest),
                        got := (got c)(p := got c p @ [r])\<rparr>))"

lemma deliver_frame [simp]:
  "halted (convStep enc dec fresh (Deliver p) c) = halted c"
  "sent (convStep enc dec fresh (Deliver p) c) = sent c"
  "inflight (convStep enc dec fresh (Deliver p) c) = (inflight c)(p := tl (inflight c p))"
  by (auto split: list.splits prod.splits)

lemma deliver_all:
  "let d = fold (convStep enc dec fresh) (replicate n (Deliver p)) c in
     halted d = halted c \<and> sent d = sent c \<and> inflight d = (inflight c)(p := drop n (inflight c p))"
proof (induction n arbitrary: c)
  case (Suc n)
  then show ?case by (auto simp: Let_def drop_Suc fun_eq_iff simp del: convStep.simps(2))
qed simp

section \<open>The interface of a channel\<close>

text \<open>
  \<open>linked st q pts\<close>: the two states fit each other with the packets \<open>q p\<close> in flight to \<open>p\<close>,
  which carry the plaintexts \<open>pts p\<close>.
\<close>

locale fifo_channel =
  fixes enc :: "bytes \<Rightarrow> bytes \<Rightarrow> ('s \<times> 'w, 'm) action"
    and dec :: "'m \<Rightarrow> bytes \<Rightarrow> ('s, bytes) action"
    and fresh :: "'s \<Rightarrow> 'm \<Rightarrow> bool"
    and linked :: "(party \<Rightarrow> 's) \<Rightarrow> (party \<Rightarrow> ('m \<times> bytes) list) \<Rightarrow> (party \<Rightarrow> bytes list) \<Rightarrow> bool"
  assumes linked_send: "linked st q pts \<Longrightarrow> enc pt ad (st p, w) = (Inr m, (s, w')) \<Longrightarrow>
      fresh (st p) m \<Longrightarrow>
      linked (st(p := s)) (q(peer p := q (peer p) @ [(m, ad)])) (pts(peer p := pts (peer p) @ [pt]))"
    and linked_deliver: "linked st q pts \<Longrightarrow> q p = (m, ad) # rest \<Longrightarrow>
      \<exists>pt ps s. pts p = pt # ps \<and> dec m ad (st p) = (Inr pt, s) \<and>
        linked (st(p := s)) (q(p := rest)) (pts(p := ps))"

text \<open>Unless halted: what was got is what was sent, up to what is in flight.\<close>

definition faithful ::
  "((party \<Rightarrow> 's) \<Rightarrow> (party \<Rightarrow> ('m \<times> bytes) list) \<Rightarrow> (party \<Rightarrow> bytes list) \<Rightarrow> bool) \<Rightarrow>
   ('s, 'w, 'm) conv \<Rightarrow> bool" where
  "faithful linked c \<longleftrightarrow> halted c \<or>
     (\<exists>pts. linked (cstate c) (inflight c) pts \<and>
        (\<forall>p. length (pts p) = length (inflight c p) \<and>
             map Inr (sent c (peer p)) = got c p @ map Inr (pts p)))"

lemma faithfulI:
  "linked (cstate c) (inflight c) pts \<Longrightarrow>
     (\<And>p. length (pts p) = length (inflight c p) \<and>
        map Inr (sent c (peer p)) = got c p @ map Inr (pts p)) \<Longrightarrow> faithful linked c"
  by (auto simp: faithful_def)

sublocale fifo_channel \<subseteq> run: guarded_machine "convStep enc dec fresh" "faithful linked"
proof
  fix c :: "('s, 'w, 'm) conv" and ev
  assume c: "faithful linked c"
  show "faithful linked (convStep enc dec fresh ev c)"
  proof (cases ev)
    case (Send p pt ad)
    obtain r s w where e: "enc pt ad (cstate c p, cworld c p) = (r, (s, w))"
      by (metis prod.exhaust)
    show ?thesis
    proof (cases r)
      case (Inl f)
      then show ?thesis by (simp add: Send e faithful_def)
    next
      case (Inr m)
      show ?thesis
      proof (cases "halted c \<or> \<not> fresh (cstate c p) m")
        case True
        then show ?thesis by (simp add: Send e Inr faithful_def)
      next
        case False
        with c obtain pts where l: "linked (cstate c) (inflight c) pts"
          and log: "\<And>p. length (pts p) = length (inflight c p) \<and>
             map Inr (sent c (peer p)) = got c p @ map Inr (pts p)"
          by (auto simp: faithful_def)
        have "linked ((cstate c)(p := s)) ((inflight c)(peer p := inflight c (peer p) @ [(m, ad)]))
            (pts(peer p := pts (peer p) @ [pt]))"
          using linked_send [OF l] e Inr False by blast
        moreover have "length ((pts(peer p := pts (peer p) @ [pt])) q) =
              length (((inflight c)(peer p := inflight c (peer p) @ [(m, ad)])) q) \<and>
            map Inr (((sent c)(p := sent c p @ [pt])) (peer q)) =
              got c q @ map Inr ((pts(peer p := pts (peer p) @ [pt])) q)" for q
          using log [of q] log [of "peer p"] by (cases "q = p") (auto dest: other_party)
        ultimately show ?thesis
          by (intro faithfulI [where pts = "pts(peer p := pts (peer p) @ [pt])"])
            (simp_all add: Send e Inr del: fun_upd_apply)
      qed
    qed
  next
    case (Deliver p)
    show ?thesis
    proof (cases "halted c \<or> inflight c p = []")
      case True
      with c show ?thesis
        by (auto simp: Deliver faithful_def split: list.splits prod.splits)
    next
      case False
      then obtain m ad rest where q: "inflight c p = (m, ad) # rest"
        by (cases "inflight c p") auto
      from False c obtain pts where l: "linked (cstate c) (inflight c) pts"
        and log: "\<And>p. length (pts p) = length (inflight c p) \<and>
             map Inr (sent c (peer p)) = got c p @ map Inr (pts p)"
        by (auto simp: faithful_def)
      obtain pt ps s where d: "pts p = pt # ps" "dec m ad (cstate c p) = (Inr pt, s)"
        "linked ((cstate c)(p := s)) ((inflight c)(p := rest)) (pts(p := ps))"
        using linked_deliver [OF l q] by blast
      have "length ((pts(p := ps)) r) = length (((inflight c)(p := rest)) r) \<and>
          map Inr (sent c (peer r)) = ((got c)(p := got c p @ [Inr pt])) r @ map Inr ((pts(p := ps)) r)"
        for r using log [of r] q d(1) by (cases "r = p") auto
      with d(2,3) q show ?thesis
        by (intro faithfulI [where pts = "pts(p := ps)"]) (simp_all add: Deliver del: fun_upd_apply)
    qed
  qed
qed

context fifo_channel
begin

text \<open>The k-th result of decrypting at a party is the k-th plaintext its peer sent.\<close>

lemma conversation_faithful:
  assumes "linked st (\<lambda>_. []) (\<lambda>_. [])"
    and "\<not> halted (fold (convStep enc dec fresh) evs (startConv st w))"
  shows "let c = fold (convStep enc dec fresh) evs (startConv st w) in
    got c p = map Inr (take (length (got c p)) (sent c (peer p))) \<and>
    length (sent c (peer p)) = length (got c p) + length (inflight c p)"
proof -
  let ?c = "fold (convStep enc dec fresh) evs (startConv st w)"
  have "faithful linked (startConv st w)"
    using assms(1) by (auto simp: faithful_def startConv_def)
  then have "faithful linked ?c" by (rule run.inv_run)
  with assms(2) obtain pts where
    log: "length (pts p) = length (inflight ?c p)" "map Inr (sent ?c (peer p)) = got ?c p @ map Inr (pts p)"
    by (auto simp: faithful_def)
  have "map Inr (take (length (got ?c p)) (sent ?c (peer p))) = got ?c p"
    using arg_cong [OF log(2), of "take (length (got ?c p))"] by (simp add: take_map)
  moreover have "length (sent ?c (peer p)) = length (got ?c p) + length (inflight ?c p)"
    using arg_cong [OF log(2), of length] log(1) by simp
  ultimately show ?thesis by (simp add: Let_def)
qed

text \<open>Delivering what is in flight completes the conversation: everything sent has been got.\<close>

lemma conversation_drains:
  assumes "linked st (\<lambda>_. []) (\<lambda>_. [])" and "c = fold (convStep enc dec fresh) evs (startConv st w)"
    and "\<not> halted c" and "length (inflight c Initiator) \<le> m" and "length (inflight c Responder) \<le> n"
    and "d = fold (convStep enc dec fresh) (replicate m (Deliver Initiator) @ replicate n (Deliver Responder)) c"
  shows "got d p = map Inr (sent c (peer p)) \<and> inflight d p = [] \<and> \<not> halted d"
proof -
  let ?more = "replicate m (Deliver Initiator) @ replicate n (Deliver Responder)"
  have d: "d = fold (convStep enc dec fresh) (evs @ ?more) (startConv st w)"
    by (simp add: assms(2,6))
  have all: "\<not> halted d" "sent d = sent c" "inflight d = (\<lambda>_. [])"
    using deliver_all [of enc dec fresh m Initiator c]
      deliver_all [of enc dec fresh n Responder "fold (convStep enc dec fresh) (replicate m (Deliver Initiator)) c"]
      assms(3-5) by (auto simp: assms(6) Let_def fun_eq_iff) (metis party.exhaust)
  have "got d p = map Inr (take (length (got d p)) (sent d (peer p)))"
    and "length (sent d (peer p)) = length (got d p) + length (inflight d p)"
    using conversation_faithful [OF assms(1), of "evs @ ?more" w p, folded d, OF all(1)]
    by (simp_all only: Let_def)
  then have "got d p = map Inr (sent d (peer p))" using all(3) by (metis add_0_right list.size(3) take_all order_refl)
  with all show ?thesis by simp
qed

end

end
