(* ===== verification/RatchetSync.thy ===== *)
theory RatchetSync
  imports Ratchet Conversation
begin

text \<open>
  Two \<open>Ratchet\<close> states in conversation: the invariant that ties them to the packets in flight, its
  preservation by sending (on the current chain, or starting a new one with its ML-KEM exchange)
  and by delivery, and the interpretation of \<open>fifo_channel\<close> that turns it into the correctness of
  every in-order conversation.
\<close>

type_synonym packet = "(Header \<times> bytes) \<times> bytes"

definition ratchetPub :: "primitives \<Rightarrow> State \<Rightarrow> bytes" where
  "ratchetPub P s = ecdh_PublicKey P (dhSelf s)"

section \<open>The invariant\<close>

text \<open>Consecutive messages of one sending chain from position \<open>n\<close> with chain key \<open>ck\<close>.\<close>

fun carries ::
  "primitives \<Rightarrow> bytes \<Rightarrow> bytes option \<Rightarrow> u32 \<Rightarrow> packet list \<Rightarrow> bytes list \<Rightarrow> bool" where
  "carries P pub ck n [] pts = (pts = [])"
| "carries P pub ck n (((hdr, ct), ad) # q) pts =
     (case pts of
        [] \<Rightarrow> False
      | pt # rest \<Rightarrow> hdrDHPub hdr = pub \<and> hdrN hdr = n \<and>
          ct = chacha_seal P (messageKey ck) zeroNonce pt (associatedDataWithHeader hdr ad) \<and>
          carries P pub (nextChain ck) (n + 1) q rest)"

lemma carries_length: "carries P pub ck n q pts \<Longrightarrow> length pts = length q"
  by (induction P pub ck n q pts rule: carries.induct) (auto split: list.splits)

lemma carries_snoc:
  "carries P pub ck n q pts \<Longrightarrow> hdrDHPub hdr = pub \<Longrightarrow> hdrN hdr = n + of_nat (length q) \<Longrightarrow>
     ct = chacha_seal P (messageKey ((nextChain ^^ length q) ck)) zeroNonce pt (associatedDataWithHeader hdr ad) \<Longrightarrow>
     carries P pub ck n (q @ [((hdr, ct), ad)]) (pts @ [pt])"
  by (induction P pub ck n q pts rule: carries.induct)
    (auto split: list.splits simp: funpow_swap1 add_ac)

text \<open>\<open>y\<close> knows the chain \<open>x\<close> is sending on; \<open>q\<close> is what it has yet to receive of it.\<close>

definition synced :: "primitives \<Rightarrow> State \<Rightarrow> State \<Rightarrow> packet list \<Rightarrow> bytes list \<Rightarrow> bool" where
  "synced P x y q pts \<longleftrightarrow> dhRemote y = Some (ratchetPub P x) \<and>
     carries P (ratchetPub P x) (chainRecv y) (nRecv y) q pts \<and>
     chainSend x = (nextChain ^^ length q) (chainRecv y) \<and> nSend x = nRecv y + of_nat (length q)"

text \<open>
  \<open>x\<close> has started a chain \<open>y\<close> has not heard of: a tail \<open>q1\<close> of the chain \<open>y\<close> knows may still be in
  flight, then \<open>q2\<close> of the new one, whose first header opens the new chain for \<open>y\<close>.
\<close>

definition opens :: "primitives \<Rightarrow> State \<Rightarrow> State \<Rightarrow> bytes \<Rightarrow> Header \<Rightarrow> bool" where
  "opens P x y ss h \<longleftrightarrow> hdrPN h = pn x \<and>
     advertises P (hdrMLKEMPub h) (selfPendingKEMPriv x) \<and>
     decapsulates P (selfPendingKEMPriv y) (hdrMLKEMCiphertext h) ss \<and>
     (hdrMLKEMCiphertext h = None \<longrightarrow> selfPendingKEMPriv y = None)"

definition firstHeader :: "primitives \<Rightarrow> State \<Rightarrow> packet list \<Rightarrow> Header" where
  "firstHeader P x q = (case q of [] \<Rightarrow> plainHeader P x | m # _ \<Rightarrow> fst (fst m))"

definition oldTail :: "primitives \<Rightarrow> State \<Rightarrow> State \<Rightarrow> packet list \<Rightarrow> bytes list \<Rightarrow> bool" where
  "oldTail P x y q pts \<longleftrightarrow>
     (dhRemote y = None \<and> q = [] \<and> pts = [] \<or>
      (\<exists>old. dhRemote y = Some old \<and> old \<noteq> ratchetPub P x \<and>
         carries P old (chainRecv y) (nRecv y) q pts)) \<and>
     pn x = nRecv y + of_nat (length q)"

definition newHead ::
  "primitives \<Rightarrow> State \<Rightarrow> State \<Rightarrow> packet list \<Rightarrow> bytes list \<Rightarrow> bool" where
  "newHead P x y q pts \<longleftrightarrow> (\<exists>dhOut ss ck. ecdh_ECDH P (dhSelf y) (ratchetPub P x) = Inr dhOut \<and>
     rootKDF (RootKey y) dhOut ss = Inr (RootKey x, ck) \<and>
     carries P (ratchetPub P x) (Some ck) 0 q pts \<and>
     chainSend x = (nextChain ^^ length q) (Some ck) \<and> nSend x = of_nat (length q) \<and>
     opens P x y ss (firstHeader P x q))"

definition leads :: "primitives \<Rightarrow> State \<Rightarrow> State \<Rightarrow> packet list \<Rightarrow> bytes list \<Rightarrow> bool" where
  "leads P x y q pts \<longleftrightarrow> (\<exists>q1 p1 q2 p2. q = q1 @ q2 \<and> pts = p1 @ p2 \<and>
     oldTail P x y q1 p1 \<and> newHead P x y q2 p2)"

definition balanced :: "primitives \<Rightarrow> State \<Rightarrow> State \<Rightarrow> packet list \<Rightarrow> bytes list \<Rightarrow>
    packet list \<Rightarrow> bytes list \<Rightarrow> bool" where
  "balanced P x y qy ptsy qx ptsx \<longleftrightarrow>
     \<not> needsNewSendingChain x \<and> needsNewSendingChain y \<and> RootKey x = RootKey y \<and>
     synced P x y qy ptsy \<and> synced P y x qx ptsx \<and>
     selfPendingKEMPriv y = None \<and> peerAdvertisedKEMPub x = None \<and>
     advertises P (peerAdvertisedKEMPub y) (selfPendingKEMPriv x)"

definition ahead :: "primitives \<Rightarrow> State \<Rightarrow> State \<Rightarrow> packet list \<Rightarrow> bytes list \<Rightarrow>
    packet list \<Rightarrow> bytes list \<Rightarrow> bool" where
  "ahead P x y qy ptsy qx ptsx \<longleftrightarrow>
     \<not> needsNewSendingChain x \<and> \<not> needsNewSendingChain y \<and>
     leads P x y qy ptsy \<and> synced P y x qx ptsx \<and>
     peerAdvertisedKEMPub x = None \<and> peerAdvertisedKEMPub y = None"

definition wellKeyed :: "State \<Rightarrow> bool" where
  "wellKeyed s \<longleftrightarrow> length (dhSelf s) = 32 \<and> skipped s = Map.empty"

definition paired ::
  "primitives \<Rightarrow> (party \<Rightarrow> State) \<Rightarrow> (party \<Rightarrow> packet list) \<Rightarrow> (party \<Rightarrow> bytes list) \<Rightarrow> bool" where
  "paired P st q pts \<longleftrightarrow> (\<forall>p. wellKeyed (st p)) \<and>
     (\<exists>p. balanced P (st p) (st (peer p)) (q (peer p)) (pts (peer p)) (q p) (pts p) \<or>
          ahead P (st p) (st (peer p)) (q (peer p)) (pts (peer p)) (q p) (pts p))"

text \<open>A new chain must come with a ratchet key other than the one the peer holds.\<close>

definition newKeyIsNew :: "primitives \<Rightarrow> State \<Rightarrow> Header \<times> bytes \<Rightarrow> bool" where
  "newKeyIsNew P s m \<longleftrightarrow> (needsNewSendingChain s \<longrightarrow> hdrDHPub (fst m) \<noteq> ratchetPub P s)"

section \<open>Sending on the current chain\<close>

lemma ratchetPub_simps [simp]:
  "ratchetPub P (advanceSend s) = ratchetPub P s"
  "ratchetPub P (advanceRecv s) = ratchetPub P s"
  "ratchetPub P (enterChain h rk ck s) = ratchetPub P s"
  by (simp_all add: ratchetPub_def advanceSend_def advanceRecv_def enterChain_def)

definition sealedNext :: "primitives \<Rightarrow> State \<Rightarrow> bytes \<Rightarrow> bytes \<Rightarrow> packet" where
  "sealedNext P s pt ad = ((plainHeader P s, chacha_seal P (messageKey (chainSend s)) zeroNonce pt
     (associatedDataWithHeader (plainHeader P s) ad)), ad)"

lemma synced_send:
  "synced P x y q pts \<Longrightarrow> synced P (advanceSend x) y (q @ [sealedNext P x pt ad]) (pts @ [pt])"
  unfolding synced_def sealedNext_def
  by (auto intro!: carries_snoc simp: plainHeader_def ratchetPub_def advanceSend_def)

lemma synced_send_other: "synced P y x q pts \<Longrightarrow> synced P y (advanceSend x) q pts"
  by (simp add: synced_def)

lemma plainHeader_opens [simp]: "firstHeader P (advanceSend x) (m # q) = firstHeader P x (m # q)"
  by (simp add: firstHeader_def)

lemma newHead_send:
  assumes "newHead P x y q pts"
  shows "newHead P (advanceSend x) y (q @ [sealedNext P x pt ad]) (pts @ [pt])"
proof -
  obtain dhOut ss ck where h: "ecdh_ECDH P (dhSelf y) (ratchetPub P x) = Inr dhOut"
    "rootKDF (RootKey y) dhOut ss = Inr (RootKey x, ck)"
    "carries P (ratchetPub P x) (Some ck) 0 q pts"
    "chainSend x = (nextChain ^^ length q) (Some ck)" "nSend x = of_nat (length q)"
    "opens P x y ss (firstHeader P x q)"
    using assms by (auto simp: newHead_def)
  have "firstHeader P (advanceSend x) (q @ [sealedNext P x pt ad]) = firstHeader P x q"
    by (cases q) (simp_all add: firstHeader_def sealedNext_def)
  moreover have "carries P (ratchetPub P x) (Some ck) 0 (q @ [sealedNext P x pt ad]) (pts @ [pt])"
    unfolding sealedNext_def
    by (rule carries_snoc [OF h(3)]) (simp_all add: plainHeader_def ratchetPub_def h(4,5))
  ultimately show ?thesis
    unfolding newHead_def
    using h by (intro exI [of _ dhOut] exI [of _ ss] exI [of _ ck])
      (simp add: advanceSend_def opens_def ratchetPub_def)
qed

lemma leads_send:
  assumes "leads P x y q pts"
  shows "leads P (advanceSend x) y (q @ [sealedNext P x pt ad]) (pts @ [pt])"
proof -
  obtain q1 p1 q2 p2 where "q = q1 @ q2" "pts = p1 @ p2" "oldTail P x y q1 p1" "newHead P x y q2 p2"
    using assms by (auto simp: leads_def)
  moreover from this have "oldTail P (advanceSend x) y q1 p1"
    by (simp add: oldTail_def)
  ultimately show ?thesis
    unfolding leads_def using newHead_send by (metis append.assoc)
qed

lemma leads_send_other: "leads P y x q pts \<Longrightarrow> leads P y (advanceSend x) q pts"
  by (simp add: leads_def oldTail_def newHead_def opens_def)

section \<open>Starting a new chain\<close>

lemma advertises_decapsulates:
  assumes "answers P adv ct ss" and "advertises P adv pending"
  shows "decapsulates P pending ct ss" and "ct = None \<Longrightarrow> pending = None"
  using assms by (auto simp: answers_def advertises_def decapsulates_def split: option.splits)

lemma start_chain:
  assumes laws: "x25519_laws P" and wk: "wellKeyed x" "wellKeyed y"
    and bal: "balanced P x y qy ptsy qx ptsx"
    and new: "newChainResult P y dhOut ss ck hdr y'"
    and ct: "ct = chacha_seal P (messageKey (Some ck)) zeroNonce pt (associatedDataWithHeader hdr ad)"
    and fresh: "newKeyIsNew P y (hdr, ct)"
  shows "ahead P y' x (qx @ [((hdr, ct), ad)]) (ptsx @ [pt]) qy ptsy"
proof -
  note b = bal [unfolded balanced_def synced_def]
  note n = new [unfolded newChainResult_def]
  have pub: "ratchetPub P y' = hdrDHPub hdr" using n by (simp add: ratchetPub_def)
  have "oldTail P y' x qx ptsx"
    using b n fresh pub by (simp add: oldTail_def newKeyIsNew_def)
  moreover have "newHead P y' x [((hdr, ct), ad)] [pt]"
    unfolding newHead_def
  proof (intro exI conjI)
    show "ecdh_ECDH P (dhSelf x) (ratchetPub P y') = Inr dhOut"
      using n b wk x25519_commutes [OF laws, of "dhSelf y'" "dhSelf x"]
      by (simp add: ratchetPub_def wellKeyed_def)
    show "rootKDF (RootKey x) dhOut ss = Inr (RootKey y', ck)" using n b by simp
    show "carries P (ratchetPub P y') (Some ck) 0 [((hdr, ct), ad)] [pt]"
      using n by (simp add: pub ct)
    have adv: "answers P (peerAdvertisedKEMPub y) (hdrMLKEMCiphertext hdr) ss"
      "advertises P (peerAdvertisedKEMPub y) (selfPendingKEMPriv x)" using n b by simp_all
    show "opens P y' x ss (firstHeader P y' [((hdr, ct), ad)])"
      using advertises_decapsulates [OF adv] n b by (simp add: opens_def firstHeader_def)
  qed (use n in simp_all)
  ultimately have "leads P y' x (qx @ [((hdr, ct), ad)]) (ptsx @ [pt])" by (auto simp: leads_def)
  moreover have "synced P x y' qy ptsy" using b n by (simp add: synced_def)
  ultimately show ?thesis using b n by (simp add: ahead_def)
qed

section \<open>Delivery\<close>

lemma carries_head:
  assumes "carries P pub ck n (((hdr, ct), ad) # q) pts"
  obtains pt ps where "pts = pt # ps" and "hdrDHPub hdr = pub" and "hdrN hdr = n"
    and "ct = chacha_seal P (messageKey ck) zeroNonce pt (associatedDataWithHeader hdr ad)"
    and "carries P pub (nextChain ck) (n + 1) q ps"
  using assms by (auto split: list.splits)

lemma open_sealed:
  "aead_laws P \<Longrightarrow> length k = 32 \<Longrightarrow> aeadOpen P k (chacha_seal P k zeroNonce pt ad) ad = Inr pt"
  by (rule aead.unseal_seal [where pt = pt]) (simp_all add: aeadSeal_def)

lemma deliver_known:
  assumes "aead_laws P" and "wellKeyed y" and "dhRemote y = Some pub"
    and "carries P pub (chainRecv y) (nRecv y) (((hdr, ct), ad) # q) pts"
  obtains pt ps where "pts = pt # ps" and "DecryptMessage P hdr ct ad y = (Inr pt, advanceRecv y)"
    and "carries P pub (chainRecv (advanceRecv y)) (nRecv (advanceRecv y)) q ps"
proof -
  from assms(4) obtain pt ps where h: "pts = pt # ps" "hdrDHPub hdr = pub" "hdrN hdr = nRecv y"
    "ct = chacha_seal P (messageKey (chainRecv y)) zeroNonce pt (associatedDataWithHeader hdr ad)"
    "carries P pub (nextChain (chainRecv y)) (nRecv y + 1) q ps"
    by (rule carries_head)
  have "DecryptMessage P hdr ct ad y = (Inr pt, advanceRecv y)"
    using h(2-4) assms(2,3)
    by (subst DecryptMessage_current) (simp_all add: wellKeyed_def open_sealed [OF assms(1)])
  with h show ?thesis by (intro that) (simp_all add: advanceRecv_def)
qed

lemma synced_deliver:
  assumes "aead_laws P" and "wellKeyed y" and "synced P x y (((hdr, ct), ad) # q) pts"
  obtains pt ps where "pts = pt # ps" and "DecryptMessage P hdr ct ad y = (Inr pt, advanceRecv y)"
    and "synced P x (advanceRecv y) q ps"
proof -
  note s = assms(3) [unfolded synced_def]
  from s obtain pt ps where d: "pts = pt # ps" "DecryptMessage P hdr ct ad y = (Inr pt, advanceRecv y)"
    "carries P (ratchetPub P x) (chainRecv (advanceRecv y)) (nRecv (advanceRecv y)) q ps"
    using deliver_known [OF assms(1,2)] by metis
  have "synced P x (advanceRecv y) q ps"
    using s d(3) by (simp add: synced_def advanceRecv_def funpow_swap1)
  with d(1,2) show ?thesis by (rule that)
qed

lemma synced_deliver_other: "synced P y x q pts \<Longrightarrow> synced P (advanceRecv y) x q pts"
  by (simp add: synced_def)

lemma oldTail_deliver:
  assumes "aead_laws P" and "wellKeyed y" and "oldTail P x y (((hdr, ct), ad) # q) pts"
  obtains pt ps where "pts = pt # ps" and "DecryptMessage P hdr ct ad y = (Inr pt, advanceRecv y)"
    and "oldTail P x (advanceRecv y) q ps"
proof -
  from assms(3) obtain old where o: "dhRemote y = Some old" "old \<noteq> ratchetPub P x"
    "carries P old (chainRecv y) (nRecv y) (((hdr, ct), ad) # q) pts"
    "pn x = nRecv y + 1 + of_nat (length q)"
    by (auto simp: oldTail_def add_ac split: option.splits)
  obtain pt ps where d: "pts = pt # ps" "DecryptMessage P hdr ct ad y = (Inr pt, advanceRecv y)"
    "carries P old (chainRecv (advanceRecv y)) (nRecv (advanceRecv y)) q ps"
    by (rule deliver_known [OF assms(1,2) o(1,3)])
  have "oldTail P x (advanceRecv y) q ps"
    using o d(3) by (simp add: oldTail_def advanceRecv_def)
  with d(1,2) show ?thesis by (rule that)
qed

lemma newHead_deliver_other: "newHead P x y q pts \<Longrightarrow> newHead P x (advanceRecv y) q pts"
  by (simp add: newHead_def advanceRecv_def opens_def)

lemma firstHeader_advanceRecv [simp]: "firstHeader P (advanceRecv x) q = firstHeader P x q"
  by (simp add: firstHeader_def split: list.split)

lemma leads_deliver_other: "leads P y x q pts \<Longrightarrow> leads P (advanceRecv y) x q pts"
  by (simp add: leads_def oldTail_def newHead_def opens_def)

text \<open>The first packet of a new chain: the receiver's root key catches up.\<close>

lemma enter_chain:
  assumes laws: "lawful P" and wk: "wellKeyed x" "wellKeyed y"
    and old: "oldTail P x y [] []" and hd: "newHead P x y (((hdr, ct), ad) # q) pts"
    and xy: "synced P y x qx ptsx" "peerAdvertisedKEMPub x = None" "peerAdvertisedKEMPub y = None"
    "\<not> needsNewSendingChain x"
  obtains pt ps y' where "pts = pt # ps" and "DecryptMessage P hdr ct ad y = (Inr pt, y')"
    and "wellKeyed y'" and "balanced P x y' q ps qx ptsx"
proof -
  have al: "aead_laws P" and ml: "mlkem_laws P" and xl: "x25519_laws P"
    using laws by (simp_all add: lawful_def)
  obtain dhOut ss ck where h: "ecdh_ECDH P (dhSelf y) (ratchetPub P x) = Inr dhOut"
    "rootKDF (RootKey y) dhOut ss = Inr (RootKey x, ck)"
    "carries P (ratchetPub P x) (Some ck) 0 (((hdr, ct), ad) # q) pts"
    "chainSend x = (nextChain ^^ Suc (length q)) (Some ck)" "nSend x = of_nat (Suc (length q))"
    "opens P x y ss hdr"
    using hd by (auto simp: newHead_def firstHeader_def)
  from h(3) obtain pt ps where c: "pts = pt # ps" "hdrDHPub hdr = ratchetPub P x" "hdrN hdr = 0"
    "ct = chacha_seal P (messageKey (Some ck)) zeroNonce pt (associatedDataWithHeader hdr ad)"
    "carries P (ratchetPub P x) (nextChain (Some ck)) (0 + 1) q ps"
    by (rule carries_head)
  let ?y = "enterChain hdr (RootKey x) ck y"
  have step: "dhRatchetStep P hdr y = (Inr (), ?y)"
  proof (rule dhRatchetStep_run)
    show "length (hdrDHPub hdr) = 32" by (simp add: c(2) ratchetPub_def length_ecdh_PublicKey [OF xl])
    show "\<forall>kp. hdrMLKEMPub hdr = Some kp \<longrightarrow> mlkem_Unpack P kp = Inr kp"
      using h(6) mlkem_Unpack_pair [OF ml] by (auto simp: opens_def advertises_def)
  qed (use h c in \<open>auto simp: opens_def\<close>)
  have "DecryptMessage P hdr ct ad y = (Inr pt, advanceRecv ?y)"
    using wk(2) old h(6) c step
    by (subst DecryptMessage_newChain)
      (auto simp: wellKeyed_def oldTail_def opens_def open_sealed [OF al] split: option.splits)
  moreover have "wellKeyed (advanceRecv ?y)"
    using wk(2) by (simp add: wellKeyed_def advanceRecv_def enterChain_def)
  moreover have "synced P x (advanceRecv ?y) q ps"
    using h c by (simp add: synced_def advanceRecv_def enterChain_def funpow_swap1)
  then have "balanced P x (advanceRecv ?y) q ps qx ptsx"
    using xy h(6) by (cases "hdrMLKEMPub hdr")
      (auto simp: balanced_def synced_def advanceRecv_def enterChain_def ratchetPub_def opens_def)
  ultimately show ?thesis using c(1) by (intro that)
qed

section \<open>The ratchet is a faithful channel\<close>

lemma wellKeyed_advance [simp]:
  "wellKeyed (advanceSend s) = wellKeyed s" "wellKeyed (advanceRecv s) = wellKeyed s"
  by (simp_all add: wellKeyed_def)

lemma balanced_send:
  "balanced P x y qy ptsy qx ptsx \<Longrightarrow>
     balanced P (advanceSend x) y (qy @ [sealedNext P x pt ad]) (ptsy @ [pt]) qx ptsx"
  by (auto simp: balanced_def intro: synced_send synced_send_other)

lemma ahead_send:
  "ahead P x y qy ptsy qx ptsx \<Longrightarrow>
     ahead P (advanceSend x) y (qy @ [sealedNext P x pt ad]) (ptsy @ [pt]) qx ptsx"
  "ahead P x y qy ptsy qx ptsx \<Longrightarrow>
     ahead P x (advanceSend y) qy ptsy (qx @ [sealedNext P y pt ad]) (ptsx @ [pt])"
  by (auto simp: ahead_def intro: leads_send leads_send_other synced_send synced_send_other)

lemma pairedI:
  "wellKeyed (st p) \<Longrightarrow> wellKeyed (st (peer p)) \<Longrightarrow>
     balanced P (st p) (st (peer p)) (q (peer p)) (pts (peer p)) (q p) (pts p) \<or>
     ahead P (st p) (st (peer p)) (q (peer p)) (pts (peer p)) (q p) (pts p) \<Longrightarrow> paired P st q pts"
  unfolding paired_def by (intro conjI allI exI [of _ p]) (metis other_party)

lemma paired_cases:
  assumes "paired P st q pts"
  obtains (bal_lead) "balanced P (st p) (st (peer p)) (q (peer p)) (pts (peer p)) (q p) (pts p)"
  | (bal_follow) "balanced P (st (peer p)) (st p) (q p) (pts p) (q (peer p)) (pts (peer p))"
  | (ahead_lead) "ahead P (st p) (st (peer p)) (q (peer p)) (pts (peer p)) (q p) (pts p)"
  | (ahead_follow) "ahead P (st (peer p)) (st p) (q p) (pts p) (q (peer p)) (pts (peer p))"
proof -
  obtain r where r: "balanced P (st r) (st (peer r)) (q (peer r)) (pts (peer r)) (q r) (pts r) \<or>
      ahead P (st r) (st (peer r)) (q (peer r)) (pts (peer r)) (q r) (pts r)"
    using assms by (auto simp: paired_def)
  then show ?thesis using that by (cases "r = p") (auto dest!: other_party)
qed

lemma paired_send:
  assumes laws: "lawful P" and pr: "paired P st q pts"
    and enc: "EncryptMessage P pt ad (st p, w) = (Inr m, (s, w'))"
    and fresh: "newKeyIsNew P (st p) m"
  shows "paired P (st(p := s)) (q(peer p := q (peer p) @ [(m, ad)])) (pts(peer p := pts (peer p) @ [pt]))"
proof -
  have wk: "wellKeyed (st p)" "wellKeyed (st (peer p))" using pr by (simp_all add: paired_def)
  have cont: "s = advanceSend (st p)" "(m, ad) = sealedNext P (st p) pt ad"
    if "\<not> needsNewSendingChain (st p)"
    using enc EncryptMessage_continue [OF that, of P pt ad w] by (auto simp: sealedNext_def)
  from pr show ?thesis
  proof (cases rule: paired_cases [where p = p])
    case bal_lead
    then have "\<not> needsNewSendingChain (st p)" by (simp add: balanced_def)
    then show ?thesis
      using wk balanced_send [OF bal_lead, of pt ad] cont by (intro pairedI [of _ p]) simp_all
  next
    case bal_follow
    then have n: "needsNewSendingChain (st p)" by (simp add: balanced_def)
    obtain hdr ct where m: "m = (hdr, ct)" by (cases m)
    obtain dhOut ss ck where r: "newChainResult P (st p) dhOut ss ck hdr s"
      "ct = chacha_seal P (messageKey (Some ck)) zeroNonce pt (associatedDataWithHeader hdr ad)"
      using EncryptMessage_newChain [OF _ n enc [unfolded m]] laws unfolding lawful_def by metis
    have "ahead P s (st (peer p)) (q (peer p) @ [(m, ad)]) (pts (peer p) @ [pt]) (q p) (pts p)"
      using start_chain [OF _ wk(2,1) bal_follow r] laws fresh by (simp add: m lawful_def)
    moreover have "wellKeyed s" using r(1) wk(1) by (simp add: newChainResult_def wellKeyed_def)
    ultimately show ?thesis using wk by (intro pairedI [of _ p]) simp_all
  next
    case ahead_lead
    then have "\<not> needsNewSendingChain (st p)" by (simp add: ahead_def)
    then show ?thesis
      using wk ahead_send(1) [OF ahead_lead, of pt ad] cont by (intro pairedI [of _ p]) simp_all
  next
    case ahead_follow
    then have "\<not> needsNewSendingChain (st p)" by (simp add: ahead_def)
    then show ?thesis
      using wk ahead_send(2) [OF ahead_follow, of pt ad] cont
      by (intro pairedI [of _ "peer p"]) simp_all
  qed
qed

lemma balanced_deliver:
  assumes "aead_laws P" and "wellKeyed x" and "wellKeyed y"
  shows "balanced P x y (((hdr, ct), ad) # qy) ptsy qx ptsx \<Longrightarrow> \<exists>pt ps. ptsy = pt # ps \<and>
      DecryptMessage P hdr ct ad y = (Inr pt, advanceRecv y) \<and>
      balanced P x (advanceRecv y) qy ps qx ptsx"
    and "balanced P x y qy ptsy (((hdr, ct), ad) # qx) ptsx \<Longrightarrow> \<exists>pt ps. ptsx = pt # ps \<and>
      DecryptMessage P hdr ct ad x = (Inr pt, advanceRecv x) \<and>
      balanced P (advanceRecv x) y qy ptsy qx ps"
proof -
  assume "balanced P x y (((hdr, ct), ad) # qy) ptsy qx ptsx"
  note b = this [unfolded balanced_def]
  then have "synced P x y (((hdr, ct), ad) # qy) ptsy" by simp
  then show "\<exists>pt ps. ptsy = pt # ps \<and> DecryptMessage P hdr ct ad y = (Inr pt, advanceRecv y) \<and>
      balanced P x (advanceRecv y) qy ps qx ptsx"
    by (rule synced_deliver [OF assms(1,3)]) (use b in \<open>simp add: balanced_def synced_deliver_other\<close>)
next
  assume "balanced P x y qy ptsy (((hdr, ct), ad) # qx) ptsx"
  note b = this [unfolded balanced_def]
  then have "synced P y x (((hdr, ct), ad) # qx) ptsx" by simp
  then show "\<exists>pt ps. ptsx = pt # ps \<and> DecryptMessage P hdr ct ad x = (Inr pt, advanceRecv x) \<and>
      balanced P (advanceRecv x) y qy ptsy qx ps"
    by (rule synced_deliver [OF assms(1,2)]) (use b in \<open>simp add: balanced_def synced_deliver_other\<close>)
qed

lemma ahead_deliver:
  assumes "aead_laws P" and "wellKeyed x" and "wellKeyed y"
  shows "ahead P x y qy ptsy (((hdr, ct), ad) # qx) ptsx \<Longrightarrow> \<exists>pt ps. ptsx = pt # ps \<and>
      DecryptMessage P hdr ct ad x = (Inr pt, advanceRecv x) \<and>
      ahead P (advanceRecv x) y qy ptsy qx ps"
proof -
  assume "ahead P x y qy ptsy (((hdr, ct), ad) # qx) ptsx"
  note a = this [unfolded ahead_def]
  then have "synced P y x (((hdr, ct), ad) # qx) ptsx" by simp
  then show "\<exists>pt ps. ptsx = pt # ps \<and> DecryptMessage P hdr ct ad x = (Inr pt, advanceRecv x) \<and>
      ahead P (advanceRecv x) y qy ptsy qx ps"
    by (rule synced_deliver [OF assms(1,2)]) (use a in \<open>simp add: ahead_def leads_deliver_other\<close>)
qed

lemma lead_deliver:
  assumes laws: "lawful P" and wk: "wellKeyed x" "wellKeyed y"
    and ahd: "ahead P x y (((hdr, ct), ad) # qy) ptsy qx ptsx"
  shows "\<exists>pt ps y'. ptsy = pt # ps \<and> DecryptMessage P hdr ct ad y = (Inr pt, y') \<and> wellKeyed y' \<and>
    (balanced P x y' qy ps qx ptsx \<or> ahead P x y' qy ps qx ptsx)"
proof -
  have al: "aead_laws P" using laws by (simp add: lawful_def)
  note a = ahd [unfolded ahead_def]
  obtain q1 p1 q2 p2 where l: "((hdr, ct), ad) # qy = q1 @ q2" "ptsy = p1 @ p2"
    "oldTail P x y q1 p1" "newHead P x y q2 p2"
    using a by (auto simp: leads_def)
  show ?thesis
  proof (cases q1)
    case Nil
    then have "q2 = ((hdr, ct), ad) # qy" "p1 = []" using l by (auto simp: oldTail_def)
    then have hd: "newHead P x y (((hdr, ct), ad) # qy) ptsy" and old: "oldTail P x y [] []"
      using l Nil by simp_all
    obtain pt ps y' where "ptsy = pt # ps" "DecryptMessage P hdr ct ad y = (Inr pt, y')"
      "wellKeyed y'" "balanced P x y' qy ps qx ptsx"
      by (rule enter_chain [OF laws wk old hd]) (use a in auto)
    then show ?thesis by blast
  next
    case (Cons m q1')
    then have q: "m = ((hdr, ct), ad)" "qy = q1' @ q2" using l(1) by simp_all
    obtain pt ps where d: "p1 = pt # ps" "DecryptMessage P hdr ct ad y = (Inr pt, advanceRecv y)"
      "oldTail P x (advanceRecv y) q1' ps"
      using oldTail_deliver [OF al wk(2)] l(3) Cons q(1) by metis
    then have "leads P x (advanceRecv y) qy (ps @ p2)"
      using q(2) newHead_deliver_other [OF l(4)] by (auto simp: leads_def)
    then have "ahead P x (advanceRecv y) qy (ps @ p2) qx ptsx"
      using a by (simp add: ahead_def synced_deliver_other)
    with d l(2) wk show ?thesis by auto
  qed
qed

lemma paired_deliver:
  assumes laws: "lawful P" and pr: "paired P st q pts" and q: "q p = ((hdr, ct), ad) # rest"
  shows "\<exists>pt ps s. pts p = pt # ps \<and> DecryptMessage P hdr ct ad (st p) = (Inr pt, s) \<and>
    paired P (st(p := s)) (q(p := rest)) (pts(p := ps))"
proof -
  have al: "aead_laws P" using laws by (simp add: lawful_def)
  have wk: "wellKeyed (st p)" "wellKeyed (st (peer p))" using pr by (simp_all add: paired_def)
  from pr show ?thesis
  proof (cases rule: paired_cases [where p = p])
    case bal_lead
    from balanced_deliver(2) [OF al wk bal_lead [unfolded q]] obtain pt ps where "pts p = pt # ps"
      "DecryptMessage P hdr ct ad (st p) = (Inr pt, advanceRecv (st p))"
      "balanced P (advanceRecv (st p)) (st (peer p)) (q (peer p)) (pts (peer p)) rest ps" by blast
    with wk show ?thesis
      by (intro exI [of _ pt] exI [of _ ps] exI [of _ "advanceRecv (st p)"] conjI pairedI [of _ p]) simp_all
  next
    case bal_follow
    from balanced_deliver(1) [OF al wk(2,1) bal_follow [unfolded q]] obtain pt ps where "pts p = pt # ps"
      "DecryptMessage P hdr ct ad (st p) = (Inr pt, advanceRecv (st p))"
      "balanced P (st (peer p)) (advanceRecv (st p)) rest ps (q (peer p)) (pts (peer p))" by blast
    with wk show ?thesis
      by (intro exI [of _ pt] exI [of _ ps] exI [of _ "advanceRecv (st p)"] conjI pairedI [of _ "peer p"])
        simp_all
  next
    case ahead_lead
    from ahead_deliver [OF al wk ahead_lead [unfolded q]] obtain pt ps where "pts p = pt # ps"
      "DecryptMessage P hdr ct ad (st p) = (Inr pt, advanceRecv (st p))"
      "ahead P (advanceRecv (st p)) (st (peer p)) (q (peer p)) (pts (peer p)) rest ps" by blast
    with wk show ?thesis
      by (intro exI [of _ pt] exI [of _ ps] exI [of _ "advanceRecv (st p)"] conjI pairedI [of _ p]) simp_all
  next
    case ahead_follow
    from lead_deliver [OF laws wk(2,1) ahead_follow [unfolded q]] obtain pt ps s where "pts p = pt # ps"
      "DecryptMessage P hdr ct ad (st p) = (Inr pt, s)" "wellKeyed s"
      "balanced P (st (peer p)) s rest ps (q (peer p)) (pts (peer p)) \<or>
       ahead P (st (peer p)) s rest ps (q (peer p)) (pts (peer p))" by blast
    with wk show ?thesis
      by (intro exI [of _ pt] exI [of _ ps] exI [of _ s] conjI pairedI [of _ "peer p"]) simp_all
  qed
qed

definition receivePacket :: "primitives \<Rightarrow> Header \<times> bytes \<Rightarrow> bytes \<Rightarrow> (State, bytes) action" where
  "receivePacket P m ad = DecryptMessage P (fst m) (snd m) ad"

text \<open>The laws of the primitives are a premise, so they travel with the invariant.\<close>

interpretation ratchet: fifo_channel "EncryptMessage P" "receivePacket P" "newKeyIsNew P"
  "\<lambda>st q pts. lawful P \<and> paired P st q pts"
  for P
proof unfold_locales
  fix st :: "party \<Rightarrow> State" and q pts p m ad rest
  assume "lawful P \<and> paired P st q pts" and "q p = (m, ad) # rest"
  then show "\<exists>pt ps s. pts p = pt # ps \<and> receivePacket P m ad (st p) = (Inr pt, s) \<and>
      lawful P \<and> paired P (st(p := s)) (q(p := rest)) (pts(p := ps))"
    using paired_deliver [of P st q pts p "fst m" "snd m" ad rest] by (simp add: receivePacket_def)
qed (auto intro: paired_send)

lemma initial_paired:
  assumes laws: "lawful P" and priv: "length bobPriv = 32"
    and a: "InitAlice P key (ecdh_PublicKey P bobPriv) wA = (Inr a, wA')"
    and b: "InitBob key bobPriv wB = (Inr b, wB')"
  shows "paired P (case_party a b) (\<lambda>_. []) (\<lambda>_. [])"
proof -
  note b = InitBob_Inr [OF b]
  obtain dhOut ck where a: "length (dhSelf a) = 32"
    "ecdh_ECDH P (dhSelf a) (ecdh_PublicKey P bobPriv) = Inr dhOut"
    "rootKDF key dhOut [] = Inr (RootKey a, ck)" "chainSend a = Some ck"
    "dhRemote a = Some (ecdh_PublicKey P bobPriv)" "chainRecv a = None" "nSend a = 0" "nRecv a = 0"
    "pn a = 0" "\<not> needsNewSendingChain a" "skipped a = Map.empty" "selfPendingKEMPriv a = None"
    "peerAdvertisedKEMPub a = None"
    using InitAlice_Inr [OF a] by metis
  have "ecdh_ECDH P (dhSelf b) (ratchetPub P a) = Inr dhOut"
    using x25519_commutes [of P bobPriv "dhSelf a"] laws priv a b
    by (simp add: lawful_def ratchetPub_def)
  then have "newHead P a b [] []"
    using a b by (auto simp: newHead_def opens_def firstHeader_def plainHeader_def advertises_def
        decapsulates_def)
  then have "leads P a b [] []" using a b by (auto simp: leads_def oldTail_def)
  moreover have "synced P b a [] []" using a b by (simp add: synced_def ratchetPub_def)
  ultimately have "ahead P a b [] [] [] []" using a b by (simp add: ahead_def)
  with a b priv show ?thesis by (intro pairedI [of _ Initiator]) (simp_all add: wellKeyed_def)
qed

section \<open>Properties\<close>

text \<open>
  C6: every conversation over in-order channels is faithful. Start from \<open>InitAlice\<close> and \<open>InitBob\<close>
  with one session key and Bob's ratchet key pair, and let both parties send and receive in any
  interleaving (crossing messages, any number of turns, with the ML-KEM injections the schedule
  asks for). As long as every send succeeded and every new chain drew a new ratchet key, the
  results of \<open>DecryptMessage\<close> at a party are exactly the plaintexts its peer sent, in order, and
  what is missing is still in flight.
\<close>

theorem ratchet_conversation_faithful:
  assumes "lawful P" and "length bobPriv = 32"
    and "InitAlice P key (ecdh_PublicKey P bobPriv) wA = (Inr a, wA')"
    and "InitBob key bobPriv wB = (Inr b, wB')"
    and "c = fold (convStep (EncryptMessage P) (receivePacket P) (newKeyIsNew P)) events
           (startConv (case_party a b) (case_party wA' wB'))"
    and "\<not> halted c"
  shows "got c p = map Inr (take (length (got c p)) (sent c (peer p))) \<and>
    length (sent c (peer p)) = length (got c p) + length (inflight c p)"
proof -
  have "lawful P \<and> paired P (case_party a b) (\<lambda>_. []) (\<lambda>_. [])"
    using initial_paired [OF assms(1-4)] assms(1) by blast
  from ratchet.conversation_faithful [OF this, of events "case_party wA' wB'" p] assms(5,6)
  show ?thesis by (simp add: Let_def)
qed

lemma demo_InitAlice:
  "\<exists>a w. InitAlice demoPrimitives key (ecdh_PublicKey demoPrimitives (replicate 32 0)) (demoWorld 32) = (Inr a, w)"
proof -
  obtain ss where ss: "ecdh_ECDH demoPrimitives (replicate 32 0)
      (ecdh_PublicKey demoPrimitives (replicate 32 0)) = Inr ss"
    using demo_ECDH by blast
  obtain rk ck where "rootKDF key ss [] = Inr (rk, ck)" by (rule rootKDF_ok)
  then show ?thesis
    by (simp add: InitAlice_def newState_def ecdh_GenerateKey_def tryS_step readFrom_sys ss)
qed

lemma ratchet_conversation_faithful_witness:
  "\<exists>a wa b wb c. InitAlice demoPrimitives [1] (ecdh_PublicKey demoPrimitives (replicate 32 0)) (demoWorld 32) =
       (Inr a, wa) \<and>
     InitBob [1] (replicate 32 0) (demoWorld 0) = (Inr b, wb) \<and>
     c = fold (convStep (EncryptMessage demoPrimitives) (receivePacket demoPrimitives) (newKeyIsNew demoPrimitives))
           [Send Initiator [7] [], Send Initiator [8] [9], Deliver Responder, Deliver Responder]
           (startConv (case_party a b) (case_party wa wb)) \<and>
     got c Responder = [Inr [7], Inr [8]]"
proof -
  obtain a wa where a: "InitAlice demoPrimitives [1] (ecdh_PublicKey demoPrimitives (replicate 32 0))
      (demoWorld 32) = (Inr a, wa)"
    using demo_InitAlice by blast
  obtain b wb where b: "InitBob [1] (replicate 32 0) (demoWorld 0) = (Inr b, wb)"
    using InitBob_total by blast
  define c where "c = fold (convStep (EncryptMessage demoPrimitives) (receivePacket demoPrimitives)
      (newKeyIsNew demoPrimitives))
      [Send Initiator [7] [], Send Initiator [8] [9], Deliver Responder, Deliver Responder]
      (startConv (case_party a b) (case_party wa wb))"
  have "\<not> needsNewSendingChain a" using InitAlice_Inr [OF a] by metis
  then have run: "\<not> halted c" "sent c Initiator = [[7], [8]]" "inflight c Responder = []"
    by (simp_all del: convStep.simps(2)
        add: c_def startConv_def EncryptMessage_continue newKeyIsNew_def)
  have f: "got c Responder = map Inr (take (length (got c Responder)) (sent c (peer Responder))) \<and>
      length (sent c (peer Responder)) = length (got c Responder) + length (inflight c Responder)"
    by (rule ratchet_conversation_faithful [OF demo_lawful _ a b c_def run(1)]) simp
  then have "length (got c Responder) = 2" using run by simp
  with f run have "got c Responder = [Inr [7], Inr [8]]" by simp
  with a b c_def show ?thesis by blast
qed

end
