(* ===== verification/Session.thy ===== *)
theory Session
  imports Prekey Wire RatchetSync
begin

text \<open>
  \<open>crypto/session/session.go\<close>: session establishment in one packet. The initiator encapsulates to
  a one-time prekey (or the last-resort key) and sends its first message with the KEM ciphertext;
  the responder decapsulates, starts its ratchet and decrypts. It composes \<open>Prekey\<close>,
  \<open>KemHybrid\<close> and \<open>Ratchet\<close>; the messages are those of \<open>Wire\<close>.
\<close>

section \<open>Transcripts\<close>

text \<open>\<open>byte(i>>24), byte(i>>16), byte(i>>8), byte(i)\<close>\<close>

definition indexBytes :: "int \<Rightarrow> bytes" where
  "indexBytes i = [word_of_int (drop_bit 24 i), word_of_int (drop_bit 16 i),
     word_of_int (drop_bit 8 i), word_of_int i]"

definition buildTranscript :: "IdPublicKey \<Rightarrow> IdPublicKey \<Rightarrow> Bundle \<Rightarrow> fault + bytes" where
  "buildTranscript initiator responder bundle =
     tryE (identity_Marshal initiator) (\<lambda>initBytes.
     tryE (identity_Marshal responder) (\<lambda>respBytes.
     Inr (initBytes @ respBytes @ hashBytes (bundleRoot bundle) @ indexBytes (bundleIndex bundle))))"

definition buildLastResortTranscript ::
  "IdPublicKey \<Rightarrow> IdPublicKey \<Rightarrow> LastResort \<Rightarrow> fault + bytes" where
  "buildLastResortTranscript initiator responder lr =
     tryE (identity_Marshal initiator) (\<lambda>initBytes.
     tryE (identity_Marshal responder) (\<lambda>respBytes.
     Inr (initBytes @ respBytes @ lrPublicKey lr)))"

section \<open>Establishment\<close>

text \<open>A method called on a freshly made state: the state becomes part of the result.\<close>

definition onNew :: "('s \<times> 'w, 'a) action \<Rightarrow> 's \<Rightarrow> ('w, 's \<times> 'a) action" where
  "onNew m s = (\<lambda>w. case m (s, w) of
       (Inl e, (_, w')) \<Rightarrow> (Inl e, w')
     | (Inr x, (s', w')) \<Rightarrow> (Inr (s', x), w'))"

definition EstablishAsInitiator ::
  "primitives \<Rightarrow> KeyPair \<Rightarrow> IdPublicKey \<Rightarrow> Bundle \<Rightarrow> bytes \<Rightarrow> (world, State \<times> InitialMessage) action" where
  "EstablishAsInitiator P initiatorID responderID bundle firstMessage =
     tryS (pureS (VerifyBundle P responderID bundle)) (\<lambda>_.
     tryS (pureS (kem_UnmarshalPublicKey P (bundlePublicKey bundle))) (\<lambda>responderKEMPub.
     tryS (pureS (buildTranscript (identity_Public initiatorID) responderID bundle)) (\<lambda>transcript.
     tryS (Encapsulate P responderKEMPub transcript None) (\<lambda>(ct, sessionKey).
     tryS (InitAlice P sessionKey (pubX25519 responderKEMPub)) (\<lambda>state.
     tryS (onNew (EncryptMessage P firstMessage []) state) (\<lambda>(state, hdr, aeadCiphertext).
     ret (state,
       \<lparr>SenderIdentity = identity_Public initiatorID, KEMCiphertext = ct,
        PrekeyIndex = bundleIndex bundle, IsLastResort = False, imHeader = hdr,
        imCiphertext = aeadCiphertext\<rparr>)))))))"

definition EstablishAsResponder ::
  "primitives \<Rightarrow> KeyPair \<Rightarrow> Bundle \<Rightarrow> KemPrivateKey \<Rightarrow> InitialMessage \<Rightarrow> (world, State \<times> bytes) action" where
  "EstablishAsResponder P responderID bundle prekeyPriv msg =
     tryS (pureS (buildTranscript (SenderIdentity msg) (identity_Public responderID) bundle)) (\<lambda>transcript.
     tryS (pureS (Decapsulate P prekeyPriv (KEMCiphertext msg) transcript)) (\<lambda>sessionKey.
     tryS (InitBob sessionKey (privX25519 prekeyPriv)) (\<lambda>state.
     onNew (liftT (DecryptMessage P (imHeader msg) (imCiphertext msg) [])) state)))"

definition EstablishAsInitiatorLastResort ::
  "primitives \<Rightarrow> KeyPair \<Rightarrow> IdPublicKey \<Rightarrow> LastResort \<Rightarrow> bytes \<Rightarrow> (world, State \<times> InitialMessage) action" where
  "EstablishAsInitiatorLastResort P initiatorID responderID lastResort firstMessage =
     tryS (pureS (VerifyLastResort P responderID lastResort)) (\<lambda>_.
     tryS (pureS (kem_UnmarshalPublicKey P (lrPublicKey lastResort))) (\<lambda>responderKEMPub.
     tryS (pureS (buildLastResortTranscript (identity_Public initiatorID) responderID lastResort)) (\<lambda>transcript.
     tryS (Encapsulate P responderKEMPub transcript None) (\<lambda>(ct, sessionKey).
     tryS (InitAlice P sessionKey (pubX25519 responderKEMPub)) (\<lambda>state.
     tryS (onNew (EncryptMessage P firstMessage []) state) (\<lambda>(state, hdr, aeadCiphertext).
     ret (state,
       \<lparr>SenderIdentity = identity_Public initiatorID, KEMCiphertext = ct,
        PrekeyIndex = 0, IsLastResort = True, imHeader = hdr,
        imCiphertext = aeadCiphertext\<rparr>)))))))"

definition EstablishAsResponderLastResort ::
  "primitives \<Rightarrow> KeyPair \<Rightarrow> LastResort \<Rightarrow> KemPrivateKey \<Rightarrow> InitialMessage \<Rightarrow> (world, State \<times> bytes) action" where
  "EstablishAsResponderLastResort P responderID lastResort lastResortPriv msg =
     tryS (pureS (buildLastResortTranscript (SenderIdentity msg) (identity_Public responderID) lastResort))
       (\<lambda>transcript.
     tryS (pureS (Decapsulate P lastResortPriv (KEMCiphertext msg) transcript)) (\<lambda>sessionKey.
     tryS (InitBob sessionKey (privX25519 lastResortPriv)) (\<lambda>state.
     onNew (liftT (DecryptMessage P (imHeader msg) (imCiphertext msg) [])) state)))"

section \<open>Lemmas\<close>

lemma word_of_int_drop_bit:
  "n + 8 \<le> 32 \<Longrightarrow> (word_of_int (drop_bit n i) :: byte) = ucast (drop_bit n (word_of_int i :: u32))"
  by (rule bit_word_eqI) (auto simp: bit_simps)

lemma indexBytes_be32: "indexBytes i = be32 (word_of_int i)"
  using word_of_int_drop_bit [of 24 i] word_of_int_drop_bit [of 16 i] word_of_int_drop_bit [of 8 i]
    word_of_int_drop_bit [of 0 i]
  by (simp add: indexBytes_def be32_def)

lemma onNew_Inr: "onNew m s w = (Inr (s', x), w') \<longleftrightarrow> m (s, w) = (Inr x, (s', w'))"
  by (auto simp: onNew_def split: prod.splits sum.splits)

lemma onNew_liftT: "m s = (Inr x, s') \<Longrightarrow> onNew (liftT m) s w = (Inr (s', x), w)"
  by (simp add: onNew_def liftT_run)

text \<open>
  With one session key and the responder's ratchet key pair on both sides, the first message is
  decrypted and leaves the two ratchets paired.
\<close>

lemma first_message_delivered:
  assumes laws: "lawful P" and priv: "length bobPriv = 32"
    and a0: "InitAlice P key (ecdh_PublicKey P bobPriv) wA = (Inr a0, wA')"
    and enc: "EncryptMessage P pt [] (a0, wA') = (Inr (hdr, ct), (a, wA''))"
    and b0: "InitBob key bobPriv wB = (Inr b0, wB')"
  shows "\<exists>b. DecryptMessage P hdr ct [] b0 = (Inr pt, b) \<and> paired P (case_party a b) (\<lambda>_. []) (\<lambda>_. [])"
proof -
  have start: "paired P (case_party a0 b0) (\<lambda>_. []) (\<lambda>_. [])"
    by (rule initial_paired [OF laws priv a0 b0])
  have "\<not> needsNewSendingChain a0" using InitAlice_Inr [OF a0] by metis
  then have "newKeyIsNew P (case_party a0 b0 Initiator) (hdr, ct)" by (simp add: newKeyIsNew_def)
  from paired_send [OF laws start, of pt "[]" Initiator, OF _ this]
  have "paired P ((case_party a0 b0)(Initiator := a)) ((\<lambda>_. [])(Responder := [((hdr, ct), [])]))
      ((\<lambda>_. [])(Responder := [pt]))"
    using enc by auto
  from paired_deliver [OF laws this, of Responder] obtain b where
    b: "DecryptMessage P hdr ct [] b0 = (Inr pt, b)"
    "paired P ((case_party a0 b0)(Initiator := a, Responder := b)) (\<lambda>_. []) (\<lambda>_. [])"
    by (auto simp: fun_upd_idem)
  moreover have "(case_party a0 b0)(Initiator := a, Responder := b) = case_party a b"
    by (rule ext) (auto split: party.split)
  ultimately show ?thesis by auto
qed

text \<open>The half both establishments share: from the encapsulation to the decrypted message.\<close>

lemma handshake:
  assumes laws: "lawful P" and priv: "genuineKem P priv"
    and enc: "Encapsulate P (kem_Public P priv) transcript None w = (Inr (ct, key), w1)"
    and alice: "InitAlice P key (pubX25519 (kem_Public P priv)) w1 = (Inr a0, w2)"
    and first: "EncryptMessage P pt [] (a0, w2) = (Inr (hdr, c), (a, w3))"
  obtains b where "Decapsulate P priv ct transcript = Inr key"
    and "\<And>wB. \<exists>b0 wB'. InitBob key (privX25519 priv) wB = (Inr b0, wB') \<and>
      onNew (liftT (DecryptMessage P hdr c [])) b0 wB' = (Inr (b wB, pt), wB')"
    and "\<And>wB. paired P (case_party a (b wB)) (\<lambda>_. []) (\<lambda>_. [])"
proof -
  have d: "Decapsulate P priv ct transcript = Inr key"
    using Encapsulate_Decapsulate [OF _ _ priv enc] laws by (simp add: lawful_def)
  have "\<exists>b. (\<exists>b0 wB'. InitBob key (privX25519 priv) wB = (Inr b0, wB') \<and>
      onNew (liftT (DecryptMessage P hdr c [])) b0 wB' = (Inr (b, pt), wB')) \<and>
      paired P (case_party a b) (\<lambda>_. []) (\<lambda>_. [])" for wB
  proof -
    obtain b0 wB' where b0: "InitBob key (privX25519 priv) wB = (Inr b0, wB')" using InitBob_total by blast
    from first_message_delivered [OF laws _ _ first b0, of w1] alice priv
    obtain b where "DecryptMessage P hdr c [] b0 = (Inr pt, b)"
      "paired P (case_party a b) (\<lambda>_. []) (\<lambda>_. [])"
      by (auto simp: kem_Public_def genuineKem_def)
    with b0 onNew_liftT show ?thesis by metis
  qed
  then obtain b where "\<And>wB. (\<exists>b0 wB'. InitBob key (privX25519 priv) wB = (Inr b0, wB') \<and>
      onNew (liftT (DecryptMessage P hdr c [])) b0 wB' = (Inr (b wB, pt), wB')) \<and>
      paired P (case_party a (b wB)) (\<lambda>_. []) (\<lambda>_. [])"
    by metis
  with d that show ?thesis by blast
qed

text \<open>
  The contract of an established session: whatever the two parties then send and receive over
  in-order channels, each gets exactly what the other sent (see \<open>Conversation\<close>).
\<close>

definition conversesFaithfully :: "primitives \<Rightarrow> State \<Rightarrow> State \<Rightarrow> bool" where
  "conversesFaithfully P a b \<longleftrightarrow> (\<forall>events worlds p.
     let c = fold (convStep (EncryptMessage P) (receivePacket P) (newKeyIsNew P)) events
               (startConv (case_party a b) worlds)
     in \<not> halted c \<longrightarrow>
        got c p = map Inr (take (length (got c p)) (sent c (peer p))) \<and>
        length (sent c (peer p)) = length (got c p) + length (inflight c p))"

lemma paired_converses:
  assumes "lawful P" and "paired P (case_party a b) (\<lambda>_. []) (\<lambda>_. [])"
  shows "conversesFaithfully P a b"
  unfolding conversesFaithfully_def Let_def
  using ratchet.conversation_faithful [of P "case_party a b"] assms by (simp add: Let_def)

text \<open>
  With 96 bytes of entropy and no all-zero X25519 result the handshake runs through on both sides.
\<close>

lemma handshake_runs:
  assumes laws: "lawful P" and priv: "genuineKem P priv" and rng: "96 \<le> length (rng w)"
    and ss: "ecdh_ECDH P (take 32 (rng w)) (pubX25519 (kem_Public P priv)) = Inr s1"
      "ecdh_ECDH P (take 32 (drop 64 (rng w))) (pubX25519 (kem_Public P priv)) = Inr s2"
  obtains ct key w1 a0 w2 hdr c a w3 b where
    "Encapsulate P (kem_Public P priv) transcript None w = (Inr (ct, key), w1)"
    and "InitAlice P key (pubX25519 (kem_Public P priv)) w1 = (Inr a0, w2)"
    and "onNew (EncryptMessage P pt []) a0 w2 = (Inr (a, hdr, c), w3)"
    and "rng w3 = drop 96 (rng w)"
    and "Decapsulate P priv ct transcript = Inr key"
    and "\<And>wB. \<exists>b0 wB'. InitBob key (privX25519 priv) wB = (Inr b0, wB') \<and>
      onNew (liftT (DecryptMessage P hdr c [])) b0 wB' = (Inr (b wB, pt), wB')"
    and "\<And>wB. conversesFaithfully P a (b wB)"
proof -
  obtain ct key where e: "Encapsulate P (kem_Public P priv) transcript None w =
      (Inr (ct, key), w\<lparr>rng := drop 64 (rng w)\<rparr>)"
    using Encapsulate_succeeds [OF ss(1), of transcript] rng by auto
  obtain a0 w2 where i: "InitAlice P key (pubX25519 (kem_Public P priv)) (w\<lparr>rng := drop 64 (rng w)\<rparr>) =
      (Inr a0, w2)" and w2: "rng w2 = drop 96 (rng w)"
  proof -
    obtain rk ck where "rootKDF key s2 [] = Inr (rk, ck)" by (rule rootKDF_ok)
    with rng ss(2) that show ?thesis
      by (simp add: InitAlice_def newState_def ecdh_GenerateKey_def tryS_step readFrom_sys)
  qed
  have "\<not> needsNewSendingChain a0" using InitAlice_Inr [OF i] by metis
  from EncryptMessage_continue [OF this, of P pt "[]" w2] obtain hdr c a where
    f: "EncryptMessage P pt [] (a0, w2) = (Inr (hdr, c), (a, w2))" by blast
  then have f': "onNew (EncryptMessage P pt []) a0 w2 = (Inr (a, hdr, c), w2)" by (simp add: onNew_Inr)
  show ?thesis
    by (rule handshake [OF laws priv e i f]) (metis that e i f' w2 paired_converses [OF laws])
qed

text \<open>The key material of a batch and its bundle belong together.\<close>

lemma bundle_key:
  assumes laws: "lawful P" and bob: "identity_Generate P w0 = (Inr bob, w1)"
    and batch: "GenerateBatch P bob sz w2 = (Inr batch, w3)"
    and bd: "batch_Bundle batch i = Inr bundle" and priv: "batch_PrivateKey batch i = Inr priv"
  shows "genuineKem P priv" and "VerifyBundle P (identity_Public bob) bundle = Inr ()"
    and "kem_UnmarshalPublicKey P (bundlePublicKey bundle) = Inr (kem_Public P priv)"
    and "bundleIndex bundle = i"
proof -
  have "mlkem_laws P" "signature_laws P" using laws by (simp_all add: lawful_def)
  from GenerateBatch_inv [OF this Generate_genuine [OF bob] batch]
  have inv: "batchInv P (identity_Public bob) batch" by blast
  have i: "0 \<le> i" "i < batch_Size batch" "priv = batchPrivates batch ! nat i"
    using priv by (auto simp: batch_PrivateKey_def batch_Size_def sliceAt_def split: if_splits)
  from batch_Bundle_verifies [OF inv i(1,2)] bd
  show "VerifyBundle P (identity_Public bob) bundle = Inr ()" and "bundleIndex bundle = i"
    and g: "genuineKem P priv"
    using inv i by (auto simp: batchInv_def batch_Size_def)
  from batch_Bundle_verifies [OF inv i(1,2)] bd
  have "kem_MarshalPublicKey (kem_Public P priv) = Inr (bundlePublicKey bundle)"
    using inv i by (auto simp: batchInv_def batch_Size_def)
  moreover have "kem_laws P" using laws by (simp add: kem_laws_def lawful_def)
  ultimately show "kem_UnmarshalPublicKey P (bundlePublicKey bundle) = Inr (kem_Public P priv)"
    using hybrid_kem.encode_decode [of P priv] g by auto
qed

text \<open>A session over a published batch runs through on both sides.\<close>

lemma batch_session_runs:
  assumes "lawful P" and "identity_Generate P w0 = (Inr bob, w1)"
    and "GenerateBatch P bob sz w2 = (Inr batch, w3)"
    and "batch_Bundle batch i = Inr bundle" and "batch_PrivateKey batch i = Inr priv"
    and "96 \<le> length (rng w)"
    and "ecdh_ECDH P (take 32 (rng w)) (ecdh_PublicKey P (privX25519 priv)) = Inr s1"
    and "ecdh_ECDH P (take 32 (drop 64 (rng w))) (ecdh_PublicKey P (privX25519 priv)) = Inr s2"
  shows "\<exists>a msg w' b wB'.
    EstablishAsInitiator P alice (identity_Public bob) bundle firstMessage w = (Inr (a, msg), w') \<and>
    SenderIdentity msg = identity_Public alice \<and> PrekeyIndex msg = i \<and> \<not> IsLastResort msg \<and>
    EstablishAsResponder P bob bundle priv msg wB = (Inr (b, firstMessage), wB') \<and>
    conversesFaithfully P a b"
proof -
  note key = bundle_key [OF assms(1-5)]
  obtain t where t: "buildTranscript (identity_Public alice) (identity_Public bob) bundle = Inr t"
    by (simp add: buildTranscript_def)
  have ss: "ecdh_ECDH P (take 32 (rng w)) (pubX25519 (kem_Public P priv)) = Inr s1"
    "ecdh_ECDH P (take 32 (drop 64 (rng w))) (pubX25519 (kem_Public P priv)) = Inr s2"
    using assms(7,8) by (simp_all add: kem_Public_def)
  show ?thesis
  proof (rule handshake_runs [OF assms(1) key(1) assms(6) ss, of t firstMessage], goal_cases)
    case (1 ct sessionKey w1 a0 w2 hdr c a w3 b)
    from 1(6) [of wB] obtain b0 wB' where bob:
      "InitBob sessionKey (privX25519 priv) wB = (Inr b0, wB')"
      "onNew (liftT (DecryptMessage P hdr c [])) b0 wB' = (Inr (b wB, firstMessage), wB')" by blast
    let ?msg = "\<lparr>SenderIdentity = identity_Public alice, KEMCiphertext = ct, PrekeyIndex = i,
        IsLastResort = False, imHeader = hdr, imCiphertext = c\<rparr>"
    have "EstablishAsInitiator P alice (identity_Public bob) bundle firstMessage w = (Inr (a, ?msg), w3)"
      by (simp add: EstablishAsInitiator_def key(2-4) t tryS_step 1(1-3))
    moreover have "EstablishAsResponder P bob bundle priv ?msg wB = (Inr (b wB, firstMessage), wB')"
      by (simp add: EstablishAsResponder_def t 1(5) tryS_step bob)
    ultimately show ?thesis using 1(7) [of wB] by fastforce
  qed
qed

text \<open>A published one-slot batch over the demonstration primitives, whose entropy is all zeros.\<close>

lemma demo_slot:
  "96 \<le> length (rng w) \<Longrightarrow> take 96 (rng w) = replicate 96 0 \<Longrightarrow>
     kem_GenerateKeyPair demoPrimitives None w = (Inr demoKemPriv, w\<lparr>rng := drop 96 (rng w)\<rparr>)"
proof -
  assume len: "96 \<le> length (rng w)" and z: "take 96 (rng w) = replicate 96 0"
  have "take 32 (rng w) = replicate 32 0" using arg_cong [OF z, of "take 32"] by simp
  moreover have "take 64 (drop 32 (rng w)) = replicate 64 0"
    using arg_cong [OF z, of "drop 32"] by (simp add: drop_take)
  ultimately show ?thesis
    using len by (simp add: kem_GenerateKeyPair_def ecdh_GenerateKey_def mlkem_GenerateKeyPair_def
        tryS_step readFrom_sys demoPrimitives_def demoKemPriv_def)
qed

definition demoSecret :: bytes where
  "demoSecret = x25519 demoPrimitives (replicate 32 0) (ecdh_PublicKey demoPrimitives (replicate 32 0))"

lemma demo_handshake_ECDH:
  "ecdh_ECDH demoPrimitives (take 32 (rng (demoWorld 96)))
     (ecdh_PublicKey demoPrimitives (privX25519 demoKemPriv)) = Inr demoSecret"
  "ecdh_ECDH demoPrimitives (take 32 (drop 64 (rng (demoWorld 96))))
     (ecdh_PublicKey demoPrimitives (privX25519 demoKemPriv)) = Inr demoSecret"
  using demo_ECDH by (auto simp: demoKemPriv_def demoSecret_def ecdh_ECDH_def Let_def split: if_splits)

lemma demo_published:
  obtains bob w1 batch w3 bd where
    "identity_Generate demoPrimitives (demoWorld 64) = (Inr bob, w1)"
    and "GenerateBatch demoPrimitives bob 1 (demoWorld 128) = (Inr batch, w3)"
    and "batch_Bundle batch 0 = Inr bd" and "batch_PrivateKey batch 0 = Inr demoKemPriv"
proof -
  obtain bob w1 where bob: "identity_Generate demoPrimitives (demoWorld 64) = (Inr bob, w1)"
    and gen: "genuineKeyPair demoPrimitives bob" by (rule demo_identity)
  have ml: "mlkem_laws demoPrimitives" using demo_lawful by (simp add: lawful_def)
  obtain batch w3 where batch: "GenerateBatch demoPrimitives bob 1 (demoWorld 128) = (Inr batch, w3)"
    using GenerateBatch_succeeds [OF ml demo_signature_laws gen, of 1 "demoWorld 128"] by auto
  note inv = GenerateBatch_inv [OF ml demo_signature_laws gen batch]
  have "batchPrivates batch = [demoKemPriv]"
    using batch demo_slot [of "demoWorld 128"]
    by (auto simp: GenerateBatch_def tryS_Inr Let_def)
  then have "batch_PrivateKey batch 0 = Inr demoKemPriv" by (simp add: batch_PrivateKey_def sliceAt_def)
  moreover from batch_Bundle_verifies [OF inv(1), of 0] inv(2)
  obtain bd where "batch_Bundle batch 0 = Inr bd" by auto
  ultimately show ?thesis using that bob batch by blast
qed

section \<open>Properties\<close>

text \<open>
  C7: a session is established in one packet. Bob has published a batch of prekeys and Alice
  runs \<open>EstablishAsInitiator\<close> on one of its bundles, with 96 bytes of entropy and no all-zero
  X25519 result. Then she gets a state and a message naming her identity and the bundle's index;
  \<open>EstablishAsResponder\<close> with the private key of that index accepts the message and returns her
  first plaintext; and every conversation the two states then hold over in-order channels, in any
  interleaving, is faithful (session.go).
\<close>

theorem session_established:
  assumes "lawful P" and "identity_Generate P w0 = (Inr bob, w1)"
    and "GenerateBatch P bob sz w2 = (Inr batch, w3)"
    and "batch_Bundle batch i = Inr bundle" and "batch_PrivateKey batch i = Inr priv"
    and "96 \<le> length (rng w)"
    and "ecdh_ECDH P (take 32 (rng w)) (ecdh_PublicKey P (privX25519 priv)) = Inr s1"
    and "ecdh_ECDH P (take 32 (drop 64 (rng w))) (ecdh_PublicKey P (privX25519 priv)) = Inr s2"
  shows "\<exists>a msg w' b wB'.
    EstablishAsInitiator P alice (identity_Public bob) bundle firstMessage w = (Inr (a, msg), w') \<and>
    SenderIdentity msg = identity_Public alice \<and> PrekeyIndex msg = i \<and> \<not> IsLastResort msg \<and>
    EstablishAsResponder P bob bundle priv msg wB = (Inr (b, firstMessage), wB') \<and>
    conversesFaithfully P a b"
  by (rule batch_session_runs [OF assms])

lemma session_established_witness:
  "\<exists>bob w1 batch w3 bundle a msg w' b wB'.
    identity_Generate demoPrimitives (demoWorld 64) = (Inr bob, w1) \<and>
    GenerateBatch demoPrimitives bob 1 (demoWorld 128) = (Inr batch, w3) \<and>
    batch_Bundle batch 0 = Inr bundle \<and> batch_PrivateKey batch 0 = Inr demoKemPriv \<and>
    EstablishAsInitiator demoPrimitives bob (identity_Public bob) bundle [104, 105] (demoWorld 96) = (Inr (a, msg), w') \<and>
    EstablishAsResponder demoPrimitives bob bundle demoKemPriv msg (demoWorld 0) = (Inr (b, [104, 105]), wB') \<and>
    conversesFaithfully demoPrimitives a b"
proof -
  obtain bob w1 batch w3 bd where p:
    "identity_Generate demoPrimitives (demoWorld 64) = (Inr bob, w1)"
    "GenerateBatch demoPrimitives bob 1 (demoWorld 128) = (Inr batch, w3)"
    "batch_Bundle batch 0 = Inr bd" "batch_PrivateKey batch 0 = Inr demoKemPriv"
    by (rule demo_published)
  have "96 \<le> length (rng (demoWorld 96))" by simp
  from session_established [OF demo_lawful p this demo_handshake_ECDH, of bob "[104, 105]" "demoWorld 0"] p
  show ?thesis by blast
qed

text \<open>
  C18: the last-resort path establishes a session in the same way: with Bob's signed last-resort
  key in place of a one-time prekey, \<open>EstablishAsInitiatorLastResort\<close> and
  \<open>EstablishAsResponderLastResort\<close> agree, the first plaintext arrives, the message is marked
  as last-resort, and every later conversation is faithful (session.go).
\<close>

theorem last_resort_session_established:
  assumes "lawful P" and "identity_Generate P w0 = (Inr bob, w1)"
    and "GenerateLastResort P bob w2 = (Inr (priv, lr), w3)"
    and "96 \<le> length (rng w)"
    and "ecdh_ECDH P (take 32 (rng w)) (ecdh_PublicKey P (privX25519 priv)) = Inr s1"
    and "ecdh_ECDH P (take 32 (drop 64 (rng w))) (ecdh_PublicKey P (privX25519 priv)) = Inr s2"
  shows "\<exists>a msg w' b wB'.
    EstablishAsInitiatorLastResort P alice (identity_Public bob) lr firstMessage w = (Inr (a, msg), w') \<and>
    SenderIdentity msg = identity_Public alice \<and> IsLastResort msg \<and>
    EstablishAsResponderLastResort P bob lr priv msg wB = (Inr (b, firstMessage), wB') \<and>
    conversesFaithfully P a b"
proof -
  have laws: "mlkem_laws P" "signature_laws P" "kem_laws P"
    using assms(1) by (simp_all add: lawful_def kem_laws_def)
  obtain v sig where lr: "kem_GenerateKeyPair P None w2 = (Inr priv, v)"
    "kem_MarshalPublicKey (kem_Public P priv) = Inr (lrPublicKey lr)"
    "identity_Sign P bob (lastResortDomainTag @ lrPublicKey lr) v = (Inr (lrSignature lr), w3)"
    using assms(3) by (auto simp: GenerateLastResort_def tryS_Inr)
  have key: "genuineKem P priv" using GenerateKeyPair_genuine [OF laws(1) lr(1)] .
  have dec: "kem_UnmarshalPublicKey P (lrPublicKey lr) = Inr (kem_Public P priv)"
    using hybrid_kem.encode_decode [OF laws(3) key] lr(2) by auto
  have ver: "VerifyLastResort P (identity_Public bob) lr = Inr ()"
    unfolding VerifyLastResort_def
    by (rule id_sig.sign_verifies [OF laws(2) Generate_genuine [OF assms(2)] lr(3)])
  obtain t where t: "buildLastResortTranscript (identity_Public alice) (identity_Public bob) lr = Inr t"
    by (simp add: buildLastResortTranscript_def)
  have ss: "ecdh_ECDH P (take 32 (rng w)) (pubX25519 (kem_Public P priv)) = Inr s1"
    "ecdh_ECDH P (take 32 (drop 64 (rng w))) (pubX25519 (kem_Public P priv)) = Inr s2"
    using assms(5,6) by (simp_all add: kem_Public_def)
  show ?thesis
  proof (rule handshake_runs [OF assms(1) key assms(4) ss, of t firstMessage], goal_cases)
    case (1 ct sessionKey w1 a0 w2 hdr c a w3 b)
    from 1(6) [of wB] obtain b0 wB' where bob:
      "InitBob sessionKey (privX25519 priv) wB = (Inr b0, wB')"
      "onNew (liftT (DecryptMessage P hdr c [])) b0 wB' = (Inr (b wB, firstMessage), wB')" by blast
    let ?msg = "\<lparr>SenderIdentity = identity_Public alice, KEMCiphertext = ct, PrekeyIndex = 0,
        IsLastResort = True, imHeader = hdr, imCiphertext = c\<rparr>"
    have "EstablishAsInitiatorLastResort P alice (identity_Public bob) lr firstMessage w = (Inr (a, ?msg), w3)"
      by (simp add: EstablishAsInitiatorLastResort_def ver dec t tryS_step 1(1-3))
    moreover have "EstablishAsResponderLastResort P bob lr priv ?msg wB = (Inr (b wB, firstMessage), wB')"
      by (simp add: EstablishAsResponderLastResort_def t 1(5) tryS_step bob)
    ultimately show ?thesis using 1(7) [of wB] by fastforce
  qed
qed

lemma last_resort_session_established_witness:
  "\<exists>bob w1 lr w3 a msg w' b wB'.
    identity_Generate demoPrimitives (demoWorld 64) = (Inr bob, w1) \<and>
    GenerateLastResort demoPrimitives bob (demoWorld 128) = (Inr (demoKemPriv, lr), w3) \<and>
    EstablishAsInitiatorLastResort demoPrimitives bob (identity_Public bob) lr [104] (demoWorld 96) =
      (Inr (a, msg), w') \<and> IsLastResort msg \<and>
    EstablishAsResponderLastResort demoPrimitives bob lr demoKemPriv msg (demoWorld 0) = (Inr (b, [104]), wB')"
proof -
  obtain bob w1 where bob: "identity_Generate demoPrimitives (demoWorld 64) = (Inr bob, w1)"
    and gen: "genuineKeyPair demoPrimitives bob" by (rule demo_identity)
  have slot: "kem_GenerateKeyPair demoPrimitives None (demoWorld 128) =
      (Inr demoKemPriv, (demoWorld 128)\<lparr>rng := replicate 32 0\<rparr>)"
    using demo_slot [of "demoWorld 128"] by simp
  obtain lr w3 where lr: "GenerateLastResort demoPrimitives bob (demoWorld 128) = (Inr (demoKemPriv, lr), w3)"
    using id_sig.publishing_succeeds [OF demo_signature_laws gen, of "(demoWorld 128)\<lparr>rng := replicate 32 0\<rparr>"
        _ "\<lambda>sig. (demoKemPriv, \<lparr>lrPublicKey = _, lrSignature = sig\<rparr>)"]
    by (simp add: GenerateLastResort_def tryS_step slot kem_MarshalPublicKey_def) metis
  have "96 \<le> length (rng (demoWorld 96))" by simp
  from last_resort_session_established [OF demo_lawful bob lr this demo_handshake_ECDH, of bob "[104]" "demoWorld 0"] bob lr
  show ?thesis by blast
qed

text \<open>Equal session keys come from equal secrets and transcripts.\<close>

definition sessionCollision ::
  "primitives \<Rightarrow> KemPrivateKey \<Rightarrow> Ciphertext \<Rightarrow> bytes \<Rightarrow> KemPrivateKey \<Rightarrow> Ciphertext \<Rightarrow> bytes \<Rightarrow>
    (bytes \<times> bytes) option" where
  "sessionCollision P priv ct t priv' ct' t' =
     combineCollision (x25519 P (privX25519 priv) (X25519Ephemeral ct)) (mlkem_decaps P (privMLKEM priv) (MLKEMCiphertext ct)) t
       (x25519 P (privX25519 priv') (X25519Ephemeral ct')) (mlkem_decaps P (privMLKEM priv') (MLKEMCiphertext ct')) t'"

lemma Decapsulate_binds:
  assumes "x25519_laws P" and "Decapsulate P priv ct t = Inr key" and "Decapsulate P priv' ct' t' = Inr key"
  shows "t = t' \<or> sha256Collision (sessionCollision P priv ct t priv' ct' t')"
proof -
  have "combine (x25519 P (privX25519 p) (X25519Ephemeral c)) (mlkem_decaps P (privMLKEM p) (MLKEMCiphertext c)) u = Inr key"
    if "Decapsulate P p c u = Inr key" for p c u
    using that by (auto simp: Decapsulate_def ecdh_ECDH_def mlkem_DecapsulateTo_def tryE_Inr Let_def
        split: if_splits sum.splits)
  from this [OF assms(2)] this [OF assms(3)] assms(1) show ?thesis
    unfolding sessionCollision_def
    using combine_binds by (metis x25519_laws_def)
qed

definition wellSized :: "IdPublicKey \<Rightarrow> bool" where
  "wellSized pub \<longleftrightarrow> length (idEd25519 pub) = 32 \<and> length (idMLDSA pub) = mldsa_PublicKeySize"

lemma two_identities_inj:
  assumes "wellSized a" and "wellSized b" and "wellSized a'" and "wellSized b'"
    and "(idEd25519 a @ idMLDSA a) @ (idEd25519 b @ idMLDSA b) @ r =
      (idEd25519 a' @ idMLDSA a') @ (idEd25519 b' @ idMLDSA b') @ r'"
  shows "a = a' \<and> b = b' \<and> r = r'"
  using assms by (cases a; cases b; cases a'; cases b') (simp add: wellSized_def)

text \<open>
  C11: the session key is bound to who talks to whom over which prekey. If two sessions, each
  computed by \<open>Decapsulate\<close> under a transcript of \<open>buildTranscript\<close>, have the same key, then
  initiator, responder, batch root and prekey index (modulo \<open>2 ^ 32\<close>) are the same in both, or
  \<open>sessionCollision\<close>, computed from the two sessions, is a SHA-256 collision. And the key of a
  one-time session is never that of a last-resort session, up to such a collision (session.go).
\<close>

theorem session_key_binds_parties:
  assumes "x25519_laws P" and "wellSized a" and "wellSized b" and "wellSized a'" and "wellSized b'"
    and "buildTranscript a b bundle = Inr t"
    and "Decapsulate P priv ct t = Inr key" and "Decapsulate P priv' ct' t' = Inr key"
  shows "(buildTranscript a' b' bundle' = Inr t' \<longrightarrow>
      a = a' \<and> b = b' \<and> bundleRoot bundle = bundleRoot bundle' \<and>
        bundleIndex bundle mod 2 ^ 32 = bundleIndex bundle' mod 2 ^ 32 \<or>
      sha256Collision (sessionCollision P priv ct t priv' ct' t')) \<and>
    (buildLastResortTranscript a' b' lr = Inr t' \<and> length (lrPublicKey lr) = PublicKeySize \<longrightarrow>
      sha256Collision (sessionCollision P priv ct t priv' ct' t'))"
proof -
  have t: "t = (idEd25519 a @ idMLDSA a) @ (idEd25519 b @ idMLDSA b) @
      hashBytes (bundleRoot bundle) @ indexBytes (bundleIndex bundle)"
    using assms(6) by (simp add: buildTranscript_def)
  have bind: "t = t' \<or> sha256Collision (sessionCollision P priv ct t priv' ct' t')"
    by (rule Decapsulate_binds [OF assms(1,7,8)])
  have "a = a' \<and> b = b' \<and> bundleRoot bundle = bundleRoot bundle' \<and>
      bundleIndex bundle mod 2 ^ 32 = bundleIndex bundle' mod 2 ^ 32"
    if "buildTranscript a' b' bundle' = Inr t'" "t = t'"
  proof -
    have "a = a' \<and> b = b' \<and> hashBytes (bundleRoot bundle) @ indexBytes (bundleIndex bundle) =
        hashBytes (bundleRoot bundle') @ indexBytes (bundleIndex bundle')"
      using that by (intro two_identities_inj [OF assms(2-5)]) (simp add: t buildTranscript_def)
    moreover from this have "hashBytes (bundleRoot bundle) = hashBytes (bundleRoot bundle')"
      "word_of_int (bundleIndex bundle) = (word_of_int (bundleIndex bundle') :: u32)"
      by (simp_all add: indexBytes_be32)
    moreover from this(2) have "bundleIndex bundle mod 2 ^ 32 = bundleIndex bundle' mod 2 ^ 32"
      by (simp add: word_of_int_eq_iff take_bit_eq_mod)
    ultimately show ?thesis by (simp add: hashBytes_inject)
  qed
  moreover have "t \<noteq> t'"
    if lr: "buildLastResortTranscript a' b' lr = Inr t'" "length (lrPublicKey lr) = PublicKeySize"
  proof
    assume "t = t'"
    with lr(1) have "a = a' \<and> b = b' \<and>
        hashBytes (bundleRoot bundle) @ indexBytes (bundleIndex bundle) = lrPublicKey lr"
      by (intro two_identities_inj [OF assms(2-5)]) (simp add: t buildLastResortTranscript_def)
    then have "hashBytes (bundleRoot bundle) @ indexBytes (bundleIndex bundle) = lrPublicKey lr" by blast
    from arg_cong [OF this, of length] lr(2) show False
      by (simp add: PublicKeySize_def mlkem_PublicKeySize_def indexBytes_be32)
  qed
  ultimately show ?thesis using bind by blast
qed

lemma session_key_binds_parties_witness:
  "let bob = \<lparr>idEd25519 = replicate 32 1, idMLDSA = replicate 1952 2\<rparr>;
       bd = \<lparr>bundlePublicKey = [], bundleIndex = 7, bundleBatchSize = 8, bundleProof = [],
         bundleRoot = leafHash [], bundleRootSignature = \<lparr>sigEd25519 = [], sigMLDSA = []\<rparr>\<rparr>;
       ct = \<lparr>X25519Ephemeral = ecdh_PublicKey demoPrimitives (replicate 32 0),
         MLKEMCiphertext = replicate 1088 0\<rparr>
   in \<exists>t key. buildTranscript bob bob bd = Inr t \<and> Decapsulate demoPrimitives demoKemPriv ct t = Inr key \<and>
      (bob = bob \<and> bob = bob \<and> bundleRoot bd = bundleRoot bd \<and>
        bundleIndex bd mod 2 ^ 32 = bundleIndex bd mod 2 ^ 32 \<or>
       sha256Collision (sessionCollision demoPrimitives demoKemPriv ct t demoKemPriv ct t))"
proof -
  let ?bob = "\<lparr>idEd25519 = replicate 32 1, idMLDSA = replicate 1952 2\<rparr>"
  let ?bd = "\<lparr>bundlePublicKey = [], bundleIndex = 7, bundleBatchSize = 8, bundleProof = [],
     bundleRoot = leafHash [], bundleRootSignature = \<lparr>sigEd25519 = [], sigMLDSA = []\<rparr>\<rparr>"
  let ?ct = "\<lparr>X25519Ephemeral = ecdh_PublicKey demoPrimitives (replicate 32 0),
     MLKEMCiphertext = replicate 1088 0\<rparr>"
  have size: "wellSized ?bob" by (simp add: wellSized_def mldsa_PublicKeySize_def)
  obtain t where t: "buildTranscript ?bob ?bob ?bd = Inr t" by (simp add: buildTranscript_def)
  obtain ss where "ecdh_ECDH demoPrimitives (privX25519 demoKemPriv) (X25519Ephemeral ?ct) = Inr ss"
    using demo_ECDH by (auto simp: demoKemPriv_def)
  moreover obtain key where "combine ss (mlkem_decaps demoPrimitives (privMLKEM demoKemPriv) (replicate 1088 0)) t = Inr key"
    using combine_total by blast
  ultimately have d: "Decapsulate demoPrimitives demoKemPriv ?ct t = Inr key"
    by (simp add: Decapsulate_def mlkem_DecapsulateTo_def mlkem_CiphertextSize_def)
  from session_key_binds_parties [OF demo_x25519_laws size size size size t d d, of ?bd] t d
  show ?thesis unfolding Let_def by blast
qed

end
