(* ===== verification/Relay.thy ===== *)
theory Relay
  imports Prekey "HOL-Library.Sublist"
begin

text \<open>
  \<open>relay/relay.go\<close>: the in-memory relay, a prekey directory and a store-and-forward queue for
  opaque envelopes. Every method holds the server's lock for its whole body, so concurrent callers
  produce a sequence of whole operations: the step relation \<open>relayStep\<close> and its traces.
\<close>

section \<open>State\<close>

text \<open>30 days, in nanoseconds.\<close>

definition DefaultMessageTTL :: int where "DefaultMessageTTL = 30 * 24 * 3600 * 10 ^ 9"

record QueuedMessage =
  From :: gostring
  Envelope :: bytes
  QueuedAt :: gotime

record userPrekeys =
  bundles :: "Bundle list"
  consumed :: "bool list"
  nextCursor :: nat
  lastResort :: "LastResort option"
  lastResortUse :: int

record Server =
  identities :: "gostring \<rightharpoonup> IdPublicKey"
  prekeys :: "gostring \<rightharpoonup> userPrekeys"
  queues :: "gostring \<rightharpoonup> QueuedMessage list"

definition NewServer :: Server where
  "NewServer = \<lparr>identities = Map.empty, prekeys = Map.empty, queues = Map.empty\<rparr>"

section \<open>The prekey directory\<close>

definition remaining :: "userPrekeys \<Rightarrow> int" where
  "remaining u = fold (\<lambda>c n. if \<not> c then n + 1 else n) (consumed u) 0"

definition PublishIdentity :: "gostring \<Rightarrow> IdPublicKey \<Rightarrow> Server \<Rightarrow> Server" where
  "PublishIdentity userID pub s = s\<lparr>identities := (identities s)(userID \<mapsto> pub)\<rparr>"

definition FetchIdentity :: "gostring \<Rightarrow> (Server, IdPublicKey) action" where
  "FetchIdentity userID s =
     (case identities s userID of
        None \<Rightarrow> (Inl (GoError ErrUnknownUser), s)
      | Some pub \<Rightarrow> (Inr pub, s))"

definition PublishPrekeys :: "gostring \<Rightarrow> Bundle list \<Rightarrow> LastResort option \<Rightarrow> Server \<Rightarrow> Server" where
  "PublishPrekeys userID bs lr s = s\<lparr>prekeys := (prekeys s)(userID \<mapsto>
     \<lparr>bundles = bs, consumed = replicate (length bs) False, nextCursor = 0, lastResort = lr,
      lastResortUse = 0\<rparr>)\<rparr>"

text \<open>The search of \<open>FetchPrekeyBundle\<close> from iteration \<open>i\<close>, \<open>n\<close> iterations to go.\<close>

fun findUnconsumed :: "userPrekeys \<Rightarrow> nat \<Rightarrow> nat \<Rightarrow> fault + nat option" where
  "findUnconsumed up i 0 = Inr None"
| "findUnconsumed up i (Suc n) =
     (let idx = (nextCursor up + i) mod length (bundles up) in
      tryE (sliceAt (consumed up) (int idx)) (\<lambda>c.
      if \<not> c then Inr (Some idx) else findUnconsumed up (Suc i) n))"

definition FetchPrekeyBundle :: "gostring \<Rightarrow> (Server, Bundle option \<times> bool) action" where
  "FetchPrekeyBundle userID s =
     (case prekeys s userID of
        None \<Rightarrow> (Inl (GoError ErrNoPrekeysPublished), s)
      | Some up \<Rightarrow>
          (case findUnconsumed up 0 (length (bundles up)) of
             Inl e \<Rightarrow> (Inl e, s)
           | Inr (Some idx) \<Rightarrow>
               let up = up\<lparr>consumed := (consumed up)[idx := True],
                           nextCursor := (idx + 1) mod length (bundles up)\<rparr> in
               (tryE (sliceAt (bundles up) (int idx)) (\<lambda>b. Inr (Some b, False)),
                s\<lparr>prekeys := (prekeys s)(userID \<mapsto> up)\<rparr>)
           | Inr None \<Rightarrow>
               if lastResort up = None then (Inl (GoError ErrNoPrekeysAvailable), s)
               else (Inr (None, True),
                     s\<lparr>prekeys := (prekeys s)(userID \<mapsto> up\<lparr>lastResortUse := lastResortUse up + 1\<rparr>)\<rparr>)))"

definition LastResortPrekey :: "gostring \<Rightarrow> (Server, LastResort) action" where
  "LastResortPrekey userID s =
     (case prekeys s userID of
        None \<Rightarrow> (Inl (GoError ErrNoPrekeysPublished), s)
      | Some up \<Rightarrow>
          (case lastResort up of
             None \<Rightarrow> (Inl (GoError ErrNoPrekeysAvailable), s)
           | Some lr \<Rightarrow> (Inr lr, s)))"

record PrekeyTelemetry =
  Remaining :: int
  BatchSize :: int
  LastResortUses :: int

definition server_PrekeyTelemetry :: "gostring \<Rightarrow> (Server, PrekeyTelemetry) action" where
  "server_PrekeyTelemetry userID s =
     (case prekeys s userID of
        None \<Rightarrow> (Inl (GoError ErrNoPrekeysPublished), s)
      | Some up \<Rightarrow> (Inr \<lparr>Remaining = remaining up, BatchSize = int (length (bundles up)),
                         LastResortUses = lastResortUse up\<rparr>, s))"

section \<open>The message queue\<close>

text \<open>A missing map entry reads as a nil slice.\<close>

definition queueOf :: "Server \<Rightarrow> gostring \<Rightarrow> QueuedMessage list" where
  "queueOf s u = (case queues s u of None \<Rightarrow> [] | Some msgs \<Rightarrow> msgs)"

definition SendMessage :: "gostring \<Rightarrow> gostring \<Rightarrow> bytes \<Rightarrow> (Server \<times> world, unit) action" where
  "SendMessage recipientID senderID envelope =
     tryS (liftT (asks identities)) (\<lambda>ids.
     if ids recipientID = None then fail (GoError ErrUnknownUser)
     else tryS (liftW timeNow) (\<lambda>now.
          liftT (modify (\<lambda>s. s\<lparr>queues := (queues s)(recipientID \<mapsto> queueOf s recipientID @
            [\<lparr>From = senderID, Envelope = envelope, QueuedAt = now\<rparr>])\<rparr>))))"

definition PollMessages :: "gostring \<Rightarrow> Server \<Rightarrow> QueuedMessage list \<times> Server" where
  "PollMessages userID s = (queueOf s userID, s\<lparr>queues := (queues s)(userID := None)\<rparr>)"

text \<open>
  The inner loop of \<open>PurgeExpired\<close> over one queue, and the outer one over the users in the order
  in which Go's \<open>range\<close> visits the map, which the language leaves open.
\<close>

fun purgeQueue :: "gotime \<Rightarrow> int \<Rightarrow> QueuedMessage list \<Rightarrow> int \<Rightarrow> QueuedMessage list \<times> int" where
  "purgeQueue now ttl [] purged = ([], purged)"
| "purgeQueue now ttl (m # msgs) purged =
     (if timeSub now (QueuedAt m) > ttl then purgeQueue now ttl msgs (purged + 1)
      else case purgeQueue now ttl msgs purged of (kept, purged) \<Rightarrow> (m # kept, purged))"

definition purgeUser :: "gotime \<Rightarrow> int \<Rightarrow> gostring \<Rightarrow> int \<times> Server \<Rightarrow> int \<times> Server" where
  "purgeUser now ttl userID = (\<lambda>(purged, s).
     case purgeQueue now ttl (queueOf s userID) purged of (kept, purged) \<Rightarrow>
       (purged, s\<lparr>queues := (queues s)(userID := (if length kept = 0 then None else Some kept))\<rparr>))"

definition PurgeExpired :: "gostring list \<Rightarrow> gotime \<Rightarrow> int \<Rightarrow> Server \<Rightarrow> int \<times> Server" where
  "PurgeExpired order now ttl s = fold (purgeUser now ttl) order (0, s)"

section \<open>The server as a labelled transition system\<close>

datatype relayOp =
    DoPublishIdentity gostring IdPublicKey
  | DoFetchIdentity gostring
  | DoPublishPrekeys gostring "Bundle list" "LastResort option"
  | DoFetchBundle gostring
  | DoLastResort gostring
  | DoTelemetry gostring
  | DoSend gostring gostring bytes
  | DoPoll gostring
  | DoPurge gotime int

datatype reply =
    Done
  | Failed fault
  | GotIdentity IdPublicKey
  | GotBundle "Bundle option" bool
  | GotLastResort LastResort
  | GotTelemetry PrekeyTelemetry
  | GotMessages "QueuedMessage list"
  | Purged int

definition reply :: "('a \<Rightarrow> reply) \<Rightarrow> fault + 'a \<Rightarrow> reply" where
  "reply f r = (case r of Inl e \<Rightarrow> Failed e | Inr x \<Rightarrow> f x)"

lemma reply_simps [simp]: "reply f (Inl e) = Failed e" "reply f (Inr x) = f x"
  by (simp_all add: reply_def)

text \<open>One call of a method, under the lock. Only \<open>PurgeExpired\<close> has a choice, its map order.\<close>

inductive relayStep :: "Server \<times> world \<Rightarrow> relayOp \<times> reply \<Rightarrow> Server \<times> world \<Rightarrow> bool" where
  stepPublishIdentity:
    "relayStep (s, w) (DoPublishIdentity u pub, Done) (PublishIdentity u pub s, w)"
| stepFetchIdentity: "FetchIdentity u s = (r, s') \<Longrightarrow>
    relayStep (s, w) (DoFetchIdentity u, reply GotIdentity r) (s', w)"
| stepPublishPrekeys:
    "relayStep (s, w) (DoPublishPrekeys u bs lr, Done) (PublishPrekeys u bs lr s, w)"
| stepFetchBundle: "FetchPrekeyBundle u s = (r, s') \<Longrightarrow>
    relayStep (s, w) (DoFetchBundle u, reply (\<lambda>(b, l). GotBundle b l) r) (s', w)"
| stepLastResort: "LastResortPrekey u s = (r, s') \<Longrightarrow>
    relayStep (s, w) (DoLastResort u, reply GotLastResort r) (s', w)"
| stepTelemetry: "server_PrekeyTelemetry u s = (r, s') \<Longrightarrow>
    relayStep (s, w) (DoTelemetry u, reply GotTelemetry r) (s', w)"
| stepSend: "SendMessage u from env (s, w) = (r, (s', w')) \<Longrightarrow>
    relayStep (s, w) (DoSend u from env, reply (\<lambda>_. Done) r) (s', w')"
| stepPoll: "PollMessages u s = (msgs, s') \<Longrightarrow>
    relayStep (s, w) (DoPoll u, GotMessages msgs) (s', w)"
| stepPurge: "distinct order \<Longrightarrow> set order = dom (queues s) \<Longrightarrow> PurgeExpired order now ttl s = (n, s') \<Longrightarrow>
    relayStep (s, w) (DoPurge now ttl, Purged n) (s', w)"

inductive_cases relayStepE: "relayStep sw l sw'"

inductive_simps relayStep_ops:
  "relayStep (s, w) (DoPublishIdentity u pub, r) sw'"
  "relayStep (s, w) (DoPublishPrekeys u bs lr, r) sw'"
  "relayStep (s, w) (DoFetchIdentity u, r) sw'"
  "relayStep (s, w) (DoFetchBundle u, r) sw'"
  "relayStep (s, w) (DoLastResort u, r) sw'"
  "relayStep (s, w) (DoTelemetry u, r) sw'"
  "relayStep (s, w) (DoSend u f env, r) sw'"
  "relayStep (s, w) (DoPoll u, r) sw'"

text \<open>A run of a labelled system, with its labels.\<close>

inductive trace :: "('s \<Rightarrow> 'l \<Rightarrow> 's \<Rightarrow> bool) \<Rightarrow> 's \<Rightarrow> 'l list \<Rightarrow> 's \<Rightarrow> bool" for step where
  trace_Nil: "trace step s [] s"
| trace_Cons: "step s l t \<Longrightarrow> trace step t ls u \<Longrightarrow> trace step s (l # ls) u"

inductive_simps trace_Nil_iff [simp]: "trace step s [] u"
inductive_simps trace_Cons_iff: "trace step s (l # ls) u"

text \<open>
  \<open>simulation\<close> is the refinement interface: related states stay related, step by step with the
  same labels. \<open>preserved\<close> is its special case with no abstract state, an invariant.
\<close>

locale simulation =
  fixes step :: "'s \<Rightarrow> 'l \<Rightarrow> 's \<Rightarrow> bool"
    and astep :: "'a \<Rightarrow> 'l \<Rightarrow> 'a \<Rightarrow> bool"
    and rel :: "'s \<Rightarrow> 'a \<Rightarrow> bool"
  assumes simulates: "rel s a \<Longrightarrow> step s l t \<Longrightarrow> \<exists>b. astep a l b \<and> rel t b"
begin

lemma trace_simulated: "trace step s ls t \<Longrightarrow> rel s a \<Longrightarrow> \<exists>b. trace astep a ls b \<and> rel t b"
proof (induction arbitrary: a rule: trace.induct)
  case (trace_Cons s l t ls u)
  then show ?case using simulates by (blast intro: trace.trace_Cons)
qed (auto intro: trace_Nil)

end

locale preserved =
  fixes step :: "'s \<Rightarrow> 'l \<Rightarrow> 's \<Rightarrow> bool"
    and inv :: "'s \<Rightarrow> bool"
  assumes inv_step: "inv s \<Longrightarrow> step s l t \<Longrightarrow> inv t"

sublocale preserved \<subseteq> sim: simulation step "\<lambda>_ _ _. True" "\<lambda>s (_ :: unit). inv s"
  by unfold_locales (auto intro: inv_step)

context preserved
begin

lemma inv_trace: "trace step s ls t \<Longrightarrow> inv s \<Longrightarrow> inv t"
  using sim.trace_simulated by blast

end

section \<open>Purging\<close>

definition expired :: "gotime \<Rightarrow> int \<Rightarrow> QueuedMessage \<Rightarrow> bool" where
  "expired now ttl m \<longleftrightarrow> timeSub now (QueuedAt m) > ttl"

lemma purgeQueue_eq: "purgeQueue now ttl msgs purged =
    (filter (\<lambda>m. \<not> expired now ttl m) msgs, purged + int (length (filter (expired now ttl) msgs)))"
  by (induction msgs arbitrary: purged) (simp_all add: expired_def)

lemma purgeUser_eq: "purgeUser now ttl u (n, s) =
    (n + int (length (filter (expired now ttl) (queueOf s u))),
     s\<lparr>queues := (queues s)(u := (let kept = filter (\<lambda>m. \<not> expired now ttl m) (queueOf s u) in
        if kept = [] then None else Some kept))\<rparr>)"
  by (simp add: purgeUser_def purgeQueue_eq Let_def)

lemma queueOf_purgeUser: "queueOf (snd (purgeUser now ttl u (n, s))) v =
    (if v = u then filter (\<lambda>m. \<not> expired now ttl m) (queueOf s u) else queueOf s v)"
  by (simp add: purgeUser_eq queueOf_def Let_def)

text \<open>Over distinct users, each queue is filtered once, whatever the order.\<close>

definition purgedQueues :: "gotime \<Rightarrow> int \<Rightarrow> gostring set \<Rightarrow> Server \<Rightarrow> gostring \<rightharpoonup> QueuedMessage list" where
  "purgedQueues now ttl us s = (\<lambda>u. if u \<in> us then
     (let kept = filter (\<lambda>m. \<not> expired now ttl m) (queueOf s u) in if kept = [] then None else Some kept)
     else queues s u)"

lemma fold_purgeUser:
  "distinct us \<Longrightarrow> fold (purgeUser now ttl) us (n, s) =
     (n + int (\<Sum>u \<in> set us. length (filter (expired now ttl) (queueOf s u))),
      s\<lparr>queues := purgedQueues now ttl (set us) s\<rparr>)"
proof (induction us arbitrary: n s)
  case Nil
  then show ?case by (simp add: purgedQueues_def)
next
  case (Cons u us)
  let ?s = "snd (purgeUser now ttl u (n, s))"
  have other: "queueOf ?s v = queueOf s v" if "v \<in> set us" for v
    using Cons.prems that by (auto simp: queueOf_purgeUser)
  then have "(\<Sum>v \<in> set us. length (filter (expired now ttl) (queueOf ?s v))) =
      (\<Sum>v \<in> set us. length (filter (expired now ttl) (queueOf s v)))" by simp
  moreover have "purgedQueues now ttl (set us) ?s = purgedQueues now ttl (set (u # us)) s"
    using Cons.prems other by (auto simp: purgedQueues_def purgeUser_eq fun_eq_iff Let_def)
  ultimately show ?case
    using Cons.IH [of "fst (purgeUser now ttl u (n, s))" ?s] Cons.prems
    by (simp add: purgeUser_eq)
qed

lemma PurgeExpired_eq:
  "distinct order \<Longrightarrow> set order = dom (queues s) \<Longrightarrow> PurgeExpired order now ttl s =
     (int (\<Sum>u \<in> dom (queues s). length (filter (expired now ttl) (queueOf s u))),
      s\<lparr>queues := purgedQueues now ttl (dom (queues s)) s\<rparr>)"
  by (simp add: PurgeExpired_def fold_purgeUser)

lemma queueOf_purged:
  "queueOf (s\<lparr>queues := purgedQueues now ttl (dom (queues s)) s\<rparr>) u =
     filter (\<lambda>m. \<not> expired now ttl m) (queueOf s u)"
  by (auto simp: queueOf_def purgedQueues_def Let_def split: option.splits)

section \<open>The queue of one user, abstractly\<close>

text \<open>What \<open>relayStep\<close> means for the queue \<open>q\<close> of user \<open>u\<close>.\<close>

fun concernsMail :: "gostring \<Rightarrow> relayOp \<times> reply \<Rightarrow> bool" where
  "concernsMail u (DoSend v f env, r) = (v = u \<and> r = Done)"
| "concernsMail u (DoPoll v, r) = (v = u)"
| "concernsMail u (DoPurge now ttl, r) = True"
| "concernsMail u l = False"

inductive mailStep ::
  "gostring \<Rightarrow> QueuedMessage list \<Rightarrow> relayOp \<times> reply \<Rightarrow> QueuedMessage list \<Rightarrow> bool" for u where
  mailSend: "mailStep u q (DoSend u f env, Done) (q @ [\<lparr>From = f, Envelope = env, QueuedAt = t\<rparr>])"
| mailPoll: "mailStep u q (DoPoll u, GotMessages q) []"
| mailPurge: "mailStep u q (DoPurge now ttl, Purged n) (filter (\<lambda>m. \<not> expired now ttl m) q)"
| mailOther: "\<not> concernsMail u l \<Longrightarrow> mailStep u q l q"

inductive_cases mailStepE: "mailStep u q l q'"

lemma FetchPrekeyBundle_frame:
  "FetchPrekeyBundle u s = (r, s') \<Longrightarrow> queues s' = queues s \<and> identities s' = identities s"
  by (auto simp: FetchPrekeyBundle_def Let_def split: option.splits sum.splits if_splits)

lemma directory_reads:
  "FetchIdentity u s = (r, s') \<Longrightarrow> s' = s"
  "LastResortPrekey u s = (r2, s') \<Longrightarrow> s' = s"
  "server_PrekeyTelemetry u s = (r3, s') \<Longrightarrow> s' = s"
  by (auto simp: FetchIdentity_def LastResortPrekey_def server_PrekeyTelemetry_def split: option.splits)

lemma SendMessage_eq:
  "SendMessage u f env (s, w) =
     (if identities s u = None then (Inl (GoError ErrUnknownUser), (s, w))
      else (Inr (), (s\<lparr>queues := (queues s)(u \<mapsto> queueOf s u @
          [\<lparr>From = f, Envelope = env, QueuedAt = clock w (ticks w)\<rparr>])\<rparr>, w\<lparr>ticks := Suc (ticks w)\<rparr>)))"
  by (simp add: SendMessage_def tryS_step liftW_run)

lemma queueOf_simps [simp]:
  "queueOf (s\<lparr>queues := (queues s)(v \<mapsto> q)\<rparr>) u = (if u = v then q else queueOf s u)"
  "queueOf (s\<lparr>queues := (queues s)(v := None)\<rparr>) u = (if u = v then [] else queueOf s u)"
  "queueOf (s\<lparr>prekeys := pk\<rparr>) u = queueOf s u"
  "queueOf (s\<lparr>identities := ids\<rparr>) u = queueOf s u"
  by (simp_all add: queueOf_def)

lemma queueOf_cong: "queues s' = queues s \<Longrightarrow> queueOf s' = queueOf s"
  by (rule ext) (simp add: queueOf_def)

lemma relayStep_mail:
  assumes "relayStep sw l sw'"
  shows "mailStep u (queueOf (fst sw) u) l (queueOf (fst sw') u)"
  using assms
proof cases
  case (stepFetchBundle v s r s' w)
  from queueOf_cong [of s' s] FetchPrekeyBundle_frame [OF stepFetchBundle(4)] show ?thesis
    by (simp add: stepFetchBundle(1-3) mailOther)
next
  case (stepSend v f env s w r s' w')
  then show ?thesis
    by (cases "v = u") (auto simp: SendMessage_eq mailOther intro: mailSend split: if_splits)
next
  case (stepPoll v s msgs s' w)
  then show ?thesis
    by (cases "v = u") (auto simp: PollMessages_def mailOther intro: mailPoll)
next
  case (stepPurge order s now ttl n s' w)
  then show ?thesis by (auto simp: PurgeExpired_eq queueOf_purged intro: mailPurge)
qed (auto simp: PublishIdentity_def PublishPrekeys_def mailOther dest!: directory_reads)

interpretation mail: simulation relayStep "mailStep u" "\<lambda>sw q. q = queueOf (fst sw) u" for u
  by unfold_locales (auto intro: relayStep_mail)

text \<open>Without the time stamps: what was accepted for \<open>u\<close> and what \<open>u\<close> was handed, in order.\<close>

definition strip :: "QueuedMessage \<Rightarrow> gostring \<times> bytes" where
  "strip m = (From m, Envelope m)"

fun accepted :: "gostring \<Rightarrow> (relayOp \<times> reply) list \<Rightarrow> (gostring \<times> bytes) list" where
  "accepted u [] = []"
| "accepted u ((DoSend v f env, Done) # ls) = (if v = u then [(f, env)] else []) @ accepted u ls"
| "accepted u (l # ls) = accepted u ls"

fun delivered :: "gostring \<Rightarrow> (relayOp \<times> reply) list \<Rightarrow> QueuedMessage list" where
  "delivered u [] = []"
| "delivered u ((DoPoll v, GotMessages ms) # ls) = (if v = u then ms else []) @ delivered u ls"
| "delivered u (l # ls) = delivered u ls"

lemma uninvolved:
  "\<not> concernsMail u l \<Longrightarrow> accepted u (l # ls) = accepted u ls"
  "\<not> concernsMail u l \<Longrightarrow> delivered u (l # ls) = delivered u ls"
  by (cases "(u, l # ls)" rule: accepted.cases; simp) (cases "(u, l # ls)" rule: delivered.cases; simp)

lemma mail_trace:
  "trace (mailStep u) q ls q' \<Longrightarrow>
     subseq (map strip (delivered u ls @ q')) (map strip q @ accepted u ls) \<and>
     ((\<forall>l \<in> set ls. \<forall>now ttl. fst l \<noteq> DoPurge now ttl) \<longrightarrow>
        map strip (delivered u ls @ q') = map strip q @ accepted u ls)"
proof (induction rule: trace.induct)
  case (trace_Cons q l t ls q')
  from trace_Cons.hyps(1) show ?case
  proof cases
    case (mailPurge now ttl n)
    have "subseq (map strip t) (map strip q)"
      by (simp add: mailPurge(2) subseq_map)
    then have "subseq (map strip t @ accepted u ls) (map strip q @ accepted u ls)" by simp
    with trace_Cons.IH show ?thesis by (auto simp: mailPurge(1) intro: subseq_order.trans)
  next
    case (mailSend f env now)
    with trace_Cons.IH show ?thesis by (simp add: strip_def)
  next
    case mailPoll
    with trace_Cons.IH show ?thesis by (simp add: subseq_append')
  next
    case mailOther
    with trace_Cons.IH show ?thesis by (simp add: uninvolved)
  qed
qed simp

section \<open>The directory entry of one user, abstractly\<close>

text \<open>
  The consumed flags and the cursor amount to a counter: the \<open>k\<close>-th request gets the \<open>k\<close>-th bundle,
  and after the last one the last-resort key.
\<close>

type_synonym entry = "Bundle list \<times> LastResort option \<times> nat"

definition nthIssue :: "Bundle list \<Rightarrow> LastResort option \<Rightarrow> nat \<Rightarrow> reply" where
  "nthIssue bs lr k =
     (if k < length bs then GotBundle (Some (bs ! k)) False
      else if lr = None then Failed (GoError ErrNoPrekeysAvailable) else GotBundle None True)"

definition entryTelemetry :: "entry \<Rightarrow> PrekeyTelemetry" where
  "entryTelemetry = (\<lambda>(bs, lr, k). \<lparr>Remaining = int (length bs - k), BatchSize = int (length bs),
     LastResortUses = (if lr = None then 0 else int (k - length bs))\<rparr>)"

definition entryState :: "entry \<Rightarrow> userPrekeys" where
  "entryState = (\<lambda>(bs, lr, k). let n = length bs in
     \<lparr>bundles = bs, consumed = replicate (min k n) True @ replicate (n - k) False,
      nextCursor = min k n mod n, lastResort = lr,
      lastResortUse = (if lr = None then 0 else int (k - n))\<rparr>)"

fun concernsDirectory :: "gostring \<Rightarrow> relayOp \<times> reply \<Rightarrow> bool" where
  "concernsDirectory u (DoPublishPrekeys v bs lr, r) = (v = u)"
| "concernsDirectory u (DoFetchBundle v, r) = (v = u)"
| "concernsDirectory u (DoLastResort v, r) = (v = u)"
| "concernsDirectory u (DoTelemetry v, r) = (v = u)"
| "concernsDirectory u l = False"

inductive directoryStep :: "gostring \<Rightarrow> entry \<Rightarrow> relayOp \<times> reply \<Rightarrow> entry \<Rightarrow> bool" for u where
  dirPublish: "directoryStep u a (DoPublishPrekeys u bs lr, Done) (bs, lr, 0)"
| dirFetch: "directoryStep u (bs, lr, k) (DoFetchBundle u, nthIssue bs lr k) (bs, lr, Suc k)"
| dirLastResort: "directoryStep u (bs, lr, k) (DoLastResort u,
    case lr of None \<Rightarrow> Failed (GoError ErrNoPrekeysAvailable) | Some l \<Rightarrow> GotLastResort l) (bs, lr, k)"
| dirTelemetry: "directoryStep u a (DoTelemetry u, GotTelemetry (entryTelemetry a)) a"
| dirOther: "\<not> concernsDirectory u l \<Longrightarrow> directoryStep u a l a"

text \<open>The search finds the slot under the cursor, or none when all are consumed.\<close>

lemma findUnconsumed_all:
  "\<forall>c \<in> set (consumed up). c \<Longrightarrow> length (consumed up) = length (bundles up) \<Longrightarrow> bundles up \<noteq> [] \<Longrightarrow>
     findUnconsumed up i n = Inr None"
  by (induction n arbitrary: i) (simp_all add: Let_def sliceAt_def all_set_conv_all_nth)

lemma entryState_simps [simp]:
  "bundles (entryState (bs, lr, k)) = bs"
  "lastResort (entryState (bs, lr, k)) = lr"
  by (simp_all add: entryState_def Let_def)

lemma findUnconsumed_entry:
  "findUnconsumed (entryState (bs, lr, k)) 0 (length bs) = Inr (if k < length bs then Some k else None)"
proof (cases "k < length bs")
  case True
  then obtain n where "length bs = Suc n" by (cases bs) auto
  with True show ?thesis by (simp add: entryState_def Let_def nth_append)
next
  case False
  then show ?thesis
    by (cases "bs = []") (simp_all add: entryState_def Let_def findUnconsumed_all)
qed

lemma entry_advance:
  "k < length bs \<Longrightarrow>
     (entryState (bs, lr, k))\<lparr>consumed := (consumed (entryState (bs, lr, k)))[k := True],
       nextCursor := Suc k mod length bs\<rparr> = entryState (bs, lr, Suc k)"
proof -
  assume k: "k < length bs"
  then have "replicate (length bs - k) False = False # replicate (length bs - Suc k) False"
    by (simp flip: replicate_Suc add: Suc_diff_Suc)
  then have "(replicate k True @ replicate (length bs - k) False)[k := True] =
      replicate (Suc k) True @ replicate (length bs - Suc k) False"
    by (simp add: list_update_append replicate_append_same)
  with k show ?thesis by (simp add: entryState_def Let_def)
qed

lemma FetchPrekeyBundle_entry:
  assumes "prekeys s u = Some (entryState (bs, lr, k))"
  shows "\<exists>r s'. FetchPrekeyBundle u s = (r, s') \<and> reply (\<lambda>(b, l). GotBundle b l) r = nthIssue bs lr k \<and>
    prekeys s' = (prekeys s)(u \<mapsto> entryState (bs, lr, Suc k))"
proof (cases "k < length bs")
  case True
  then show ?thesis
    using entry_advance [OF True, of lr]
    by (simp add: FetchPrekeyBundle_def assms findUnconsumed_entry Let_def nthIssue_def)
next
  case False
  have "lr = None \<Longrightarrow> entryState (bs, lr, Suc k) = entryState (bs, lr, k)"
    and "lr \<noteq> None \<Longrightarrow> (entryState (bs, lr, k))\<lparr>lastResortUse := lastResortUse (entryState (bs, lr, k)) + 1\<rparr> =
      entryState (bs, lr, Suc k)"
    using False by (auto simp: entryState_def Let_def of_nat_diff)
  with False show ?thesis
    by (cases lr) (simp_all add: FetchPrekeyBundle_def assms findUnconsumed_entry nthIssue_def
        fun_upd_idem)
qed

lemma FetchPrekeyBundle_next:
  assumes "prekeys s u = Some (entryState (bs, lr, k))" and "k < length bs"
  shows "\<exists>s'. FetchPrekeyBundle u s = (Inr (Some (bs ! k), False), s')"
proof -
  obtain r s' where run: "FetchPrekeyBundle u s = (r, s')"
    and r: "reply (\<lambda>(b, l). GotBundle b l) r = nthIssue bs lr k"
    using FetchPrekeyBundle_entry [OF assms(1)] by blast
  from r assms(2) have "r = Inr (Some (bs ! k), False)"
    by (cases r) (auto simp: nthIssue_def split: prod.splits)
  with run show ?thesis by blast
qed

lemma remaining_eq: "remaining up = int (length (filter Not (consumed up)))"
proof -
  have "fold (\<lambda>c n. if \<not> c then n + 1 else n) cs m = m + int (length (filter Not cs))" for cs and m :: int
    by (induction cs arbitrary: m) simp_all
  then show ?thesis by (simp add: remaining_def)
qed

lemma telemetry_entry:
  "prekeys s u = Some (entryState a) \<Longrightarrow>
     server_PrekeyTelemetry u s = (Inr (entryTelemetry a), s)"
  by (cases a) (simp add: server_PrekeyTelemetry_def remaining_eq entryState_def entryTelemetry_def Let_def)

lemma FetchPrekeyBundle_other: "FetchPrekeyBundle v s = (r, s') \<Longrightarrow> v \<noteq> u \<Longrightarrow> prekeys s' u = prekeys s u"
  by (auto simp: FetchPrekeyBundle_def Let_def split: option.splits sum.splits if_splits)

lemma relayStep_directory:
  assumes "relayStep sw l sw'" and "prekeys (fst sw) u = Some (entryState a)"
  shows "\<exists>b. directoryStep u a l b \<and> prekeys (fst sw') u = Some (entryState b)"
proof (cases "concernsDirectory u l")
  case False
  from assms(1) have "prekeys (fst sw') u = prekeys (fst sw) u"
    using False
    by cases (auto simp: PublishIdentity_def PublishPrekeys_def PollMessages_def PurgeExpired_eq
        SendMessage_eq dest: FetchPrekeyBundle_other dest!: directory_reads split: if_splits)
  with False assms(2) dirOther show ?thesis by fastforce
next
  case True
  obtain bs lr k where a: "a = (bs, lr, k)" by (cases a)
  from assms(1) show ?thesis
  proof cases
    case (stepPublishPrekeys s w v bs' lr')
    with True have "prekeys (fst sw') u = Some (entryState (bs', lr', 0))"
      by (simp add: PublishPrekeys_def entryState_def Let_def)
    with True stepPublishPrekeys show ?thesis using dirPublish by fastforce
  next
    case (stepFetchBundle v s r s' w)
    with True assms(2) FetchPrekeyBundle_entry [of s u bs lr k]
    have "reply (\<lambda>(b, l). GotBundle b l) r = nthIssue bs lr k"
      "prekeys s' = (prekeys s)(u \<mapsto> entryState (bs, lr, Suc k))" by (auto simp: a)
    with True stepFetchBundle show ?thesis by (auto simp: a intro!: exI dirFetch)
  next
    case (stepLastResort v s r s' w)
    with True assms(2)
    have "s' = s" "reply GotLastResort r =
        (case lr of None \<Rightarrow> Failed (GoError ErrNoPrekeysAvailable) | Some l \<Rightarrow> GotLastResort l)"
      by (auto simp: LastResortPrekey_def a split: option.splits)
    with True stepLastResort assms(2) dirLastResort [of u bs lr k] show ?thesis by (auto simp: a)
  next
    case (stepTelemetry v s r s' w)
    with True assms(2) telemetry_entry [of s u a] have "s' = s" "r = Inr (entryTelemetry a)" by auto
    with True stepTelemetry assms(2) dirTelemetry [of u a] show ?thesis by (intro exI [of _ a]) auto
  qed (use True in auto)
qed

interpretation directory: simulation relayStep "directoryStep u"
  "\<lambda>sw a. prekeys (fst sw) u = Some (entryState a)" for u
  by unfold_locales (rule relayStep_directory)

text \<open>What the requests for \<open>u\<close> were answered, in order.\<close>

fun issued :: "gostring \<Rightarrow> (relayOp \<times> reply) list \<Rightarrow> reply list" where
  "issued u [] = []"
| "issued u ((DoFetchBundle v, r) # ls) = (if v = u then [r] else []) @ issued u ls"
| "issued u (l # ls) = issued u ls"

definition noRepublish :: "gostring \<Rightarrow> (relayOp \<times> reply) list \<Rightarrow> bool" where
  "noRepublish u ls \<longleftrightarrow> (\<forall>l \<in> set ls. \<forall>bs lr. fst l \<noteq> DoPublishPrekeys u bs lr)"

lemma issued_uninvolved: "\<not> concernsDirectory u l \<Longrightarrow> issued u (l # ls) = issued u ls"
  by (cases "(u, l # ls)" rule: issued.cases) auto

lemma directory_trace:
  "trace (directoryStep u) a ls b \<Longrightarrow> a = (bs, lr, k) \<Longrightarrow> noRepublish u ls \<Longrightarrow>
     issued u ls = map (nthIssue bs lr) [k..<k + length (issued u ls)] \<and>
     b = (bs, lr, k + length (issued u ls))"
proof (induction arbitrary: k rule: trace.induct)
  case (trace_Cons a l t ls b)
  have nr: "noRepublish u ls" using trace_Cons.prems(2) by (simp add: noRepublish_def)
  from trace_Cons.hyps(1) show ?case
  proof cases
    case dirPublish
    with trace_Cons.prems(2) show ?thesis by (simp add: noRepublish_def)
  next
    case (dirFetch bs' lr' k')
    with trace_Cons.prems(1) have e: "bs' = bs" "lr' = lr" "k' = k" by simp_all
    from trace_Cons.IH [OF _ nr, of "Suc k"] dirFetch(3)
    have "issued u ls = map (nthIssue bs lr) [Suc k..<Suc k + length (issued u ls)] \<and>
        b = (bs, lr, Suc k + length (issued u ls))" by (simp add: e)
    then show ?thesis
      by (auto simp: dirFetch(2) e upt_conv_Cons simp del: upt_Suc)
  next
    case dirOther
    with trace_Cons.IH [OF _ nr] trace_Cons.prems(1) show ?thesis by (simp add: issued_uninvolved)
  qed (use trace_Cons.IH [OF _ nr] trace_Cons.prems(1) in auto)
qed simp

section \<open>The invariant of the server\<close>

definition isEntry :: "userPrekeys \<Rightarrow> bool" where
  "isEntry up \<longleftrightarrow> (\<exists>bs lr k. up = entryState (bs, lr, k))"

definition queuesOk :: "Server \<Rightarrow> bool" where
  "queuesOk s \<longleftrightarrow> finite (dom (queues s)) \<and>
     (\<forall>u q. queues s u = Some q \<longrightarrow> q \<noteq> [] \<and> identities s u \<noteq> None)"

definition relayInv :: "Server \<Rightarrow> bool" where
  "relayInv s \<longleftrightarrow> (\<forall>u up. prekeys s u = Some up \<longrightarrow> isEntry up) \<and> queuesOk s"

lemma relayInv_NewServer: "relayInv NewServer"
  by (simp add: relayInv_def queuesOk_def NewServer_def)

text \<open>A directory entry appears only by publication.\<close>

lemma entry_appears:
  assumes "relayStep sw l sw'" and "prekeys (fst sw) u = None" and "prekeys (fst sw') u = Some up"
  shows "isEntry up"
  using assms(1)
proof cases
  case (stepPublishPrekeys s w v bs lr)
  with assms(2,3) have "up = entryState (bs, lr, 0)"
    by (auto simp: PublishPrekeys_def entryState_def Let_def split: if_splits)
  then show ?thesis unfolding isEntry_def by blast
qed (use assms(2,3) in \<open>auto simp: PublishIdentity_def PollMessages_def PurgeExpired_eq SendMessage_eq
      FetchPrekeyBundle_def Let_def dest!: directory_reads
      split: if_splits option.splits sum.splits\<close>)

lemma entries_step:
  assumes "relayStep sw l sw'" and "\<forall>u up. prekeys (fst sw) u = Some up \<longrightarrow> isEntry up"
    and "prekeys (fst sw') u = Some up"
  shows "isEntry up"
proof (cases "prekeys (fst sw) u")
  case None
  then show ?thesis by (rule entry_appears [OF assms(1) _ assms(3)])
next
  case (Some up')
  with assms(2) obtain bs lr k where "up' = entryState (bs, lr, k)" unfolding isEntry_def by blast
  with relayStep_directory [OF assms(1)] Some
  obtain b where "prekeys (fst sw') u = Some (entryState b)" by blast
  with assms(3) show ?thesis unfolding isEntry_def by (cases b) auto
qed

lemma queuesOk_step:
  assumes "relayStep sw l sw'" and "queuesOk (fst sw)"
  shows "queuesOk (fst sw')"
  using assms(1)
proof cases
  case (stepFetchBundle u s r s' w)
  from FetchPrekeyBundle_frame [OF stepFetchBundle(4)] assms(2) show ?thesis
    by (simp add: queuesOk_def stepFetchBundle(1,3))
next
  case (stepPurge order s now ttl n s' w)
  have "dom (purgedQueues now ttl (dom (queues s)) s) \<subseteq> dom (queues s)"
    by (auto simp: purgedQueues_def split: if_splits)
  moreover have "finite (dom (queues s))" using assms(2) stepPurge by (simp add: queuesOk_def)
  ultimately have "finite (dom (purgedQueues now ttl (dom (queues s)) s))" by (rule finite_subset)
  with stepPurge assms(2) show ?thesis
    by (auto simp: PurgeExpired_eq queuesOk_def purgedQueues_def Let_def split: if_splits)
qed (use assms(2) in \<open>auto simp: queuesOk_def PublishIdentity_def PublishPrekeys_def PollMessages_def
      SendMessage_eq queueOf_def dest!: directory_reads split: if_splits option.splits\<close>)

interpretation relay: preserved relayStep "\<lambda>sw. relayInv (fst sw)"
proof unfold_locales
  fix sw sw' :: "Server \<times> world" and l
  assume inv: "relayInv (fst sw)" and step: "relayStep sw l sw'"
  have "queuesOk (fst sw')"
    using inv by (intro queuesOk_step [OF step]) (simp add: relayInv_def)
  moreover have "\<forall>u up. prekeys (fst sw') u = Some up \<longrightarrow> isEntry up"
    using entries_step [OF step] inv unfolding relayInv_def by blast
  ultimately show "relayInv (fst sw')" unfolding relayInv_def by blast
qed

lemma relayStep_errors:
  assumes "relayStep sw (op, Failed e) sw'" and "relayInv (fst sw)"
  shows "e \<in> GoError ` {ErrUnknownUser, ErrNoPrekeysPublished, ErrNoPrekeysAvailable}"
  using assms(1)
proof cases
  case (stepFetchBundle u s r s' w)
  show ?thesis
  proof (cases "prekeys s u")
    case None
    with stepFetchBundle show ?thesis by (auto simp: FetchPrekeyBundle_def)
  next
    case (Some up)
    then have "isEntry up" using assms(2) stepFetchBundle by (auto simp: relayInv_def)
    with Some obtain bs lr k where "prekeys s u = Some (entryState (bs, lr, k))"
      unfolding isEntry_def by blast
    from FetchPrekeyBundle_entry [OF this] stepFetchBundle show ?thesis
      by (auto simp: nthIssue_def split: if_splits)
  qed
qed (auto simp: reply_def FetchIdentity_def LastResortPrekey_def server_PrekeyTelemetry_def SendMessage_eq
      split: option.splits if_splits)

text \<open>Every method can run in every state of the invariant.\<close>

lemma relayStep_enabled: "relayInv s \<Longrightarrow> \<exists>r sw'. relayStep (s, w) (op, r) sw'"
proof -
  assume "relayInv s"
  then have "finite (dom (queues s))" by (simp add: relayInv_def queuesOk_def)
  then obtain order where order: "distinct order" "set order = dom (queues s)"
    using finite_distinct_list by metis
  show ?thesis
  proof (cases op)
    case (DoSend u f e)
    then show ?thesis by (metis stepSend surj_pair)
  qed (metis order relayStep.intros surj_pair)+
qed

section \<open>Properties\<close>

text \<open>
  C10: a one-time prekey is handed out once, and depletion falls back to the last-resort key. After
  \<open>PublishPrekeys\<close> of \<open>bs\<close> for \<open>u\<close>, in any sequence of calls by any users in which \<open>u\<close> does not
  publish again, the \<open>k\<close>-th \<open>FetchPrekeyBundle\<close> for \<open>u\<close> returns the \<open>k\<close>-th bundle of \<open>bs\<close>; once
  all are consumed it reports the last-resort key, or \<open>ErrNoPrekeysAvailable\<close> when there is none;
  and \<open>PrekeyTelemetry\<close> counts what is left and the fallbacks.
\<close>

theorem prekeys_issued_once:
  assumes "trace relayStep (PublishPrekeys u bs lr s, w) calls (s', w')" and "noRepublish u calls"
  shows "issued u calls = map (nthIssue bs lr) [0..<length (issued u calls)] \<and>
    server_PrekeyTelemetry u s' =
      (Inr \<lparr>Remaining = int (length bs - length (issued u calls)), BatchSize = int (length bs),
            LastResortUses = (if lr = None then 0 else int (length (issued u calls) - length bs))\<rparr>, s')"
proof -
  have "prekeys (fst (PublishPrekeys u bs lr s, w)) u = Some (entryState (bs, lr, 0))"
    by (simp add: PublishPrekeys_def entryState_def Let_def)
  from directory.trace_simulated [OF assms(1) this] obtain b where
    b: "trace (directoryStep u) (bs, lr, 0) calls b" "prekeys s' u = Some (entryState b)" by auto
  from directory_trace [OF b(1) refl assms(2)] telemetry_entry [OF b(2)] show ?thesis
    by (simp add: entryTelemetry_def)
qed

lemma prekeys_issued_once_witness:
  "\<exists>calls s' w'. trace relayStep (PublishPrekeys [1] [] None NewServer, demoWorld 0) calls (s', w') \<and>
     calls = [(DoFetchBundle [1], Failed (GoError ErrNoPrekeysAvailable))] \<and>
     issued [1] calls = map (nthIssue [] None) [0..<1]"
proof -
  let ?s = "PublishPrekeys [1] [] None NewServer"
  let ?calls = "[(DoFetchBundle [1], Failed (GoError ErrNoPrekeysAvailable))]"
  have "FetchPrekeyBundle [1] ?s = (Inl (GoError ErrNoPrekeysAvailable), ?s)"
    by (simp add: FetchPrekeyBundle_def PublishPrekeys_def)
  from stepFetchBundle [OF this, of "demoWorld 0"]
  have t: "trace relayStep (?s, demoWorld 0) ?calls (?s, demoWorld 0)"
    by (simp add: trace_Cons_iff)
  from prekeys_issued_once [OF t] have "issued [1] ?calls = map (nthIssue [] None) [0..<1]"
    by (simp add: noRepublish_def)
  with t show ?thesis by blast
qed

text \<open>
  C16: store and forward is in order and at most once, and exactly once when nothing is purged. In
  any sequence of calls, what \<open>PollMessages\<close> returned for \<open>u\<close> and what is still queued for \<open>u\<close> is
  a subsequence of what was queued before and every accepted \<open>SendMessage\<close> to \<open>u\<close>, senders and
  envelopes unchanged; it is all of it when \<open>PurgeExpired\<close> was not called.
\<close>

theorem relay_delivers_in_order:
  assumes "trace relayStep (s, w) calls (s', w')"
  shows "subseq (map strip (delivered u calls @ queueOf s' u))
      (map strip (queueOf s u) @ accepted u calls) \<and>
    ((\<forall>(op, r) \<in> set calls. \<forall>now ttl. op \<noteq> DoPurge now ttl) \<longrightarrow>
       map strip (delivered u calls @ queueOf s' u) = map strip (queueOf s u) @ accepted u calls)"
proof -
  from mail.trace_simulated [OF assms refl]
  have "trace (mailStep u) (queueOf s u) calls (queueOf s' u)" by simp
  from mail_trace [OF this] show ?thesis by fastforce
qed

lemma relay_delivers_in_order_witness:
  "\<exists>calls s' w'. trace relayStep
       (PublishIdentity [1] \<lparr>idEd25519 = [], idMLDSA = []\<rparr> NewServer, demoWorld 0) calls (s', w') \<and>
     calls = [(DoSend [1] [2] [7], Done),
       (DoPoll [1], GotMessages [\<lparr>From = [2], Envelope = [7], QueuedAt = 0\<rparr>])] \<and>
     map strip (delivered [1] calls @ queueOf s' [1]) = [([2], [7])]"
proof -
  let ?s = "PublishIdentity [1] \<lparr>idEd25519 = [], idMLDSA = []\<rparr> NewServer"
  let ?m = "\<lparr>From = [2], Envelope = [7], QueuedAt = 0\<rparr>"
  let ?calls = "[(DoSend [1] [2] [7], Done), (DoPoll [1], GotMessages [?m])]"
  have "\<exists>s1 w1. relayStep (?s, demoWorld 0) (DoSend [1] [2] [7], Done) (s1, w1) \<and> queueOf s1 [1] = [?m]"
    by (simp add: relayStep_ops SendMessage_eq PublishIdentity_def NewServer_def queueOf_def demoWorld_def)
  then obtain s1 w1 where s1: "relayStep (?s, demoWorld 0) (DoSend [1] [2] [7], Done) (s1, w1)"
    "queueOf s1 [1] = [?m]" by blast
  moreover have "\<exists>s2 w2. relayStep (s1, w1) (DoPoll [1], GotMessages [?m]) (s2, w2)"
    using s1(2) by (simp add: relayStep_ops PollMessages_def)
  ultimately obtain s2 w2 where t: "trace relayStep (?s, demoWorld 0) ?calls (s2, w2)"
    by (blast intro: trace_Cons trace_Nil)
  have "map strip (delivered [1] ?calls @ queueOf s2 [1]) = map strip (queueOf ?s [1]) @ [([2], [7])]"
    using conjunct2 [OF relay_delivers_in_order [OF t, of "[1]"]] by simp
  moreover have "queueOf ?s [1] = []" by (simp add: queueOf_def PublishIdentity_def NewServer_def)
  ultimately have d: "map strip (delivered [1] ?calls @ queueOf s2 [1]) = [([2], [7])]" by simp
  show ?thesis
    by (rule exI [of _ ?calls], rule exI [of _ s2], rule exI [of _ w2]) (intro conjI refl t d)
qed

text \<open>
  C29: \<open>PurgeExpired\<close> removes exactly the messages older than the ttl, keeps the rest in order,
  returns how many it removed and touches nothing else; the order in which Go visits the map
  of queues, which the language leaves open, does not matter.
\<close>

theorem purge_removes_exactly_expired:
  assumes "distinct order" and "set order = dom (queues s)" and "PurgeExpired order now ttl s = (n, s')"
  shows "queueOf s' u = filter (\<lambda>m. timeSub now (QueuedAt m) \<le> ttl) (queueOf s u) \<and>
    n = int (\<Sum>u \<in> dom (queues s). length (queueOf s u) - length (queueOf s' u)) \<and>
    identities s' = identities s \<and> prekeys s' = prekeys s \<and>
    (\<forall>order'. distinct order' \<and> set order' = dom (queues s) \<longrightarrow> PurgeExpired order' now ttl s = (n, s'))"
proof -
  have e: "n = int (\<Sum>u \<in> dom (queues s). length (filter (expired now ttl) (queueOf s u)))"
    "s' = s\<lparr>queues := purgedQueues now ttl (dom (queues s)) s\<rparr>"
    using assms by (simp_all add: PurgeExpired_eq)
  have "length (filter (expired now ttl) q) = length q - length (filter (\<lambda>m. \<not> expired now ttl m) q)" for q
    using sum_length_filter_compl [of "expired now ttl" q] by simp
  moreover have "queueOf s' u = filter (\<lambda>m. timeSub now (QueuedAt m) \<le> ttl) (queueOf s u)" for u
    by (simp add: e(2) queueOf_purged expired_def not_less)
  ultimately show ?thesis
    using assms(3) by (simp add: e PurgeExpired_eq queueOf_purged)
qed

lemma purge_removes_exactly_expired_witness:
  "let old = \<lparr>From = [2], Envelope = [7], QueuedAt = 0\<rparr>; new = \<lparr>From = [2], Envelope = [8], QueuedAt = 5\<rparr>;
       s = NewServer\<lparr>queues := [[1] \<mapsto> [old, new], [3] \<mapsto> [old]]\<rparr>;
       s' = snd (PurgeExpired [[1], [3]] 10 7 s)
   in queueOf s' [1] = [new] \<and> queueOf s' [3] = [] \<and> PurgeExpired [[3], [1]] 10 7 s = (2, s')"
proof -
  let ?old = "\<lparr>From = [2], Envelope = [7], QueuedAt = 0\<rparr>"
  let ?new = "\<lparr>From = [2], Envelope = [8], QueuedAt = 5\<rparr>"
  let ?s = "NewServer\<lparr>queues := [[1] \<mapsto> [?old, ?new], [3] \<mapsto> [?old]]\<rparr>"
  have dom: "set [[1], [3]] = dom (queues ?s)" "set [[3], [1]] = dom (queues ?s)"
    by (auto simp: NewServer_def)
  have d: "distinct [[1 :: byte], [3]]" "distinct [[3 :: byte], [1]]" by simp_all
  have q: "queueOf ?s [1] = [?old, ?new]" "queueOf ?s [3] = [?old]" by (simp_all add: queueOf_def)
  obtain n s' where p: "PurgeExpired [[1], [3]] 10 7 ?s = (n, s')" by fastforce
  note r = purge_removes_exactly_expired [OF d(1) dom(1) p]
  have "queueOf s' [1] = [?new]" "queueOf s' [3] = []"
    using r [of "[1]"] r [of "[3]"] by (simp_all add: q timeSub_def)
  moreover have "PurgeExpired [[3], [1]] 10 7 ?s = (n, s')" using r d(2) dom(2) by blast
  moreover have "n = 2"
    using conjunct1 [OF conjunct2 [OF r]] calculation(1,2) dom(1) [symmetric] by (simp add: q)
  ultimately show ?thesis by (simp add: Let_def p)
qed

text \<open>
  C20: the relay never faults. In every state reachable from \<open>NewServer\<close> by calls of its methods,
  in any order and number, each directory entry is a published batch with a number of issues made
  on it, no queue is empty and each belongs to a known user, every method can be called, and a call
  that fails returns one of the three declared errors, never a panic.
\<close>

theorem relay_reachable_states_safe:
  assumes "trace relayStep (NewServer, w) calls (s, w')"
  shows "(\<forall>u up. prekeys s u = Some up \<longrightarrow> (\<exists>bs lr k. up = entryState (bs, lr, k))) \<and>
    (\<forall>u q. queues s u = Some q \<longrightarrow> q \<noteq> [] \<and> identities s u \<noteq> None) \<and>
    (\<forall>op. \<exists>r sw. relayStep (s, w') (op, r) sw) \<and>
    (\<forall>op e sw. relayStep (s, w') (op, Failed e) sw \<longrightarrow>
       e \<in> GoError ` {ErrUnknownUser, ErrNoPrekeysPublished, ErrNoPrekeysAvailable})"
proof -
  have inv: "relayInv s" using relay.inv_trace [OF assms] relayInv_NewServer by simp
  moreover have "\<forall>op. \<exists>r sw. relayStep (s, w') (op, r) sw" using relayStep_enabled [OF inv] by blast
  moreover have "\<forall>op e sw. relayStep (s, w') (op, Failed e) sw \<longrightarrow>
      e \<in> GoError ` {ErrUnknownUser, ErrNoPrekeysPublished, ErrNoPrekeysAvailable}"
    using relayStep_errors [of "(s, w')"] inv by simp
  ultimately show ?thesis by (simp add: relayInv_def queuesOk_def isEntry_def)
qed

lemma relay_reachable_states_safe_witness:
  "\<exists>r sw. relayStep (PublishPrekeys [1] [] None NewServer, demoWorld 0) (DoFetchBundle [1], r) sw"
proof -
  have "trace relayStep (NewServer, demoWorld 0) [(DoPublishPrekeys [1] [] None, Done)]
      (PublishPrekeys [1] [] None NewServer, demoWorld 0)"
    by (simp add: trace_Cons_iff relayStep_ops)
  from relay_reachable_states_safe [OF this] show ?thesis by blast
qed

end
