(* ===== verification/Relayed.thy ===== *)
theory Relayed
  imports Session Relay
begin

text \<open>
  A conversation of two established clients through the relay: every message is encrypted, wrapped
  in an envelope, queued with \<open>SendMessage\<close>, and taken from the queue in batches by \<open>PollMessages\<close>,
  while other users call the relay as they like. The composition of \<open>Ratchet\<close>, \<open>Wire\<close>
  and \<open>Relay\<close>: a run refines one over the in-order channels of \<open>Conversation\<close>.
\<close>

section \<open>Clients and relay\<close>

record relayed =
  rcState :: "party \<Rightarrow> State"
  rcWorld :: "party \<Rightarrow> world"
  rcRelay :: "Server \<times> world"
  rcSent :: "party \<Rightarrow> bytes list"
  rcGot :: "party \<Rightarrow> (fault + bytes) list"

text \<open>A client handles what a poll returned one by one; it expects no second initial message.\<close>

fun openAll :: "primitives \<Rightarrow> QueuedMessage list \<Rightarrow> State \<Rightarrow> (fault + bytes) list \<times> State" where
  "openAll P [] s = ([], s)"
| "openAll P (m # ms) s =
     (case UnmarshalEnvelope (Envelope m) of
        Inr (SubsequentEnvelope sm) \<Rightarrow>
          (case DecryptMessage P (smHeader sm) (smCiphertext sm) [] s of
             (r, s) \<Rightarrow> (case openAll P ms s of (rs, s) \<Rightarrow> (r # rs, s)))
      | Inr (InitialEnvelope _) \<Rightarrow> (case openAll P ms s of (rs, s) \<Rightarrow> (Inl (GoError ErrUnknownEnvelopeType) # rs, s))
      | Inl e \<Rightarrow> (case openAll P ms s of (rs, s) \<Rightarrow> (Inl e # rs, s)))"

datatype relayedEvent =
    RSend party bytes
  | RPoll party
  | RElse "relayOp \<times> reply"

text \<open>
  \<open>name\<close> are the two user names. Anyone may call the relay in between with calls that leave the two
  queues as they are (publishing, fetching, mail of others, a purge when nothing of theirs expired).
  A send counts when it succeeded with a new ratchet key wherever it starts a chain (see
  \<open>newKeyIsNew\<close>) and a ciphertext below \<open>2 ^ 32\<close> bytes. The clients' polling loop is not part of the
  repository; \<open>openAll\<close> is the environment this theory assumes for it.
\<close>

definition envelopeOf :: "Header \<Rightarrow> bytes \<Rightarrow> bytes" where
  "envelopeOf hdr ct = SubsequentMessage_MarshalEnvelope \<lparr>smHeader = hdr, smCiphertext = ct\<rparr>"

inductive relayedStep ::
  "primitives \<Rightarrow> (party \<Rightarrow> gostring) \<Rightarrow> relayed \<Rightarrow> relayedEvent \<Rightarrow> relayed \<Rightarrow> bool" for P name where
  relayedSend: "EncryptMessage P pt [] (rcState c p, rcWorld c p) = (Inr (hdr, ct), (s, w)) \<Longrightarrow>
    newKeyIsNew P (rcState c p) (hdr, ct) \<Longrightarrow> fitsField ct \<Longrightarrow>
    relayStep (rcRelay c) (DoSend (name (peer p)) (name p) (envelopeOf hdr ct), Done) r \<Longrightarrow>
    relayedStep P name c (RSend p pt)
      (c\<lparr>rcState := (rcState c)(p := s), rcWorld := (rcWorld c)(p := w), rcRelay := r,
         rcSent := (rcSent c)(p := rcSent c p @ [pt])\<rparr>)"
| relayedPoll: "relayStep (rcRelay c) (DoPoll (name p), GotMessages msgs) r \<Longrightarrow>
    openAll P msgs (rcState c p) = (results, s) \<Longrightarrow>
    relayedStep P name c (RPoll p)
      (c\<lparr>rcState := (rcState c)(p := s), rcRelay := r, rcGot := (rcGot c)(p := rcGot c p @ results)\<rparr>)"
| relayedElse: "relayStep (rcRelay c) l r \<Longrightarrow>
    \<forall>p. queueOf (fst r) (name p) = queueOf (fst (rcRelay c)) (name p) \<Longrightarrow>
    relayedStep P name c (RElse l) (c\<lparr>rcRelay := r\<rparr>)"

definition startRelayed :: "State \<Rightarrow> State \<Rightarrow> (party \<Rightarrow> world) \<Rightarrow> Server \<times> world \<Rightarrow> relayed" where
  "startRelayed a b ws r = \<lparr>rcState = case_party a b, rcWorld = ws, rcRelay = r,
     rcSent = (\<lambda>_. []), rcGot = (\<lambda>_. [])\<rparr>"

section \<open>Encrypted messages have encodings\<close>

lemma mlkem_sizes_fit:
  "length k = mlkem_PublicKeySize \<Longrightarrow> k \<noteq> [] \<and> length k < 2 ^ 32"
  "length c = mlkem_CiphertextSize \<Longrightarrow> c \<noteq> [] \<and> length c < 2 ^ 32"
  by (auto simp: mlkem_PublicKeySize_def mlkem_CiphertextSize_def)

lemma length_Header_Marshal:
  "length (Header_Marshal h) = 20 + length (hdrDHPub h) + length (sliceBytes (hdrMLKEMPub h)) +
     length (sliceBytes (hdrMLKEMCiphertext h))"
  by (simp add: Header_Marshal_def appendBytes_def Let_def)

lemma headerOk_sizes:
  assumes "length (hdrDHPub h) = 32"
    and "\<forall>k. hdrMLKEMPub h = Some k \<longrightarrow> length k = mlkem_PublicKeySize"
    and "\<forall>c. hdrMLKEMCiphertext h = Some c \<longrightarrow> length c = mlkem_CiphertextSize"
  shows "headerOk h"
proof -
  have "length (sliceBytes (hdrMLKEMPub h)) \<le> 1184" "nilEmpty (hdrMLKEMPub h) = hdrMLKEMPub h"
    "length (sliceBytes (hdrMLKEMCiphertext h)) \<le> 1088"
    "nilEmpty (hdrMLKEMCiphertext h) = hdrMLKEMCiphertext h"
    using assms(2,3)
    by (auto simp: sliceBytes_def nilEmpty_def mlkem_PublicKeySize_def mlkem_CiphertextSize_def
        split: option.splits)
  with assms(1) show ?thesis
    by (simp add: headerOk_def headerFits_def fitsField_def normHeader_def length_Header_Marshal)
qed

lemma sent_header_ok:
  assumes laws: "lawful P" and enc: "EncryptMessage P pt ad (s, w) = (Inr (hdr, ct), (s', w'))"
    and off: "needsNewSendingChain s \<Longrightarrow> offers P (peerAdvertisedKEMPub s) answerer"
  shows "headerOk hdr"
proof (cases "needsNewSendingChain s")
  case False
  with enc have "hdr = plainHeader P s" by (simp add: EncryptMessage_continue)
  moreover have "length (ecdh_PublicKey P x) = 32" for x
    using laws by (simp add: lawful_def length_ecdh_PublicKey)
  ultimately show ?thesis by (intro headerOk_sizes) (simp_all add: plainHeader_def)
next
  case True
  have ml: "mlkem_laws P" "x25519_laws P" using laws by (simp_all add: lawful_def)
  obtain dhOut ss ck where n: "newChainResult P s dhOut ss ck hdr s'"
    by (rule EncryptMessage_newChain [OF ml(1) True enc])
  show ?thesis
  proof (rule headerOk_sizes)
    show "length (hdrDHPub hdr) = 32"
      using n length_ecdh_PublicKey [OF ml(2)] by (simp add: newChainResult_def)
    have "offers P (hdrMLKEMPub hdr) (selfPendingKEMPriv s')" using n by (simp add: newChainResult_def)
    then show "\<forall>k. hdrMLKEMPub hdr = Some k \<longrightarrow> length k = mlkem_PublicKeySize"
      using mlkem_pair_facts(1) [OF ml(1)] by (auto simp: offers_def)
    have "answers P (peerAdvertisedKEMPub s) (hdrMLKEMCiphertext hdr) ss"
      using n by (simp add: newChainResult_def)
    with off [OF True] show "\<forall>c. hdrMLKEMCiphertext hdr = Some c \<longrightarrow> length c = mlkem_CiphertextSize"
      by (fastforce simp: answers_def offers_def mlkem_DecapsulateTo_def split: option.splits if_splits)
  qed
qed

lemma paired_header_ok:
  assumes laws: "lawful P" and pr: "paired P st q pts"
    and enc: "EncryptMessage P pt [] (st p, w) = (Inr (hdr, ct), (s, w'))"
  shows "headerOk hdr"
proof (rule sent_header_ok [OF laws enc])
  assume n: "needsNewSendingChain (st p)"
  from pr n show "offers P (peerAdvertisedKEMPub (st p)) (selfPendingKEMPriv (st (peer p)))"
    by (cases rule: paired_cases [where p = p])
      (auto simp: balanced_def ahead_def advertises_def offers_def)
qed

section \<open>The refinement\<close>

text \<open>
  A queued message stands for a packet of \<open>Conversation\<close>; the queue of a user is the channel to that
  party.
\<close>

definition carriesPacket :: "QueuedMessage \<Rightarrow> packet \<Rightarrow> bool" where
  "carriesPacket m pk \<longleftrightarrow> (\<exists>hdr ct. pk = ((hdr, ct), []) \<and> UnmarshalEnvelope (Envelope m) =
     Inr (SubsequentEnvelope \<lparr>smHeader = hdr, smCiphertext = ct\<rparr>))"

definition relayedInv :: "primitives \<Rightarrow> (party \<Rightarrow> gostring) \<Rightarrow> relayed \<Rightarrow> bool" where
  "relayedInv P name c \<longleftrightarrow> (\<exists>q pts. paired P (rcState c) q pts \<and>
     (\<forall>p. list_all2 carriesPacket (queueOf (fst (rcRelay c)) (name p)) (q p) \<and>
          length (pts p) = length (q p) \<and> map Inr (rcSent c (peer p)) = rcGot c p @ map Inr (pts p)))"

lemma relayedI:
  "paired P (rcState c) q pts \<Longrightarrow>
     (\<And>p. list_all2 carriesPacket (queueOf (fst (rcRelay c)) (name p)) (q p) \<and>
        length (pts p) = length (q p) \<and> map Inr (rcSent c (peer p)) = rcGot c p @ map Inr (pts p)) \<Longrightarrow>
     relayedInv P name c"
  by (auto simp: relayedInv_def)

lemma openAll_paired:
  assumes laws: "lawful P"
  shows "paired P st q pts \<Longrightarrow> list_all2 carriesPacket msgs (q p) \<Longrightarrow> length (pts p) = length (q p) \<Longrightarrow>
    \<exists>s. openAll P msgs (st p) = (map Inr (pts p), s) \<and> paired P (st(p := s)) (q(p := [])) (pts(p := []))"
proof (induction msgs arbitrary: st q pts)
  case Nil
  then have "st(p := st p) = st" "q(p := []) = q" "pts(p := []) = pts" by (simp_all add: fun_upd_idem)
  with Nil show ?case by (simp del: fun_upd_apply)
next
  case (Cons m msgs)
  then obtain pk rest where "q p = pk # rest" "carriesPacket m pk" and all: "list_all2 carriesPacket msgs rest"
    by (auto simp: list_all2_Cons1)
  then obtain hdr ct where q: "q p = ((hdr, ct), []) # rest"
    "UnmarshalEnvelope (Envelope m) = Inr (SubsequentEnvelope \<lparr>smHeader = hdr, smCiphertext = ct\<rparr>)"
    by (auto simp: carriesPacket_def)
  obtain pt ps s where d: "pts p = pt # ps" "DecryptMessage P hdr ct [] (st p) = (Inr pt, s)"
    "paired P (st(p := s)) (q(p := rest)) (pts(p := ps))"
    using paired_deliver [OF laws Cons.prems(1) q(1)] by blast
  have "\<exists>t. openAll P msgs s = (map Inr ps, t) \<and> paired P (st(p := t)) (q(p := [])) (pts(p := []))"
    using Cons.IH [OF d(3)] Cons.prems(3) q(1) all d(1) by (simp add: fun_upd_same del: fun_upd_apply)
  with q(2) d(1,2) show ?case by (auto simp del: fun_upd_apply)
qed

text \<open>What the steps do to the two queues.\<close>

inductive_simps mailStep_ops:
  "mailStep u q (DoSend v f env, Done) q'"
  "mailStep u q (DoPoll v, GotMessages msgs) q'"

lemma mail_sent:
  assumes "relayStep sw (DoSend v f env, Done) sw'"
  shows "\<exists>m. queueOf (fst sw') v = queueOf (fst sw) v @ [m] \<and> Envelope m = env"
    and "u \<noteq> v \<Longrightarrow> queueOf (fst sw') u = queueOf (fst sw) u"
  using relayStep_mail [OF assms, of u] relayStep_mail [OF assms, of v] by (auto simp: mailStep_ops)

lemma mail_polled:
  assumes "relayStep sw (DoPoll v, GotMessages msgs) sw'"
  shows "msgs = queueOf (fst sw) v" and "queueOf (fst sw') v = []"
    and "u \<noteq> v \<Longrightarrow> queueOf (fst sw') u = queueOf (fst sw) u"
  using relayStep_mail [OF assms, of u] relayStep_mail [OF assms, of v] by (auto simp: mailStep_ops)

lemma relayedInv_step:
  assumes laws: "lawful P" and names: "name Initiator \<noteq> name Responder"
    and inv: "relayedInv P name c" and step: "relayedStep P name c ev c'"
  shows "relayedInv P name c'"
proof -
  have neq: "name r \<noteq> name (peer r)" "name (peer r) \<noteq> name r" for r using names by (cases r; simp)+
  obtain q pts where pr: "paired P (rcState c) q pts"
    and log: "\<And>p. list_all2 carriesPacket (queueOf (fst (rcRelay c)) (name p)) (q p) \<and>
        length (pts p) = length (q p) \<and> map Inr (rcSent c (peer p)) = rcGot c p @ map Inr (pts p)"
    using inv by (auto simp: relayedInv_def)
  from step show ?thesis
  proof cases
    case (relayedSend pt p hdr ct s w r)
    let ?q = "q(peer p := q (peer p) @ [((hdr, ct), [])])" and ?pts = "pts(peer p := pts (peer p) @ [pt])"
    have pr': "paired P ((rcState c)(p := s)) ?q ?pts"
      by (rule paired_send [OF laws pr relayedSend(3,4)])
    have "headerOk hdr" by (rule paired_header_ok [OF laws pr relayedSend(3)])
    then have dec: "UnmarshalEnvelope (envelopeOf hdr ct) =
        Inr (SubsequentEnvelope \<lparr>smHeader = hdr, smCiphertext = ct\<rparr>)"
      using relayedSend(5) by (simp add: Unmarshal_SubsequentEnvelope_iff envelopeOf_def)
    obtain m where m: "queueOf (fst r) (name (peer p)) = queueOf (fst (rcRelay c)) (name (peer p)) @ [m]"
      "Envelope m = envelopeOf hdr ct"
      using mail_sent(1) [OF relayedSend(6)] by blast
    have same: "queueOf (fst r) (name p) = queueOf (fst (rcRelay c)) (name p)"
      using mail_sent(2) [OF relayedSend(6)] neq by blast
    have "carriesPacket m ((hdr, ct), [])" using dec m(2) by (simp add: carriesPacket_def)
    then have "list_all2 carriesPacket (queueOf (fst r) (name d)) (?q d) \<and> length (?pts d) = length (?q d) \<and>
        map Inr (((rcSent c)(p := rcSent c p @ [pt])) (peer d)) = rcGot c d @ map Inr (?pts d)" for d
      using log [of d] log [of "peer p"] same m(1)
      by (cases "d = p") (auto dest!: other_party simp: list_all2_appendI)
    with pr' show ?thesis
      by (intro relayedI [where q = ?q and pts = ?pts]) (simp_all add: relayedSend(2) del: fun_upd_apply)
  next
    case (relayedPoll p msgs r results s)
    note polled = mail_polled [OF relayedPoll(3)]
    have "list_all2 carriesPacket msgs (q p)" "length (pts p) = length (q p)" using log polled(1) by auto
    from openAll_paired [OF laws pr this] relayedPoll(4) have
      res: "results = map Inr (pts p)" and pr': "paired P ((rcState c)(p := s)) (q(p := [])) (pts(p := []))"
      by auto
    have "list_all2 carriesPacket (queueOf (fst r) (name d)) ((q(p := [])) d) \<and>
        length ((pts(p := [])) d) = length ((q(p := [])) d) \<and> map Inr (rcSent c (peer d)) =
          ((rcGot c)(p := rcGot c p @ results)) d @ map Inr ((pts(p := [])) d)" for d
      using log [of d] polled neq [of p] res by (cases "d = p") (auto dest!: other_party)
    with pr' show ?thesis
      by (intro relayedI [where q = "q(p := [])" and pts = "pts(p := [])"])
        (simp_all add: relayedPoll(2) del: fun_upd_apply)
  next
    case (relayedElse l r)
    with pr log show ?thesis by (intro relayedI [where q = q and pts = pts]) simp_all
  qed
qed

text \<open>The premises on the parameters travel with the invariant.\<close>

interpretation relayed_run: preserved "relayedStep P name"
  "\<lambda>c. lawful P \<and> name Initiator \<noteq> name Responder \<and> relayedInv P name c" for P name
  by unfold_locales (blast intro: relayedInv_step)

lemma relayedInv_start:
  assumes "paired P (case_party a b) (\<lambda>_. []) (\<lambda>_. [])" and "\<forall>p. queueOf s (name p) = []"
  shows "relayedInv P name (startRelayed a b ws (s, w))"
  using assms by (intro relayedI [where q = "\<lambda>_. []" and pts = "\<lambda>_. []"]) (simp_all add: startRelayed_def)

text \<open>Two states that one initial message established are paired.\<close>

text \<open>The message an initiator builds has an encoding.\<close>

lemma initiator_message_ok:
  assumes laws: "lawful P" and alice: "genuineKeyPair P alice" and priv: "genuineKem P priv"
    and pub: "kem_UnmarshalPublicKey P (bundlePublicKey bundle) = Inr (kem_Public P priv)"
    and run: "EstablishAsInitiator P alice responder bundle pt w = (Inr (a, msg), w')"
    and idx: "0 \<le> bundleIndex bundle" "bundleIndex bundle < 2 ^ 32"
    and short: "\<forall>k ad. length (chacha_seal P k zeroNonce pt ad) < 2 ^ 32"
  shows "initialOk msg"
proof -
  obtain t ct key w1 a0 w2 hdr c where
    enc: "Encapsulate P (kem_Public P priv) t None w = (Inr (ct, key), w1)" and
    init: "InitAlice P key (pubX25519 (kem_Public P priv)) w1 = (Inr a0, w2)" and
    first: "EncryptMessage P pt [] (a0, w2) = (Inr (hdr, c), (a, w'))" and
    msg: "msg = \<lparr>SenderIdentity = identity_Public alice, KEMCiphertext = ct,
        PrekeyIndex = bundleIndex bundle, IsLastResort = False, imHeader = hdr, imCiphertext = c\<rparr>"
    using run pub by (auto simp: EstablishAsInitiator_def tryS_Inr onNew_Inr)
  have ml: "mlkem_laws P" "x25519_laws P" "signature_laws P" using laws by (simp_all add: lawful_def)
  from enc obtain e rnd w3 ecdhSS kemSS where
    "mlkem_EncapsulateTo P (pubMLKEM (kem_Public P priv)) w3 = (Inr (MLKEMCiphertext ct, kemSS), w1)"
    "X25519Ephemeral ct = ecdh_PublicKey P e"
    by (rule Encapsulate_Inr)
  moreover have "mlkem_pair P (pubMLKEM (kem_Public P priv)) (privMLKEM priv)"
    using priv by (simp add: kem_Public_def genuineKem_def)
  ultimately have "length (X25519Ephemeral ct) = 32" "length (MLKEMCiphertext ct) = mlkem_CiphertextSize"
    using encaps_decaps(2) [OF ml(1)] length_ecdh_PublicKey [OF ml(2)] by auto
  moreover have "\<not> needsNewSendingChain a0" using InitAlice_Inr [OF init] by metis
  then have hc: "hdr = plainHeader P a0" "fitsField c"
    using first short by (auto simp: EncryptMessage_continue fitsField_def)
  have "headerOk hdr"
    using length_ecdh_PublicKey [OF ml(2)]
    by (simp add: hc(1) plainHeader_def headerOk_def headerFits_def normHeader_def fitsField_def
        sliceBytes_def Header_Marshal_def appendBytes_def Let_def)
  ultimately show ?thesis
    using genuine_public [OF ml(3) alice] idx hc(2) by (simp add: initialOk_def msg)
qed

text \<open>
  The responder needs no bundle from the initiator: his own record of the slot, with the same root
  and index, completes the session.
\<close>

lemma initiator_reaches:
  assumes laws: "lawful P" and priv: "genuineKem P priv"
    and pub: "kem_UnmarshalPublicKey P (bundlePublicKey bundle) = Inr (kem_Public P priv)"
    and own: "bundleRoot own = bundleRoot bundle" "bundleIndex own = bundleIndex bundle"
    and alice: "EstablishAsInitiator P alice (identity_Public bob) bundle pt w = (Inr (a, msg), w')"
  shows "\<exists>b v. EstablishAsResponder P bob own priv msg wB = (Inr (b, pt), v) \<and>
    paired P (case_party a b) (\<lambda>_. []) (\<lambda>_. [])"
proof -
  obtain t ct k v1 a0 v2 hdr c where
    t: "buildTranscript (identity_Public alice) (identity_Public bob) bundle = Inr t" and
    enc: "Encapsulate P (kem_Public P priv) t None w = (Inr (ct, k), v1)" and
    init: "InitAlice P k (pubX25519 (kem_Public P priv)) v1 = (Inr a0, v2)" and
    first: "EncryptMessage P pt [] (a0, v2) = (Inr (hdr, c), (a, w'))" and
    msg: "SenderIdentity msg = identity_Public alice" "KEMCiphertext msg = ct" "imHeader msg = hdr"
      "imCiphertext msg = c"
    using alice pub by (auto simp: EstablishAsInitiator_def tryS_Inr onNew_Inr)
  have "buildTranscript (identity_Public alice) (identity_Public bob) own = Inr t"
    using t own by (simp add: buildTranscript_def)
  moreover from handshake [OF laws priv enc init first]
  obtain b where b: "Decapsulate P priv ct t = Inr k"
    "\<exists>b0 v. InitBob k (privX25519 priv) wB = (Inr b0, v) \<and>
      onNew (liftT (DecryptMessage P hdr c [])) b0 v = (Inr (b wB, pt), v)"
    "paired P (case_party a (b wB)) (\<lambda>_. []) (\<lambda>_. [])" by metis
  ultimately have "\<exists>v. EstablishAsResponder P bob own priv msg wB = (Inr (b wB, pt), v)"
    by (auto simp: EstablishAsResponder_def msg tryS_step)
  with b(3) show ?thesis by blast
qed

lemma established_paired:
  assumes laws: "lawful P" and bob: "identity_Generate P w0 = (Inr bob, w1)"
    and batch: "GenerateBatch P bob sz w2 = (Inr batch, w3)"
    and bd: "batch_Bundle batch i = Inr bundle" and priv: "batch_PrivateKey batch i = Inr priv"
    and alice: "EstablishAsInitiator P alice (identity_Public bob) bundle pt w = (Inr (a, msg), w')"
    and resp: "EstablishAsResponder P bob bundle priv msg wB = (Inr (b, pt'), wB')"
  shows "pt' = pt \<and> paired P (case_party a b) (\<lambda>_. []) (\<lambda>_. [])"
proof -
  note key = bundle_key [OF laws bob batch bd priv]
  from initiator_reaches [OF laws key(1,3) refl refl alice, of wB] resp show ?thesis by auto
qed

lemma initiator_keeps_chain:
  assumes "EstablishAsInitiator P alice responder bundle pt w = (Inr (a, msg), w')"
  shows "\<not> needsNewSendingChain a" and "chainSend a \<noteq> None" and "nSend a = 1"
proof -
  obtain k pub v1 a0 v2 m where init: "InitAlice P k pub v1 = (Inr a0, v2)"
    and first: "EncryptMessage P pt [] (a0, v2) = (Inr m, (a, w'))"
    using assms by (auto simp: EstablishAsInitiator_def tryS_Inr onNew_Inr)
  have n: "\<not> needsNewSendingChain a0" using InitAlice_Inr [OF init] by metis
  from EncryptMessage_continue [OF n, of P pt "[]" v2] first have "a = advanceSend a0" by auto
  moreover have "nSend a0 = 0" using InitAlice_Inr [OF init] by metis
  ultimately show "\<not> needsNewSendingChain a" "chainSend a \<noteq> None" "nSend a = 1"
    using n by (simp_all add: advanceSend_def)
qed

section \<open>Properties\<close>

text \<open>
  C3: a conversation through the relay. Bob accepted the message with which Alice established a
  session on one of his bundles, and nothing else waits for either of them. Then Bob got Alice's
  first plaintext, and whenever both send and poll in any order, and others use the relay in any way
  that leaves their two queues as they are, what each got is exactly what the other
  sent, in order, and the rest waits in the queue: ratchet, wire format and relay together lose,
  alter and reorder nothing.
\<close>

theorem relayed_conversation_faithful:
  assumes "lawful P" and "identity_Generate P w0 = (Inr bob, w1)"
    and "GenerateBatch P bob sz w2 = (Inr batch, w3)"
    and "batch_Bundle batch i = Inr bundle" and "batch_PrivateKey batch i = Inr priv"
    and "EstablishAsInitiator P alice (identity_Public bob) bundle pt w = (Inr (a, msg), w')"
    and "EstablishAsResponder P bob bundle priv msg wB = (Inr (b, pt'), wB')"
    and "name Initiator \<noteq> name Responder" and "\<forall>p. queueOf s (name p) = []"
    and "trace (relayedStep P name) (startRelayed a b worlds (s, r)) events c"
  shows "pt' = pt \<and> rcGot c p = map Inr (take (length (rcGot c p)) (rcSent c (peer p))) \<and>
    length (rcSent c (peer p)) = length (rcGot c p) + length (queueOf (fst (rcRelay c)) (name p))"
proof -
  note pr = established_paired [OF assms(1-7)]
  have "relayedInv P name (startRelayed a b worlds (s, r))"
    using pr assms(9) by (blast intro: relayedInv_start)
  with relayed_run.inv_trace [OF assms(10)] assms(1,8) have "relayedInv P name c" by blast
  then obtain q pts where "list_all2 carriesPacket (queueOf (fst (rcRelay c)) (name p)) (q p)"
    "length (pts p) = length (q p)" and log: "map Inr (rcSent c (peer p)) = rcGot c p @ map Inr (pts p)"
    by (auto simp: relayedInv_def)
  then have len: "length (pts p) = length (queueOf (fst (rcRelay c)) (name p))"
    by (auto dest: list_all2_lengthD)
  have "map Inr (take (length (rcGot c p)) (rcSent c (peer p))) = rcGot c p"
    using arg_cong [OF log, of "take (length (rcGot c p))"] by (simp add: take_map)
  with pr arg_cong [OF log, of length] len show ?thesis by simp
qed

definition demoName :: "party \<Rightarrow> gostring" where "demoName = case_party [65] [66]"

lemma demo_established:
  obtains bob w1 batch w3 bd a msg w' b wB' where
    "identity_Generate demoPrimitives (demoWorld 64) = (Inr bob, w1)"
    and "GenerateBatch demoPrimitives bob 1 (demoWorld 128) = (Inr batch, w3)"
    and "batch_Bundle batch 0 = Inr bd" and "batch_PrivateKey batch 0 = Inr demoKemPriv"
    and "EstablishAsInitiator demoPrimitives bob (identity_Public bob) bd [104] (demoWorld 96) = (Inr (a, msg), w')"
    and "EstablishAsResponder demoPrimitives bob bd demoKemPriv msg (demoWorld 0) = (Inr (b, [104]), wB')"
proof -
  obtain bob w1 batch w3 bd where p:
    "identity_Generate demoPrimitives (demoWorld 64) = (Inr bob, w1)"
    "GenerateBatch demoPrimitives bob 1 (demoWorld 128) = (Inr batch, w3)"
    "batch_Bundle batch 0 = Inr bd" "batch_PrivateKey batch 0 = Inr demoKemPriv"
    by (rule demo_published)
  have "96 \<le> length (rng (demoWorld 96))" by simp
  from batch_session_runs [OF demo_lawful p this demo_handshake_ECDH, of bob "[104]" "demoWorld 0"] p that
  show ?thesis by blast
qed

lemma relayed_conversation_faithful_witness:
  "\<exists>a b c s. queueOf s (demoName Responder) = [] \<and>
     trace (relayedStep demoPrimitives demoName) (startRelayed a b (\<lambda>_. demoWorld 0) (s, demoWorld 0))
       [RSend Initiator [7], RPoll Responder] c \<and> rcGot c Responder = [Inr [7]]"
proof -
  obtain bob w1 batch w3 bd a msg w' b wB' where e:
    "identity_Generate demoPrimitives (demoWorld 64) = (Inr bob, w1)"
    "GenerateBatch demoPrimitives bob 1 (demoWorld 128) = (Inr batch, w3)"
    "batch_Bundle batch 0 = Inr bd" "batch_PrivateKey batch 0 = Inr demoKemPriv"
    "EstablishAsInitiator demoPrimitives bob (identity_Public bob) bd [104] (demoWorld 96) = (Inr (a, msg), w')"
    "EstablishAsResponder demoPrimitives bob bd demoKemPriv msg (demoWorld 0) = (Inr (b, [104]), wB')"
    by (rule demo_established)
  define s where "s = PublishIdentity [66] (identity_Public bob) NewServer"
  let ?c0 = "startRelayed a b (\<lambda>_. demoWorld 0) (s, demoWorld 0)"
  have names: "demoName Initiator \<noteq> demoName Responder" by (simp add: demoName_def)
  have empty: "\<forall>p. queueOf s (demoName p) = []"
    by (simp add: s_def PublishIdentity_def NewServer_def queueOf_def)
  have n: "\<not> needsNewSendingChain a" by (rule initiator_keeps_chain [OF e(5)])
  then obtain hdr ct a' where enc:
    "EncryptMessage demoPrimitives [7] [] (a, demoWorld 0) = (Inr (hdr, ct), (a', demoWorld 0))"
    and ct: "fitsField ct"
    by (auto simp: EncryptMessage_continue demoPrimitives_def fitsField_def)
  obtain s1 r1 where send: "SendMessage [66] [65] (envelopeOf hdr ct) (s, demoWorld 0) = (Inr (), (s1, r1))"
    by (simp add: SendMessage_eq s_def PublishIdentity_def)
  have "relayStep (s, demoWorld 0) (DoSend [66] [65] (envelopeOf hdr ct), Done) (s1, r1)"
    using stepSend [OF send] by simp
  then have "relayedStep demoPrimitives demoName ?c0 (RSend Initiator [7])
      (?c0\<lparr>rcState := (rcState ?c0)(Initiator := a'), rcWorld := (rcWorld ?c0)(Initiator := demoWorld 0),
        rcRelay := (s1, r1), rcSent := (rcSent ?c0)(Initiator := rcSent ?c0 Initiator @ [[7]])\<rparr>)"
    (is "relayedStep _ _ _ _ ?c1")
    using enc ct n by (intro relayedSend) (simp_all add: startRelayed_def newKeyIsNew_def demoName_def)
  moreover obtain msgs s2 where poll: "PollMessages [66] s1 = (msgs, s2)" by (metis prod.exhaust)
  obtain results b' where op: "openAll demoPrimitives msgs (rcState ?c1 Responder) = (results, b')"
    by (metis prod.exhaust)
  have "relayedStep demoPrimitives demoName ?c1 (RPoll Responder)
      (?c1\<lparr>rcState := (rcState ?c1)(Responder := b'), rcRelay := (s2, r1),
        rcGot := (rcGot ?c1)(Responder := rcGot ?c1 Responder @ results)\<rparr>)"
    (is "relayedStep _ _ _ _ ?c2")
    using stepPoll [OF poll, of r1] op by (intro relayedPoll) (simp_all add: demoName_def)
  ultimately have run: "trace (relayedStep demoPrimitives demoName) ?c0 [RSend Initiator [7], RPoll Responder] ?c2"
    by (blast intro: trace.intros)
  have "queueOf (fst (rcRelay ?c2)) (demoName Responder) = []"
    using poll by (auto simp: PollMessages_def demoName_def)
  moreover have "rcSent ?c2 (peer Responder) = [[7]]" by (simp add: startRelayed_def)
  ultimately have "rcGot ?c2 Responder = [Inr [7]]"
    using relayed_conversation_faithful [OF demo_lawful e names empty run, of Responder]
    by (cases "rcGot ?c2 Responder") auto
  with run empty show ?thesis by blast
qed

end
