(* ===== verification/Replay.thy ===== *)
theory Replay
  imports Relayed
begin

text \<open>
  What a recorded session is worth to whoever recorded it. The responder's side of
  \<open>crypto/session\<close> and the receiving side of \<open>crypto/ratchet\<close> depend on nothing that changes from one
  run to the next: no entropy, and of the clock only the time stamp \<open>lastInject\<close>, which receiving
  never reads.
\<close>

section \<open>Receiving does not read the time stamp\<close>

definition clockless :: "(State, 'a) action \<Rightarrow> bool" where
  "clockless m \<longleftrightarrow> (\<forall>s t. m (s\<lparr>lastInject := t\<rparr>) = (case m s of (r, s') \<Rightarrow> (r, s'\<lparr>lastInject := t\<rparr>)))"

named_theorems clockless_intros \<open>operations that leave the time stamp alone\<close>

lemma clocklessI:
  "(\<And>s t. m (s\<lparr>lastInject := t\<rparr>) = (case m s of (r, s') \<Rightarrow> (r, s'\<lparr>lastInject := t\<rparr>))) \<Longrightarrow> clockless m"
  by (simp add: clockless_def)

lemma clockless_run: "clockless m \<Longrightarrow> m s = (r, s') \<Longrightarrow> m (s\<lparr>lastInject := t\<rparr>) = (r, s'\<lparr>lastInject := t\<rparr>)"
  by (simp add: clockless_def)

lemma clockless_basic [clockless_intros]: "clockless (ret x)" "clockless (fail e)" "clockless (pureS r)"
  by (simp_all add: clockless_def)

lemma clockless_tryS [clockless_intros]:
  assumes "clockless m" and "\<And>x. clockless (f x)"
  shows "clockless (tryS m f)"
  using assms by (auto simp: clockless_def tryS_def split: prod.splits sum.splits)

lemma clockless_modify [clockless_intros]:
  "(\<And>s t. f (s\<lparr>lastInject := t\<rparr>) = (f s)\<lparr>lastInject := t\<rparr>) \<Longrightarrow> clockless (modify f)"
  by (simp add: clockless_def)

lemma clockless_asks [clockless_intros]: "(\<And>s t. f (s\<lparr>lastInject := t\<rparr>) = f s) \<Longrightarrow> clockless (asks f)"
  by (simp add: clockless_def)

lemma skipLoop_clockless: "skipLoop k n (s\<lparr>lastInject := t\<rparr>) = (skipLoop k n s)\<lparr>lastInject := t\<rparr>"
proof (induction k n s rule: skipLoop.induct)
  case (1 k n s)
  have "skipOne k (s\<lparr>lastInject := t\<rparr>) = (skipOne k s)\<lparr>lastInject := t\<rparr>"
    by (simp add: skipOne_def chainStep_def)
  with 1 show ?case by (simp add: skipLoop.simps [of k n s] skipLoop.simps [of k n "s\<lparr>lastInject := t\<rparr>"])
qed

lemma skipMessageKeys_clockless [clockless_intros]: "clockless (skipMessageKeys n)"
  by (rule clocklessI) (simp add: skipMessageKeys_def skipLoop_clockless split: option.split)

lemma consumeInjection_clockless [clockless_intros]: "clockless (consumeInjection P hdr)"
  by (rule clocklessI) (simp add: consumeInjection_def tryS_def split: option.split sum.split)

lemma receivingRootStep_clockless [clockless_intros]: "clockless (receivingRootStep dh ss)"
  by (rule clocklessI) (simp add: receivingRootStep_def split: sum.split prod.split)

lemma recordInjection_clockless [clockless_intros]: "clockless (recordInjection P hdr)"
  unfolding recordInjection_def by (cases "hdrMLKEMPub hdr") (simp_all add: clockless_intros)

lemma ecdhWithRemote_clockless [clockless_intros]: "clockless (\<lambda>s. (ecdhWithRemote P s, s))"
  by (rule clocklessI) (simp add: ecdhWithRemote_def split: option.split)

lemma dhRatchetStep_clockless [clockless_intros]: "clockless (dhRatchetStep P hdr)"
  unfolding dhRatchetStep_def by (intro clockless_intros) simp_all

lemma nextRecvKey_clockless [clockless_intros]: "clockless nextRecvKey"
  by (rule clocklessI) (simp add: nextRecvKey_def chainStep_def)

lemma receivingKey_clockless [clockless_intros]: "clockless (receivingKey P hdr)"
proof -
  have "clockless (enterNewKey P hdr)"
    unfolding enterNewKey_def by (intro clockless_intros) (auto intro: clockless_intros)
  then show ?thesis unfolding receivingKey_def by (intro clockless_intros)
qed

lemma DecryptMessage_clockless: "clockless (DecryptMessage P hdr ct ad)"
proof (rule clocklessI)
  fix s t
  have "clockless (tryS (receivingKey P hdr) (\<lambda>mk.
      pureS (aeadOpen P mk ct (associatedDataWithHeader hdr ad))))" by (intro clockless_intros)
  then show "DecryptMessage P hdr ct ad (s\<lparr>lastInject := t\<rparr>) =
    (case DecryptMessage P hdr ct ad s of (r, s') \<Rightarrow> (r, s'\<lparr>lastInject := t\<rparr>))"
    by (cases "skipped s (hdrDHPub hdr, hdrN hdr)")
      (simp_all add: DecryptMessage_def takeSkippedKey_def clockless_def)
qed

text \<open>A client that opens the same envelopes gets the same results, whenever they come.\<close>

lemma openAll_clockless:
  "map Envelope ms' = map Envelope ms \<Longrightarrow> openAll P ms s = (rs, s') \<Longrightarrow>
    openAll P ms' (s\<lparr>lastInject := t\<rparr>) = (rs, s'\<lparr>lastInject := t\<rparr>)"
proof (induction ms arbitrary: ms' s rs s')
  case (Cons m ms)
  then obtain m' ms'' where m': "ms' = m' # ms''" "Envelope m' = Envelope m"
    "map Envelope ms'' = map Envelope ms" by (auto simp: map_eq_Cons_conv)
  note IH = Cons.IH [OF m'(3)]
  show ?case
  proof (cases "UnmarshalEnvelope (Envelope m)")
    case (Inr x)
    show ?thesis
    proof (cases x)
      case (SubsequentEnvelope sm)
      obtain r s1 where "DecryptMessage P (smHeader sm) (smCiphertext sm) [] s = (r, s1)" by fastforce
      with clockless_run [OF DecryptMessage_clockless this] show ?thesis
        using Cons.prems(2) Inr SubsequentEnvelope IH [of s1]
        by (auto simp: m' split: prod.splits)
    qed (use Cons.prems(2) Inr IH [of s] in \<open>auto simp: m' split: prod.splits\<close>)
  qed (use Cons.prems(2) IH [of s] in \<open>auto simp: m' split: prod.splits\<close>)
qed simp

lemma InitBob_again:
  "InitBob key priv w = (Inr b0, w1) \<Longrightarrow> \<exists>t v'. InitBob key priv v = (Inr (b0\<lparr>lastInject := t\<rparr>), v')"
  by (auto simp: InitBob_def newState_def timeNow_def tryS_def)

lemma EstablishAsResponder_again:
  assumes "EstablishAsResponder P bob bundle priv msg w = (Inr (b, pt), w1)"
  shows "\<exists>t v'. EstablishAsResponder P bob bundle priv msg v = (Inr (b\<lparr>lastInject := t\<rparr>, pt), v')"
proof -
  obtain tr key b0 w2 where tr: "buildTranscript (SenderIdentity msg) (identity_Public bob) bundle = Inr tr"
    and key: "Decapsulate P priv (KEMCiphertext msg) tr = Inr key"
    and b0: "InitBob key (privX25519 priv) w = (Inr b0, w2)"
    and first: "DecryptMessage P (imHeader msg) (imCiphertext msg) [] b0 = (Inr pt, b)"
    using assms by (auto simp: EstablishAsResponder_def tryS_Inr onNew_Inr liftT_Inr)
  obtain t v' where "InitBob key (privX25519 priv) v = (Inr (b0\<lparr>lastInject := t\<rparr>), v')"
    using InitBob_again [OF b0] by blast
  then show ?thesis
    using clockless_run [OF DecryptMessage_clockless first, of t]
    by (auto simp: EstablishAsResponder_def tr key tryS_step onNew_liftT)
qed

section \<open>Queueing what was recorded\<close>

definition requeue :: "gostring \<Rightarrow> gostring \<Rightarrow> bytes list \<Rightarrow> Server \<times> world \<Rightarrow> Server \<times> world" where
  "requeue u anyone = fold (\<lambda>env sw. snd (SendMessage u anyone env sw))"

lemma requeue_queue:
  "identities s u \<noteq> None \<Longrightarrow> requeue u anyone envs (s, r) = (s', r') \<Longrightarrow>
    \<exists>ms. queueOf s' u = queueOf s u @ ms \<and> map Envelope ms = envs"
proof (induction envs arbitrary: s r)
  case (Cons env envs)
  let ?m = "\<lparr>From = anyone, Envelope = env, QueuedAt = clock r (ticks r)\<rparr>"
  let ?s = "s\<lparr>queues := (queues s)(u \<mapsto> queueOf s u @ [?m])\<rparr>"
  have "requeue u anyone envs (?s, r\<lparr>ticks := Suc (ticks r)\<rparr>) = (s', r')"
    using Cons.prems by (auto simp: requeue_def SendMessage_eq)
  from Cons.IH [OF _ this] Cons.prems(1) obtain ms where
    "queueOf s' u = (queueOf s u @ [?m]) @ ms" "map Envelope ms = envs" by auto
  then have "queueOf s' u = queueOf s u @ (?m # ms) \<and> map Envelope (?m # ms) = env # envs" by simp
  then show ?case by (rule exI)
qed (simp add: requeue_def)

section \<open>Property\<close>

text \<open>
  C33: a recorded session replays as a whole. Bob accepted an initial message with one of his one-time
  prekeys and then opened any envelopes, with any results, before his first answer. At any later
  time anyone, under any name, queues the same envelopes again: Bob's next poll returns them behind what
  waits for him, and with the same prekey \<open>EstablishAsResponder\<close> accepts the initial message again and
  returns the same plaintext, and every following envelope gives the same result again. The second
  session is the first one up to the time stamp: nothing in the message, in the key or in the state lets him tell
  (session.go, ratchet.go, wire.go, relay.go).
\<close>

theorem recorded_session_replays:
  assumes "UnmarshalEnvelope env = Inr (InitialEnvelope msg)"
    and "EstablishAsResponder P bob bundle priv msg w = (Inr (b, pt), w1)"
    and "openAll P ms b = (results, b1)"
    and "identities s u \<noteq> None"
  shows "\<exists>m ms' s' c v' t.
    PollMessages u (fst (requeue u anyone (env # map Envelope ms) (s, r))) = (queueOf s u @ m # ms', s') \<and>
    UnmarshalEnvelope (Envelope m) = Inr (InitialEnvelope msg) \<and>
    EstablishAsResponder P bob bundle priv msg v = (Inr (c, pt), v') \<and>
    openAll P ms' c = (results, b1\<lparr>lastInject := t\<rparr>)"
proof -
  obtain s1 r1 where q: "requeue u anyone (env # map Envelope ms) (s, r) = (s1, r1)" by fastforce
  from requeue_queue [OF assms(4) q] obtain m ms' where
    m: "queueOf s1 u = queueOf s u @ m # ms'" "Envelope m = env" "map Envelope ms' = map Envelope ms"
    by (auto simp: map_eq_Cons_conv)
  obtain t v' where
    "EstablishAsResponder P bob bundle priv msg v = (Inr (b\<lparr>lastInject := t\<rparr>, pt), v')"
    using EstablishAsResponder_again [OF assms(2)] by blast
  moreover have "openAll P ms' (b\<lparr>lastInject := t\<rparr>) = (results, b1\<lparr>lastInject := t\<rparr>)"
    by (rule openAll_clockless [OF m(3) assms(3)])
  moreover obtain s' where
    "PollMessages u (fst (requeue u anyone (env # map Envelope ms) (s, r))) = (queueOf s u @ m # ms', s')"
    by (simp add: q PollMessages_def m(1))
  ultimately show ?thesis using assms(1) m(2) by blast
qed

lemma recorded_session_replays_witness:
  "\<exists>bob bd env msg b w1 s. UnmarshalEnvelope env = Inr (InitialEnvelope msg) \<and>
    EstablishAsResponder demoPrimitives bob bd demoKemPriv msg (demoWorld 0) = (Inr (b, [104]), w1) \<and>
    identities s [66] \<noteq> None \<and>
    (\<forall>ms. \<exists>m ms' s' c v' t.
      PollMessages [66] (fst (requeue [66] [77] (env # map Envelope ms) (s, demoWorld 0))) =
        (queueOf s [66] @ m # ms', s') \<and>
      UnmarshalEnvelope (Envelope m) = Inr (InitialEnvelope msg) \<and>
      EstablishAsResponder demoPrimitives bob bd demoKemPriv msg (demoWorld 1) = (Inr (c, [104]), v') \<and>
      openAll demoPrimitives ms' c =
        (fst (openAll demoPrimitives ms b), (snd (openAll demoPrimitives ms b))\<lparr>lastInject := t\<rparr>))"
proof -
  obtain bob w1 batch w3 bd a msg w' b wB' where e:
    "identity_Generate demoPrimitives (demoWorld 64) = (Inr bob, w1)"
    "GenerateBatch demoPrimitives bob 1 (demoWorld 128) = (Inr batch, w3)"
    "batch_Bundle batch 0 = Inr bd" "batch_PrivateKey batch 0 = Inr demoKemPriv"
    "EstablishAsInitiator demoPrimitives bob (identity_Public bob) bd [104] (demoWorld 96) = (Inr (a, msg), w')"
    "EstablishAsResponder demoPrimitives bob bd demoKemPriv msg (demoWorld 0) = (Inr (b, [104]), wB')"
    by (rule demo_established)
  note key = bundle_key [OF demo_lawful e(1-4)]
  have short: "\<forall>key ad. length (chacha_seal demoPrimitives key zeroNonce [104] ad) < 2 ^ 32"
    by (simp add: demoPrimitives_def)
  have "initialOk msg"
    using key(4) by (intro initiator_message_ok [OF demo_lawful Generate_genuine [OF e(1)] key(1,3) e(5) _ _ short]) simp_all
  then obtain env where env: "UnmarshalEnvelope env = Inr (InitialEnvelope msg)"
    using initial_envelope_roundtrip by blast
  define s where "s = PublishIdentity [66] (identity_Public bob) NewServer"
  have s: "identities s [66] \<noteq> None" by (simp add: s_def PublishIdentity_def)
  note recorded_session_replays [OF env e(6) surjective_pairing s, of "[77]" _ "demoWorld 0" "demoWorld 1"]
  with env e(6) s show ?thesis by blast
qed

end
