(* ===== verification/RatchetDelivery.thy ===== *)
theory RatchetDelivery
  imports RatchetSync
begin

text \<open>
  Delivery within one receiving chain: what the skip loop stores, and that any selection of the
  messages of a chain, delivered in any order within the skip window, decrypts correctly. Then the
  converse: what a second delivery of one message does.
\<close>

section \<open>The skip loop\<close>

lemma unat_plus_nat:
  "unat (n :: u32) + i < 2 ^ 32 \<Longrightarrow> unat (n + of_nat i) = unat n + i"
  by (simp add: unat_word_ariths unsigned_of_nat take_bit_eq_mod)

lemma number_inj:
  assumes "unat (n :: u32) + i < 2 ^ 32" and "unat n + j < 2 ^ 32" and "n + of_nat i = n + of_nat j"
  shows "i = j"
  using assms unat_plus_nat by (metis add_left_cancel)

lemma skipLoop_pow:
  "unat (nRecv s) + j < 2 ^ 32 \<Longrightarrow> skipLoop k (nRecv s + of_nat j) s = (skipOne k ^^ j) s"
proof (induction j arbitrary: s)
  case (Suc j)
  have "unat (nRecv s + of_nat (Suc j)) = unat (nRecv s) + Suc j" using Suc.prems by (rule unat_plus_nat)
  then have less: "nRecv s < nRecv s + of_nat (Suc j)" by (simp add: word_less_nat_alt)
  have "unat (nRecv (skipOne k s)) + j < 2 ^ 32" using Suc.prems u32_suc [OF less] by simp
  note IH = Suc.IH [OF this]
  have "skipLoop k (nRecv s + of_nat (Suc j)) s = skipLoop k (nRecv (skipOne k s) + of_nat j) (skipOne k s)"
    using less by (subst skipLoop.simps) (simp add: add_ac)
  then show ?case using IH by (simp add: funpow_swap1)
qed simp

lemma skipOne_pow:
  "nRecv ((skipOne k ^^ j) s) = nRecv s + of_nat j"
  "chainRecv ((skipOne k ^^ j) s) = (nextChain ^^ j) (chainRecv s)"
  "dhRemote ((skipOne k ^^ j) s) = dhRemote s"
  by (induction j) (simp_all add: skipOne_def chainStep_eq add_ac)

lemma skipOne_pow_skipped:
  "unat (nRecv s) + j < 2 ^ 32 \<Longrightarrow> i < j \<Longrightarrow>
     skipped ((skipOne k ^^ j) s) (k, nRecv s + of_nat i) = Some (messageKey ((nextChain ^^ i) (chainRecv s)))"
proof (induction j)
  case (Suc j)
  let ?t = "(skipOne k ^^ j) s"
  have sk: "skipped (skipOne k ?t) = (skipped ?t)((k, nRecv s + of_nat j) \<mapsto>
      messageKey ((nextChain ^^ j) (chainRecv s)))"
    by (simp add: skipOne_def chainStep_eq skipOne_pow)
  show ?case
  proof (cases "i = j")
    case False
    then have "i < j" using Suc.prems by simp
    moreover have "nRecv s + of_nat i \<noteq> nRecv s + of_nat j"
      using number_inj [of "nRecv s" i j] Suc.prems False by fastforce
    ultimately show ?thesis using Suc.IH Suc.prems by (simp add: sk)
  qed (simp add: sk)
qed simp

lemma skipOne_pow_other:
  "\<forall>i < j. a \<noteq> (k, nRecv s + of_nat i) \<Longrightarrow> skipped ((skipOne k ^^ j) s) a = skipped s a"
  by (induction j) (simp_all add: skipOne_def chainStep_eq skipOne_pow)

lemma skipMessageKeys_pow:
  assumes "unat (nRecv s) + j < 2 ^ 32" and "j \<le> 1000" and "chainRecv s \<noteq> None"
    and "dhRemote s = Some k"
  shows "skipMessageKeys (nRecv s + of_nat j) s = (Inr (), (skipOne k ^^ j) s)"
proof -
  have u: "unat (nRecv s + of_nat j) = unat (nRecv s) + j" by (rule unat_plus_nat [OF assms(1)])
  then have "\<not> nRecv s + of_nat j < nRecv s" by (simp add: word_less_nat_alt)
  moreover have "unat (of_nat j :: u32) = j"
    using assms(2) by (simp add: unsigned_of_nat take_bit_eq_mod)
  then have "\<not> of_nat j > MaxSkip" using assms(2) by (simp add: MaxSkip_def word_less_nat_alt)
  ultimately show ?thesis
    using assms(3,4) skipLoop_pow [OF assms(1)] by (auto simp: skipMessageKeys_def)
qed

section \<open>A chain delivered out of order\<close>

text \<open>
  \<open>chainAt s pub m D t\<close>: from state \<open>s\<close>, with ratchet key \<open>pub\<close> of the peer, the chain has been
  advanced by \<open>m\<close> messages, of which those in \<open>D\<close> were delivered and the keys of the rest are kept.
\<close>

definition chainAt :: "State \<Rightarrow> bytes \<Rightarrow> nat \<Rightarrow> nat set \<Rightarrow> State \<Rightarrow> bool" where
  "chainAt s pub m D t \<longleftrightarrow> (\<forall>i \<in> D. i < m) \<and> dhRemote t = Some pub \<and>
     chainRecv t = (nextChain ^^ m) (chainRecv s) \<and> nRecv t = nRecv s + of_nat m \<and>
     (\<forall>i. unat (nRecv s) + i < 2 ^ 32 \<longrightarrow> skipped t (pub, nRecv s + of_nat i) =
        (if i < m \<and> i \<notin> D then Some (messageKey ((nextChain ^^ i) (chainRecv s))) else None))"

lemma chainAt_start:
  "dhRemote s = Some pub \<Longrightarrow> \<forall>n \<ge> nRecv s. skipped s (pub, n) = None \<Longrightarrow> chainAt s pub 0 {} s"
  using unat_plus_nat [of "nRecv s"] by (auto simp: chainAt_def word_le_nat_alt)

text \<open>
  Delivery of message \<open>i\<close> of the chain: whatever the ciphertext, it is tried with the key of \<open>i\<close>.
\<close>

lemma chainAt_key:
  assumes at: "chainAt s pub m D t" and some: "chainRecv s \<noteq> None"
    and i: "i \<notin> D" "i \<le> m + 1000" and rng: "unat (nRecv s) + m < 2 ^ 32" "unat (nRecv s) + i < 2 ^ 32"
    and hdr: "hdrDHPub hdr = pub" "hdrN hdr = nRecv s + of_nat i"
  shows "\<exists>t'. DecryptMessage P hdr ct ad t = (aeadOpen P (messageKey ((nextChain ^^ i) (chainRecv s))) ct
      (associatedDataWithHeader hdr ad), t') \<and> chainAt s pub (max m (Suc i)) (insert i D) t'"
proof (cases "i < m")
  case True
  then have sk: "skipped t (hdrDHPub hdr, hdrN hdr) = Some (messageKey ((nextChain ^^ i) (chainRecv s)))"
    using at i(1) rng hdr by (simp add: chainAt_def)
  let ?t = "t\<lparr>skipped := (skipped t)((hdrDHPub hdr, hdrN hdr) := None)\<rparr>"
  note DecryptMessage_skipped [OF sk, of P ct ad]
  moreover have "max m (Suc i) = m" using True by simp
  then have "chainAt s pub (max m (Suc i)) (insert i D) ?t"
    using at hdr rng(2) number_inj [of "nRecv s"] by (auto simp: chainAt_def)
  ultimately show ?thesis by blast
next
  case False
  let ?j = "i - m" and ?u = "(skipOne pub ^^ (i - m)) t"
  have t: "dhRemote t = Some pub" "chainRecv t = (nextChain ^^ m) (chainRecv s)" "nRecv t = nRecv s + of_nat m"
    and sk: "\<And>l. unat (nRecv s) + l < 2 ^ 32 \<Longrightarrow> skipped t (pub, nRecv s + of_nat l) =
        (if l < m \<and> l \<notin> D then Some (messageKey ((nextChain ^^ l) (chainRecv s))) else None)"
    using at by (simp_all add: chainAt_def)
  have n: "hdrN hdr = nRecv t + of_nat ?j" using False hdr t by (simp add: of_nat_diff)
  have un: "unat (nRecv t) = unat (nRecv s) + m" using t unat_plus_nat [OF rng(1)] by simp
  then have jr: "unat (nRecv t) + ?j < 2 ^ 32" using rng(2) False by simp
  have "chainRecv t \<noteq> None" using t(2) some by (cases m) simp_all
  then have skip: "skipMessageKeys (hdrN hdr) t = (Inr (), ?u)"
    unfolding n using i(2) t(1) by (intro skipMessageKeys_pow [OF jr]) auto
  have "(nextChain ^^ ?j) ((nextChain ^^ m) (chainRecv s)) = (nextChain ^^ (?j + m)) (chainRecv s)"
    by (simp add: funpow_add)
  then have cu: "chainRecv ?u = (nextChain ^^ i) (chainRecv s)" using False by (simp add: skipOne_pow t(2))
  have "DecryptMessage P hdr ct ad t = (aeadOpen P (messageKey ((nextChain ^^ i) (chainRecv s))) ct
      (associatedDataWithHeader hdr ad), advanceRecv ?u)"
    using t(1) hdr skip sk [OF rng(2)] False
    by (simp add: DecryptMessage_def takeSkippedKey_None receivingKey_def enterNewKey_def tryS_step
        nextRecvKey_run cu)
  moreover have "chainAt s pub (max m (Suc i)) (insert i D) (advanceRecv ?u)"
    unfolding chainAt_def
  proof (intro conjI allI impI)
    have mx: "max m (Suc i) = Suc i" using False by simp
    show "\<forall>l \<in> insert i D. l < max m (Suc i)" using at False by (auto simp: chainAt_def)
    show "dhRemote (advanceRecv ?u) = Some pub" by (simp add: skipOne_pow t(1))
    show "chainRecv (advanceRecv ?u) = (nextChain ^^ max m (Suc i)) (chainRecv s)"
      by (simp add: advanceRecv_def cu mx)
    show "nRecv (advanceRecv ?u) = nRecv s + of_nat (max m (Suc i))"
      using n hdr(2) by (simp add: advanceRecv_def skipOne_pow mx add_ac)
    fix l assume l: "unat (nRecv s) + l < 2 ^ 32"
    show "skipped (advanceRecv ?u) (pub, nRecv s + of_nat l) =
        (if l < max m (Suc i) \<and> l \<notin> insert i D
         then Some (messageKey ((nextChain ^^ l) (chainRecv s))) else None)"
    proof (cases "m \<le> l \<and> l < i")
      case True
      then have num: "nRecv s + of_nat l = nRecv t + of_nat (l - m)" by (simp add: t(3) of_nat_diff)
      have "(nextChain ^^ (l - m)) (chainRecv t) = (nextChain ^^ l) (chainRecv s)"
        using True by (simp add: t(2) flip: funpow_add [THEN fun_cong, unfolded o_apply])
      then have "skipped ?u (pub, nRecv s + of_nat l) = Some (messageKey ((nextChain ^^ l) (chainRecv s)))"
        unfolding num using skipOne_pow_skipped [OF jr, of "l - m" pub] True by auto
      moreover have "l \<notin> D"
        using at True by (auto simp: chainAt_def)
      ultimately show ?thesis using True mx by simp
    next
      case out: False
      have "skipped ?u (pub, nRecv s + of_nat l) = skipped t (pub, nRecv s + of_nat l)"
      proof (rule skipOne_pow_other, intro allI impI)
        fix e assume "e < ?j"
        then have "unat (nRecv s) + (m + e) < 2 ^ 32" "l \<noteq> m + e" using rng(2) out by auto
        then show "(pub, nRecv s + of_nat l) \<noteq> (pub, nRecv t + of_nat e)"
          using number_inj [OF l] by (fastforce simp: t(3) add.assoc)
      qed
      then show ?thesis using sk [OF l] out False mx by auto
    qed
  qed
  ultimately show ?thesis by blast
qed

lemma chainAt_deliver:
  assumes "aead_laws P" and "chainAt s pub m D t" and "chainRecv s \<noteq> None"
    and "i \<notin> D" "i \<le> m + 1000" and "unat (nRecv s) + m < 2 ^ 32" "unat (nRecv s) + i < 2 ^ 32"
    and "hdrDHPub hdr = pub" "hdrN hdr = nRecv s + of_nat i"
    and "ct = chacha_seal P (messageKey ((nextChain ^^ i) (chainRecv s))) zeroNonce pt
        (associatedDataWithHeader hdr ad)"
  shows "\<exists>t'. DecryptMessage P hdr ct ad t = (Inr pt, t') \<and> chainAt s pub (max m (Suc i)) (insert i D) t'"
  using chainAt_key [OF assms(2-9), of P ct ad] assms(10) by (simp add: open_sealed [OF assms(1)])

section \<open>Runs of both sides\<close>

text \<open>Sending a list of messages, and decrypting a list of packets, one after the other.\<close>

fun sendAll ::
  "primitives \<Rightarrow> (bytes \<times> bytes) list \<Rightarrow> (State \<times> world, packet list) action" where
  "sendAll P [] = ret []"
| "sendAll P ((pt, ad) # ms) =
     tryS (EncryptMessage P pt ad) (\<lambda>m.
     tryS (sendAll P ms) (\<lambda>rest. ret ((m, ad) # rest)))"

fun receiveAll :: "primitives \<Rightarrow> packet list \<Rightarrow> State \<Rightarrow> (fault + bytes) list \<times> State" where
  "receiveAll P [] s = ([], s)"
| "receiveAll P ((m, ad) # ps) s =
     (case receivePacket P m ad s of
        (r, s') \<Rightarrow> (case receiveAll P ps s' of (rs, t) \<Rightarrow> (r # rs, t)))"

lemma sendAll_run:
  "\<not> needsNewSendingChain x \<Longrightarrow> sendAll P ms (x, w) =
     (Inr (map (\<lambda>i. sealedNext P ((advanceSend ^^ i) x) (fst (ms ! i)) (snd (ms ! i))) [0..<length ms]),
      ((advanceSend ^^ length ms) x, w))"
proof (induction ms arbitrary: x)
  case (Cons m ms)
  obtain pt ad where m: "m = (pt, ad)" by (cases m)
  have "\<not> needsNewSendingChain (advanceSend x)" using Cons.prems by simp
  from Cons.IH [OF this] Cons.prems show ?case
    by (simp add: m tryS_step EncryptMessage_continue sealedNext_def funpow_swap1
        upt_conv_Cons map_Suc_upt [symmetric] del: upt_Suc)
qed (simp add: ret_def)

lemma advanceSend_pow:
  "chainSend ((advanceSend ^^ i) x) = (nextChain ^^ i) (chainSend x)"
  "nSend ((advanceSend ^^ i) x) = nSend x + of_nat i"
  "ratchetPub P ((advanceSend ^^ i) x) = ratchetPub P x"
  by (induction i) (simp_all add: advanceSend_def ratchetPub_def add_ac)

text \<open>An order of delivery in which no message runs more than \<open>MaxSkip\<close> ahead.\<close>

fun inWindow :: "nat \<Rightarrow> nat list \<Rightarrow> bool" where
  "inWindow m [] = True"
| "inWindow m (i # is) = (i \<le> m + 1000 \<and> inWindow (max m (Suc i)) is)"

lemma receive_selection:
  assumes "aead_laws P" and "chainRecv s \<noteq> None" and "chainSend x = chainRecv s"
    and "nSend x = nRecv s" and "pub = ratchetPub P x"
  shows "chainAt s pub m D t \<Longrightarrow> inWindow m is \<Longrightarrow> distinct is \<Longrightarrow> set is \<inter> D = {} \<Longrightarrow>
    unat (nRecv s) + m < 2 ^ 32 \<Longrightarrow> \<forall>i \<in> set is. unat (nRecv s) + Suc i < 2 ^ 32 \<Longrightarrow>
    fst (receiveAll P (map (\<lambda>i. sealedNext P ((advanceSend ^^ i) x) (pt i) (ad i)) is) t) =
      map (\<lambda>i. Inr (pt i)) is"
proof (induction "is" arbitrary: m D t)
  case (Cons i is')
  let ?h = "plainHeader P ((advanceSend ^^ i) x)"
  have "hdrDHPub ?h = pub" "hdrN ?h = nRecv s + of_nat i"
    using assms(4,5) by (simp_all add: plainHeader_def advanceSend_pow ratchetPub_def [symmetric])
  then obtain t' where d: "DecryptMessage P ?h
      (chacha_seal P (messageKey ((nextChain ^^ i) (chainRecv s))) zeroNonce (pt i)
        (associatedDataWithHeader ?h (ad i))) (ad i) t = (Inr (pt i), t')"
    and at: "chainAt s pub (max m (Suc i)) (insert i D) t'"
    using chainAt_deliver [OF assms(1) Cons.prems(1) assms(2), of i ?h] Cons.prems(2-6) by force
  have "fst (receiveAll P (map (\<lambda>i. sealedNext P ((advanceSend ^^ i) x) (pt i) (ad i)) is') t') =
      map (\<lambda>i. Inr (pt i)) is'"
    using Cons.prems by (intro Cons.IH [OF at]) (auto simp: max_def)
  then show ?case
    using d by (simp add: sealedNext_def receivePacket_def advanceSend_pow assms(3) split_beta)
qed simp

section \<open>Properties\<close>

text \<open>
  Delivery out of order. Let the receiver hold the sender's current ratchet key and chain, and
  let the sender send any list of messages. Any selection of them, each delivered at most once, in
  any order in which no message runs more than \<open>MaxSkip = 1000\<close> ahead of the newest one received,
  decrypts to exactly the plaintexts sent; lost messages do no harm.
\<close>

theorem out_of_order_delivery:
  assumes "aead_laws P" and "\<not> needsNewSendingChain x"
    and "dhRemote y = Some (ecdh_PublicKey P (dhSelf x))"
    and "chainRecv y = chainSend x" and "chainRecv y \<noteq> None" and "nRecv y = nSend x"
    and "\<forall>n \<ge> nRecv y. skipped y (ecdh_PublicKey P (dhSelf x), n) = None"
    and "sendAll P ms (x, w) = (Inr packets, xw)"
    and "distinct order" and "\<forall>i \<in> set order. i < length ms" and "inWindow 0 order"
    and "unat (nSend x) + length ms < 2 ^ 32"
  shows "fst (receiveAll P (map (\<lambda>i. packets ! i) order) y) = map (\<lambda>i. Inr (fst (ms ! i))) order"
proof -
  have at: "chainAt y (ratchetPub P x) 0 {} y"
    using assms(3,7) by (intro chainAt_start) (simp_all add: ratchetPub_def)
  have "packets = map (\<lambda>i. sealedNext P ((advanceSend ^^ i) x) (fst (ms ! i)) (snd (ms ! i))) [0..<length ms]"
    using sendAll_run [OF assms(2), of P ms w] assms(8) by simp
  then have "map (\<lambda>i. packets ! i) order =
      map (\<lambda>i. sealedNext P ((advanceSend ^^ i) x) (fst (ms ! i)) (snd (ms ! i))) order"
    using assms(10) by simp
  moreover have "fst (receiveAll P (map (\<lambda>i. sealedNext P ((advanceSend ^^ i) x)
      (fst (ms ! i)) (snd (ms ! i))) order) y) = map (\<lambda>i. Inr (fst (ms ! i))) order"
    using assms(9-12) assms(6)
    by (intro receive_selection [OF assms(1,5) assms(4) [symmetric] assms(6) [symmetric] refl at]) auto
  ultimately show ?thesis by (simp only:)
qed

definition demoSender :: State where
  "demoSender = \<lparr>RootKey = [1], dhSelf = replicate 32 1, dhRemote = Some (replicate 32 2),
     chainSend = Some [3], chainRecv = None, nSend = 5, nRecv = 0, pn = 0,
     needsNewSendingChain = False, skipped = Map.empty, MessageThreshold = 50,
     TimeThreshold = 86400000000000, msgsSinceInject = 0, lastInject = 0,
     selfPendingKEMPriv = None, peerAdvertisedKEMPub = None\<rparr>"

definition demoReceiver :: State where
  "demoReceiver = demoSender\<lparr>dhSelf := replicate 32 2,
     dhRemote := Some (ecdh_PublicKey demoPrimitives (replicate 32 1)), chainSend := None,
     chainRecv := Some [3], nSend := 0, nRecv := 5, needsNewSendingChain := True\<rparr>"

lemma out_of_order_delivery_witness:
  "\<exists>packets xw. sendAll demoPrimitives [([1], []), ([2], [9]), ([3], []), ([4], [])]
        (demoSender, demoWorld 0) = (Inr packets, xw) \<and>
     fst (receiveAll demoPrimitives (map (\<lambda>i. packets ! i) [3, 0, 1]) demoReceiver) =
       [Inr [4], Inr [1], Inr [2]]"
proof -
  let ?ms = "[([1], []), ([2], [9]), ([3], []), ([4], [])] :: (bytes \<times> bytes) list"
  have "aead_laws demoPrimitives" using demo_lawful by (simp add: lawful_def)
  moreover have n: "\<not> needsNewSendingChain demoSender" by (simp add: demoSender_def)
  moreover obtain packets xw where p: "sendAll demoPrimitives ?ms (demoSender, demoWorld 0) = (Inr packets, xw)"
    using sendAll_run [OF n] by blast
  ultimately have "fst (receiveAll demoPrimitives (map (\<lambda>i. packets ! i) [3, 0, 1]) demoReceiver) =
      map (\<lambda>i. Inr (fst (?ms ! i))) [3, 0, 1]"
    by (intro out_of_order_delivery [where x = demoSender])
      (simp_all add: demoReceiver_def, simp_all add: demoSender_def)
  with p show ?thesis by (intro exI [of _ packets] exI [of _ xw]) (simp add: numeral_eq_Suc)
qed

text \<open>
  C35: a replayed message breaks the session. When a message of the current chain whose key is gone
  (it was received before) is delivered again, \<open>DecryptMessage\<close> does not report a duplicate: it
  tries the key of the next expected message and advances the chain past it. The genuine next
  message, which the untouched state decrypts, is then tried with the key of its successor.
\<close>

theorem replay_desynchronises:
  assumes "aead_laws P" and "dhRemote s = Some (hdrDHPub old)" and "hdrN old < nRecv s"
    and "skipped s (hdrDHPub old, hdrN old) = None"
    and "hdrDHPub nxt = hdrDHPub old" and "hdrN nxt = nRecv s"
    and "skipped s (hdrDHPub nxt, hdrN nxt) = None" and "nRecv s + 1 \<noteq> 0"
    and "aeadSeal P (messageKey (chainRecv s)) pt (associatedDataWithHeader nxt ad) = Inr ct"
    and "DecryptMessage P old replayed ad' s = (r, s')"
  shows "fst (DecryptMessage P nxt ct ad s) = Inr pt \<and>
    r = aeadOpen P (messageKey (chainRecv s)) replayed (associatedDataWithHeader old ad') \<and>
    chainRecv s' = nextChain (chainRecv s) \<and> nRecv s' = nRecv s + 1 \<and>
    fst (DecryptMessage P nxt ct ad s') =
      aeadOpen P (messageKey (nextChain (chainRecv s))) ct (associatedDataWithHeader nxt ad)"
proof -
  have d: "DecryptMessage P old replayed ad' s =
      (aeadOpen P (messageKey (chainRecv s)) replayed (associatedDataWithHeader old ad'), advanceRecv s)"
    using assms by (intro DecryptMessage_current) simp_all
  have s': "s' = advanceRecv s" using d assms(10) by simp
  have "nRecv s \<le> nRecv s + 1"
    using unatSuc [of "nRecv s"] assms(8) by (simp add: word_le_nat_alt add.commute)
  then have "fst (DecryptMessage P nxt ct ad (advanceRecv s)) =
      aeadOpen P (messageKey (nextChain (chainRecv s))) ct (associatedDataWithHeader nxt ad)"
    using assms by (subst DecryptMessage_current) (simp_all add: advanceRecv_def)
  moreover have "fst (DecryptMessage P nxt ct ad s) = Inr pt"
    using assms aead.unseal_seal [OF assms(1,9)] by (subst DecryptMessage_current) simp_all
  ultimately show ?thesis using d assms(10) by (simp add: s') (simp add: advanceRecv_def)
qed

lemma replay_desynchronises_witness:
  "let old = \<lparr>hdrDHPub = ecdh_PublicKey demoPrimitives (replicate 32 1), hdrPN = 0, hdrN = 4,
        hdrMLKEMPub = None, hdrMLKEMCiphertext = None\<rparr>; nxt = old\<lparr>hdrN := 5\<rparr> in
    \<exists>ct r s'. DecryptMessage demoPrimitives old [0] [] demoReceiver = (r, s') \<and>
      fst (DecryptMessage demoPrimitives nxt ct [] demoReceiver) = Inr [7] \<and> nRecv s' = 6 \<and>
      fst (DecryptMessage demoPrimitives nxt ct [] s') =
        aeadOpen demoPrimitives (messageKey (nextChain (Some [3]))) ct (associatedDataWithHeader nxt [])"
proof -
  let ?old = "\<lparr>hdrDHPub = ecdh_PublicKey demoPrimitives (replicate 32 1), hdrPN = 0, hdrN = 4,
        hdrMLKEMPub = None, hdrMLKEMCiphertext = None\<rparr> :: Header"
  let ?nxt = "?old\<lparr>hdrN := 5\<rparr>"
  have al: "aead_laws demoPrimitives" using demo_lawful by (simp add: lawful_def)
  have r: "dhRemote demoReceiver = Some (hdrDHPub ?old)" "nRecv demoReceiver = 5"
    "skipped demoReceiver = Map.empty" "chainRecv demoReceiver = Some [3]"
    by (simp_all add: demoReceiver_def demoSender_def)
  obtain ct where ct: "aeadSeal demoPrimitives (messageKey (chainRecv demoReceiver)) [7]
      (associatedDataWithHeader ?nxt []) = Inr ct"
    using aead.seal_total [OF length_messageKey] by blast
  obtain r' s' where d: "DecryptMessage demoPrimitives ?old [0] [] demoReceiver = (r', s')"
    by (metis prod.exhaust)
  have "fst (DecryptMessage demoPrimitives ?nxt ct [] demoReceiver) = Inr [7] \<and>
      r' = aeadOpen demoPrimitives (messageKey (chainRecv demoReceiver)) [0] (associatedDataWithHeader ?old []) \<and>
      chainRecv s' = nextChain (chainRecv demoReceiver) \<and> nRecv s' = nRecv demoReceiver + 1 \<and>
      fst (DecryptMessage demoPrimitives ?nxt ct [] s') =
        aeadOpen demoPrimitives (messageKey (nextChain (chainRecv demoReceiver))) ct
          (associatedDataWithHeader ?nxt [])"
    by (rule replay_desynchronises [OF al _ _ _ _ _ _ _ ct d]) (simp_all add: r)
  with d show ?thesis unfolding Let_def r by auto
qed

end
