(* ===== verification/RatchetSafety.thy ===== *)
theory RatchetSafety
  imports RatchetDelivery
begin

text \<open>
  What holds of one \<open>Ratchet\<close> state whatever the peer or the network sends: a well-formedness
  invariant of every sequence of calls, delivery out of order, the bound on stored keys, the exact
  condition of a panic, the injection schedule, and how \<open>DecryptMessage\<close> behaves on replayed and
  forged input.
\<close>

section \<open>The invariant of a state\<close>

definition wfState :: "State \<Rightarrow> bool" where
  "wfState s \<longleftrightarrow> length (dhSelf s) = 32 \<and> (\<forall>r. dhRemote s = Some r \<longrightarrow> length r = 32) \<and>
     (chainRecv s \<noteq> None \<longrightarrow> dhRemote s \<noteq> None) \<and> (needsNewSendingChain s \<longrightarrow> dhRemote s \<noteq> None) \<and>
     (\<forall>mk \<in> ran (skipped s). length mk = 32) \<and> finite (dom (skipped s))"

lemma wfState_frame [simp]:
  "wfState (s\<lparr>RootKey := x1\<rparr>) = wfState s" "wfState (s\<lparr>chainSend := x2\<rparr>) = wfState s"
  "wfState (s\<lparr>nSend := x3\<rparr>) = wfState s" "wfState (s\<lparr>nRecv := x3\<rparr>) = wfState s"
  "wfState (s\<lparr>pn := x3\<rparr>) = wfState s" "wfState (s\<lparr>msgsSinceInject := x4\<rparr>) = wfState s"
  "wfState (s\<lparr>lastInject := x4\<rparr>) = wfState s" "wfState (s\<lparr>selfPendingKEMPriv := x2\<rparr>) = wfState s"
  "wfState (s\<lparr>peerAdvertisedKEMPub := x2\<rparr>) = wfState s"
  by (simp_all add: wfState_def)

lemma wfState_intros:
  "wfState s \<Longrightarrow> length k = 32 \<Longrightarrow> wfState (s\<lparr>dhSelf := k\<rparr>)"
  "wfState s \<Longrightarrow> length k = 32 \<Longrightarrow> wfState (s\<lparr>dhRemote := Some k\<rparr>)"
  "wfState s \<Longrightarrow> wfState (s\<lparr>needsNewSendingChain := False\<rparr>)"
  "wfState s \<Longrightarrow> dhRemote s \<noteq> None \<Longrightarrow> wfState (s\<lparr>needsNewSendingChain := True\<rparr>)"
  "wfState s \<Longrightarrow> dhRemote s \<noteq> None \<Longrightarrow> wfState (s\<lparr>chainRecv := c\<rparr>)"
  "wfState s \<Longrightarrow> length mk = 32 \<Longrightarrow> wfState (s\<lparr>skipped := (skipped s)(a \<mapsto> mk)\<rparr>)"
  "wfState s \<Longrightarrow> wfState (s\<lparr>skipped := (skipped s)(a := None)\<rparr>)"
  by (auto simp: wfState_def ran_def)

lemma wfState_InitBob: "InitBob key priv w = (Inr s, w') \<Longrightarrow> length priv = 32 \<Longrightarrow> wfState s"
  using InitBob_Inr by (simp add: wfState_def)

lemma wfState_InitAlice:
  assumes "InitAlice P key pub w = (Inr s, w')" and "length pub = 32"
  shows "wfState s"
  by (rule InitAlice_Inr [OF assms(1)]) (simp add: wfState_def assms(2))

text \<open>Sending keeps it on every path, errors included.\<close>

abbreviation "wf1 \<equiv> \<lambda>p :: State \<times> world. wfState (fst p)"

lemma obeys_injectionDue: "obeys wf1 injectionDue (\<lambda>_. True)"
  by (auto simp: obeys_def injectionDue_def tryS_step liftW_run)

lemma obeys_respond: "obeys wf1 (respondToInjection P hdr) (\<lambda>_. True)"
  unfolding respondToInjection_def by (intro obeys_intros) simp_all

lemma obeys_initiate: "obeys wf1 (initiateInjection P hdr) (\<lambda>_. True)"
  unfolding initiateInjection_def by (intro obeys_intros) simp_all

lemma obeys_start: "obeys wf1 (startSendingChain P hdr) (\<lambda>_. True)"
proof -
  have g: "obeys wf1 (liftW (ecdh_GenerateKey None)) (\<lambda>(k, _). length k = 32)"
    by (intro obeys_intros) (auto simp: ecdh_GenerateKey_def dest: readFrom_length)
  have r: "obeys wfState (sendingRootStep d k) (\<lambda>_. True)" for d k
    by (auto simp: obeys_def sendingRootStep_def split: sum.splits)
  have e: "obeys wfState (\<lambda>s. (ecdhWithRemote P s, s)) (\<lambda>_. True)"
    by (simp add: obeys_def)
  show ?thesis
    unfolding startSendingChain_def
    by (rule obeys_tryS [OF g])
      (intro obeys_intros obeys_respond r e obeys_injectionDue obeys_initiate; simp add: wfState_intros)
qed

lemma obeys_Encrypt: "obeys wf1 (EncryptMessage P pt ad) (\<lambda>_. True)"
proof -
  have "obeys wfState nextSendKey (\<lambda>_. True)"
    by (auto simp: obeys_def nextSendKey_run advanceSend_def)
  then show ?thesis
    unfolding EncryptMessage_def prepareSendingChain_def Let_def
    by (intro obeys_intros obeys_start) simp_all
qed

text \<open>Receiving.\<close>

lemma wfState_skipOne: "wfState s \<Longrightarrow> dhRemote s \<noteq> None \<Longrightarrow> wfState (skipOne k s)"
  by (auto simp: skipOne_def chainStep_eq wfState_def ran_def)

lemma dhRemote_skipOne [simp]: "dhRemote (skipOne k s) = dhRemote s"
  by (simp add: skipOne_def chainStep_eq)

lemma wfState_skipLoop: "wfState s \<Longrightarrow> dhRemote s \<noteq> None \<Longrightarrow> wfState (skipLoop k until s)"
  by (induction k until s rule: skipLoop.induct)
    (subst skipLoop.simps, simp add: wfState_skipOne)

lemma obeys_skip: "obeys wfState (skipMessageKeys until) (\<lambda>_. True)"
  by (auto simp: obeys_def skipMessageKeys_def wfState_skipLoop split: option.split)

lemma obeys_dhRatchet: "obeys wfState (dhRatchetStep P hdr) (\<lambda>_. True)"
proof -
  let ?J = "\<lambda>s. wfState s \<and> dhRemote s \<noteq> None"
  have n: "obeys wfState (pureS (ecdh_NewPublicKey (hdrDHPub hdr))) (\<lambda>r. length r = 32)"
    by (intro obeys_intros) (auto simp: ecdh_NewPublicKey_def split: if_splits)
  have c: "obeys wfState (consumeInjection P hdr) (\<lambda>_. True)"
    by (auto simp: obeys_def consumeInjection_def tryS_def split: option.splits sum.splits)
  have e: "obeys ?J (\<lambda>s. (ecdhWithRemote P s, s)) (\<lambda>_. True)" by (simp add: obeys_def)
  have r: "obeys ?J (receivingRootStep d k) (\<lambda>_. True)" for d k
    by (auto simp: obeys_def receivingRootStep_def intro!: wfState_intros split: sum.splits)
  have rec: "obeys ?J (recordInjection P hdr) (\<lambda>_. True)"
    unfolding recordInjection_def by (intro obeys_intros) simp_all
  show ?thesis
    unfolding dhRatchetStep_def
    apply (rule obeys_tryS [OF n])
    apply (rule obeys_tryS [OF c])
    apply (rule obeys_modify_then [where J = ?J])
      apply (simp add: wfState_intros)
     apply (intro obeys_intros r rec e; auto intro: wfState_intros)
    apply simp
    done
qed

lemma dhRemote_skipLoop [simp]: "dhRemote (skipLoop k until s) = dhRemote s"
  by (induction k until s rule: skipLoop.induct) (subst skipLoop.simps, simp)

lemma dhRemote_skip [simp]: "dhRemote (snd (skipMessageKeys until s)) = dhRemote s"
  by (simp add: skipMessageKeys_def split: option.split)

lemma receivingRoot_Inr:
  "receivingRootStep d k s = (Inr u, s') \<Longrightarrow> \<exists>rk ck. s' = s\<lparr>RootKey := rk, chainRecv := Some ck\<rparr>"
  by (auto simp: receivingRootStep_def split: sum.splits)

lemma dhRatchet_remote: "dhRatchetStep P hdr s = (Inr u, s') \<Longrightarrow> dhRemote s' \<noteq> None"
  by (auto simp: dhRatchetStep_def tryS_Inr recordInjection_def dest!: receivingRoot_Inr
      split: option.splits)

lemma obeys_enterNewKey: "obeys wfState (enterNewKey P hdr) (\<lambda>_. True)"
  unfolding enterNewKey_def by (intro obeys_intros obeys_skip obeys_dhRatchet) simp_all

lemma enterNew_remote: "enterNewKey P hdr s = (Inr u, s') \<Longrightarrow> dhRemote s' \<noteq> None"
  by (auto simp: enterNewKey_def tryS_Inr dest: dhRatchet_remote split: if_splits)

lemma obeys_receivingKey: "obeys wfState (receivingKey P hdr) (\<lambda>mk. length mk = 32)"
proof -
  let ?J = "\<lambda>s. wfState s \<and> dhRemote s \<noteq> None"
  have "obeys ?J nextRecvKey (\<lambda>mk. length mk = 32)"
    by (auto simp: obeys_def nextRecvKey_run advanceRecv_def intro!: wfState_intros)
  moreover have "obeys ?J (skipMessageKeys (hdrN hdr)) (\<lambda>_. True)"
    using obeysD(1) [OF obeys_skip] by (simp add: obeys_def)
  ultimately have rest: "obeys ?J (tryS (skipMessageKeys (hdrN hdr)) (\<lambda>_. nextRecvKey)) (\<lambda>mk. length mk = 32)"
    by (intro obeys_intros)
  show ?thesis
    unfolding obeys_def receivingKey_def
  proof (intro allI impI)
    fix s assume s: "wfState s"
    obtain r s1 where e: "enterNewKey P hdr s = (r, s1)" by (cases "enterNewKey P hdr s")
    have w: "wfState s1" using obeysD(1) [OF obeys_enterNewKey s, of P hdr] e by simp
    show "wfState (snd (tryS (enterNewKey P hdr) (\<lambda>_. tryS (skipMessageKeys (hdrN hdr)) (\<lambda>_. nextRecvKey)) s)) \<and>
        (\<forall>x. fst (tryS (enterNewKey P hdr) (\<lambda>_. tryS (skipMessageKeys (hdrN hdr)) (\<lambda>_. nextRecvKey)) s) =
           Inr x \<longrightarrow> length x = 32)"
    proof (cases r)
      case (Inl f)
      then show ?thesis using e w by (simp add: tryS_step)
    next
      case (Inr u)
      then have "?J s1" using enterNew_remote e w by blast
      from obeysD [OF rest this] show ?thesis using e Inr by (simp add: tryS_step)
    qed
  qed
qed

lemma takeSkipped_wf:
  "takeSkippedKey hdr s = (m, s') \<Longrightarrow> wfState s \<Longrightarrow> wfState s' \<and> (\<forall>mk. m = Some mk \<longrightarrow> length mk = 32)"
  by (auto simp: takeSkippedKey_def intro!: wfState_intros split: option.splits)
    (auto simp: wfState_def ran_def)

lemma obeys_Decrypt: "obeys wfState (DecryptMessage P hdr ct ad) (\<lambda>_. True)"
  unfolding obeys_def
proof (intro allI impI)
  fix s assume s: "wfState s"
  obtain m s1 where t: "takeSkippedKey hdr s = (m, s1)" by (cases "takeSkippedKey hdr s")
  have "obeys wfState (tryS (receivingKey P hdr) (\<lambda>mk.
      pureS (aeadOpen P mk ct (associatedDataWithHeader hdr ad)))) (\<lambda>_. True)"
    by (rule obeys_tryS [OF obeys_receivingKey]) (intro obeys_intros, simp)
  from obeysD(1) [OF this] takeSkipped_wf [OF t s]
  show "wfState (snd (DecryptMessage P hdr ct ad s)) \<and> (\<forall>x. fst (DecryptMessage P hdr ct ad s) = Inr x \<longrightarrow> True)"
    by (simp add: DecryptMessage_def t split: option.split)
qed

section \<open>Every sequence of calls\<close>

datatype ratchetOp = Encrypt bytes bytes | Decrypt Header bytes bytes

fun ratchetStep :: "primitives \<Rightarrow> ratchetOp \<Rightarrow> State \<times> world \<Rightarrow> State \<times> world" where
  "ratchetStep P (Encrypt pt ad) p = snd (EncryptMessage P pt ad p)"
| "ratchetStep P (Decrypt hdr ct ad) p = snd (liftT (DecryptMessage P hdr ct ad) p)"

interpretation ratchet_calls: guarded_machine "ratchetStep P" wf1 for P
proof
  fix p :: "State \<times> world" and x
  assume "wf1 p"
  then show "wf1 (ratchetStep P x p)"
    using obeysD(1) [OF obeys_Encrypt] obeysD(1) [OF obeys_liftT [OF obeys_Decrypt]]
    by (cases x) simp_all
qed

section \<open>Receiving, in detail\<close>

lemma skipLoop_frame [simp]:
  "dhSelf (skipLoop k u s) = dhSelf s" "RootKey (skipLoop k u s) = RootKey s"
  "selfPendingKEMPriv (skipLoop k u s) = selfPendingKEMPriv s"
  by (induction k u s rule: skipLoop.induct; subst skipLoop.simps; simp add: skipOne_def chainStep_eq)+

lemma skip_frame [simp]:
  "dhSelf (snd (skipMessageKeys u s)) = dhSelf s" "RootKey (snd (skipMessageKeys u s)) = RootKey s"
  "selfPendingKEMPriv (snd (skipMessageKeys u s)) = selfPendingKEMPriv s"
  by (simp_all add: skipMessageKeys_def split: option.split)

lemma skip_cases:
  "wfState s \<Longrightarrow> (\<exists>t. skipMessageKeys u s = (Inr (), t)) \<or>
     skipMessageKeys u s = (Inl (GoError ErrSkipTooLarge), s)"
  by (auto simp: skipMessageKeys_def wfState_def split: option.splits)

lemma aeadOpen_cases:
  "length k = 32 \<Longrightarrow> aeadOpen P k ct ad \<in> range Inr \<union> {Inl (GoError LibErrAEADOpen)}"
  by (auto simp: aeadOpen_def split: option.split)

lemma dhRatchet_cases:
  assumes "dhRatchetStep P hdr s = (Inl e, s')"
  shows "e \<in> {GoError LibErrX25519Key, GoError ErrUnexpectedKEMCT, GoError LibErrX25519LowOrder,
      GoError LibErrMLKEMKey} \<or>
    e = Panics \<and> (\<exists>c sk. hdrMLKEMCiphertext hdr = Some c \<and> selfPendingKEMPriv s = Some sk \<and>
      length c \<noteq> mlkem_CiphertextSize)"
proof -
  have kdf: "rootKDF r d k \<noteq> Inl x" for r d k x using rootKDF_ok [of r d k] by fastforce
  show ?thesis
    using assms
    by (auto simp: dhRatchetStep_def tryS_def ecdh_NewPublicKey_def consumeInjection_def
        ecdhWithRemote_def ecdh_ECDH_def receivingRootStep_def recordInjection_def Let_def kdf
        mlkem_DecapsulateTo_def mlkem_Unpack_def
        split: prod.splits sum.splits option.splits if_splits)
qed

text \<open>Entering a new key either runs the DH ratchet after a skip, or fails to skip.\<close>

lemma enterNewKey_run:
  "enterNewKey P hdr s =
     (if dhRemote s = Some (hdrDHPub hdr) then (Inr (), s)
      else if dhRemote s = None then dhRatchetStep P hdr s
      else tryS (skipMessageKeys (hdrPN hdr)) (\<lambda>_. dhRatchetStep P hdr) s)"
  by (auto simp: enterNewKey_def)

lemma enterNewKey_Inl:
  assumes wf: "wfState s" and "enterNewKey P hdr s = (Inl e, s')"
  shows "e \<in> {GoError ErrSkipTooLarge, GoError LibErrX25519Key, GoError ErrUnexpectedKEMCT,
      GoError LibErrX25519LowOrder, GoError LibErrMLKEMKey} \<or>
    e = Panics \<and> (\<exists>c sk. hdrMLKEMCiphertext hdr = Some c \<and> selfPendingKEMPriv s = Some sk \<and>
      length c \<noteq> mlkem_CiphertextSize)"
proof (cases "dhRemote s = None")
  case True
  with assms(2) show ?thesis using dhRatchet_cases [of P hdr s e s'] by (auto simp: enterNewKey_run)
next
  case False
  show ?thesis
  proof (cases "skipMessageKeys (hdrPN hdr) s = (Inl (GoError ErrSkipTooLarge), s)")
    case True
    with assms(2) False show ?thesis
      by (auto simp: enterNewKey_run tryS_step split: if_splits)
  next
    case ok: False
    then obtain t where t: "skipMessageKeys (hdrPN hdr) s = (Inr (), t)" using skip_cases [OF wf] by blast
    then have "selfPendingKEMPriv t = selfPendingKEMPriv s" using skip_frame(3) [of "hdrPN hdr" s] by simp
    moreover have "dhRatchetStep P hdr t = (Inl e, s')"
      using assms(2) False t by (auto simp: enterNewKey_run tryS_step split: if_splits)
    ultimately show ?thesis using dhRatchet_cases [of P hdr t e s'] by auto
  qed
qed

lemma receivingKey_result:
  assumes wf: "wfState s" and "receivingKey P hdr s = (r, s')"
  shows "(\<exists>mk. r = Inr mk \<and> length mk = 32) \<or> r = Inl (GoError ErrSkipTooLarge) \<or>
    (\<exists>e. r = Inl e \<and> enterNewKey P hdr s = (Inl e, s'))"
proof (cases "fst (enterNewKey P hdr s)")
  case (Inl e)
  then show ?thesis
    using assms(2) by (cases "enterNewKey P hdr s") (auto simp: receivingKey_def tryS_step)
next
  case (Inr u)
  then obtain t where t: "enterNewKey P hdr s = (Inr (), t)" by (cases "enterNewKey P hdr s") auto
  have "wfState t" using obeysD(1) [OF obeys_enterNewKey wf, of P hdr] t by simp
  from skip_cases [OF this, of "hdrN hdr"] show ?thesis
    using assms(2) by (auto simp: receivingKey_def tryS_step t nextRecvKey_run)
qed

lemma DecryptMessage_cases:
  "DecryptMessage P hdr ct ad s =
     (case skipped s (hdrDHPub hdr, hdrN hdr) of
        Some mk \<Rightarrow> (aeadOpen P mk ct (associatedDataWithHeader hdr ad),
          s\<lparr>skipped := (skipped s)((hdrDHPub hdr, hdrN hdr) := None)\<rparr>)
      | None \<Rightarrow> (case receivingKey P hdr s of
          (Inl e, s') \<Rightarrow> (Inl e, s')
        | (Inr mk, s') \<Rightarrow> (aeadOpen P mk ct (associatedDataWithHeader hdr ad), s')))"
  by (auto simp: DecryptMessage_def takeSkippedKey_def tryS_def
      split: option.split prod.split sum.split)

lemma dhRatchet_panics:
  assumes "length (hdrDHPub hdr) = 32" and "hdrMLKEMCiphertext hdr = Some c"
    and "selfPendingKEMPriv s = Some sk" and "length c \<noteq> mlkem_CiphertextSize"
  shows "dhRatchetStep P hdr s = (Inl Panics, s)"
  using assms
  by (simp add: dhRatchetStep_def ecdh_NewPublicKey_def consumeInjection_def mlkem_DecapsulateTo_def
      tryS_step)

lemma dhRatchet_panics_length:
  "dhRatchetStep P hdr s = (Inl Panics, s') \<Longrightarrow> length (hdrDHPub hdr) = 32"
  by (auto simp: dhRatchetStep_def tryS_def ecdh_NewPublicKey_def split: if_splits)

lemma enterNewKey_panics:
  assumes wf: "wfState s"
  shows "fst (enterNewKey P hdr s) = Inl Panics \<longleftrightarrow>
    dhRemote s \<noteq> Some (hdrDHPub hdr) \<and>
    (dhRemote s \<noteq> None \<longrightarrow> fst (skipMessageKeys (hdrPN hdr) s) = Inr ()) \<and>
    length (hdrDHPub hdr) = 32 \<and>
    (\<exists>c sk. hdrMLKEMCiphertext hdr = Some c \<and> selfPendingKEMPriv s = Some sk \<and>
       length c \<noteq> mlkem_CiphertextSize)" (is "?l \<longleftrightarrow> ?r")
proof
  assume l: ?l
  then obtain s' where e: "enterNewKey P hdr s = (Inl Panics, s')"
    by (cases "enterNewKey P hdr s") simp
  have "dhRemote s \<noteq> Some (hdrDHPub hdr)" using e by (auto simp: enterNewKey_run)
  moreover have "fst (skipMessageKeys (hdrPN hdr) s) = Inr ()" if "dhRemote s \<noteq> None"
    using that e calculation skip_cases [OF wf, of "hdrPN hdr"]
    by (auto simp: enterNewKey_run tryS_step)
  moreover from this have "length (hdrDHPub hdr) = 32"
    using e calculation dhRatchet_panics_length
    by (cases "dhRemote s"; cases "skipMessageKeys (hdrPN hdr) s")
      (auto simp: enterNewKey_run tryS_step)
  ultimately show ?r using enterNewKey_Inl [OF wf e] by auto
next
  assume r: ?r
  then obtain c sk where c: "hdrMLKEMCiphertext hdr = Some c" "selfPendingKEMPriv s = Some sk"
    "length c \<noteq> mlkem_CiphertextSize" "length (hdrDHPub hdr) = 32" by blast
  show ?l
  proof (cases "dhRemote s = None")
    case True
    then show ?thesis using dhRatchet_panics [OF c(4,1,2,3)] by (simp add: enterNewKey_run)
  next
    case False
    then obtain t where t: "skipMessageKeys (hdrPN hdr) s = (Inr (), t)"
      using r by (cases "skipMessageKeys (hdrPN hdr) s") auto
    then have "selfPendingKEMPriv t = Some sk" using skip_frame(3) [of "hdrPN hdr" s] c(2) by simp
    with False r t show ?thesis
      using dhRatchet_panics [OF c(4,1) _ c(3)] by (auto simp: enterNewKey_run tryS_step)
  qed
qed

text \<open>Keys stored by a call.\<close>

lemma card_skipOne: "finite (dom (skipped s)) \<Longrightarrow>
    finite (dom (skipped (skipOne k s))) \<and> card (dom (skipped (skipOne k s))) \<le> Suc (card (dom (skipped s)))"
  by (simp add: skipOne_def chainStep_eq card_insert_if)

lemma card_skipLoop:
  "finite (dom (skipped s)) \<Longrightarrow> finite (dom (skipped (skipLoop k u s))) \<and>
     card (dom (skipped (skipLoop k u s))) \<le> card (dom (skipped s)) + (unat u - unat (nRecv s))"
proof (induction k u s rule: skipLoop.induct)
  case (1 k u s)
  show ?case
  proof (cases "nRecv s < u")
    case True
    then have "unat u - unat (nRecv s) = Suc (unat u - unat (nRecv s + 1))"
      by (simp add: u32_suc [OF True] word_less_nat_alt)
    with True 1 card_skipOne [OF "1.prems", of k] show ?thesis
      by (subst (1 2) skipLoop.simps) simp
  qed (use "1.prems" in simp)
qed

lemma card_skip:
  "finite (dom (skipped s)) \<Longrightarrow> finite (dom (skipped (snd (skipMessageKeys u s)))) \<and>
     card (dom (skipped (snd (skipMessageKeys u s)))) \<le> card (dom (skipped s)) + 1000"
proof -
  assume fin: "finite (dom (skipped s))"
  have "unat u - unat (nRecv s) \<le> 1000" if "\<not> u < nRecv s" "\<not> u - nRecv s > MaxSkip"
  proof -
    have "unat (u - nRecv s) \<le> 1000" using that by (simp add: MaxSkip_def word_less_nat_alt)
    moreover have "unat (u - nRecv s) = unat u - unat (nRecv s)"
      using that(1) by (intro unat_sub) simp
    ultimately show ?thesis by simp
  qed
  then have "card (dom (skipped (skipLoop k u s))) \<le> card (dom (skipped s)) + 1000"
    if "\<not> u < nRecv s" "\<not> u - nRecv s > MaxSkip" for k
    using that conjunct2 [OF card_skipLoop [OF fin, of k u]] by fastforce
  with fin card_skipLoop [OF fin] show ?thesis
    by (auto simp: skipMessageKeys_def split: option.split)
qed

lemma skipped_dhRatchet: "skipped (snd (dhRatchetStep P hdr s)) = skipped s"
proof -
  have "obeys (\<lambda>t. skipped t = skipped s) (dhRatchetStep P hdr) (\<lambda>_. True)"
    unfolding dhRatchetStep_def recordInjection_def consumeInjection_def
    by (intro obeys_intros)
      (auto simp: obeys_def tryS_def receivingRootStep_def split: option.split sum.splits)
  then show ?thesis by (simp add: obeys_def)
qed

text \<open>What \<open>receivingKey\<close> does to the state, as one run of its three parts.\<close>

lemma receivingKey_state:
  "snd (receivingKey P hdr s) =
     (case enterNewKey P hdr s of
        (Inl _, t) \<Rightarrow> t
      | (Inr _, t) \<Rightarrow>
          (case skipMessageKeys (hdrN hdr) t of (Inl _, u) \<Rightarrow> u | (Inr _, u) \<Rightarrow> advanceRecv u))"
  by (simp add: receivingKey_def tryS_def nextRecvKey_run split: prod.split sum.split)

lemma card_enter:
  assumes "finite (dom (skipped s))"
  shows "finite (dom (skipped (snd (enterNewKey P hdr s)))) \<and>
    card (dom (skipped (snd (enterNewKey P hdr s)))) \<le> card (dom (skipped s)) + 1000"
proof -
  have k: "skipped (snd (tryS (skipMessageKeys (hdrPN hdr)) (\<lambda>_. dhRatchetStep P hdr) s)) =
      skipped (snd (skipMessageKeys (hdrPN hdr) s))"
    by (cases "skipMessageKeys (hdrPN hdr) s"; cases "fst (skipMessageKeys (hdrPN hdr) s)")
      (simp_all add: tryS_step skipped_dhRatchet)
  show ?thesis
    using assms card_skip [OF assms, of "hdrPN hdr"]
    by (simp add: enterNewKey_run k skipped_dhRatchet)
qed

lemma card_receiving:
  assumes "finite (dom (skipped s))"
  shows "finite (dom (skipped (snd (receivingKey P hdr s)))) \<and>
    card (dom (skipped (snd (receivingKey P hdr s)))) \<le> card (dom (skipped s)) + 2000"
proof -
  obtain r t where e: "enterNewKey P hdr s = (r, t)" by (metis prod.exhaust)
  obtain q u where k: "skipMessageKeys (hdrN hdr) t = (q, u)" by (metis prod.exhaust)
  have t: "finite (dom (skipped t))" "card (dom (skipped t)) \<le> card (dom (skipped s)) + 1000"
    using card_enter [OF assms, of P hdr] e by simp_all
  then have u: "finite (dom (skipped u))" "card (dom (skipped u)) \<le> card (dom (skipped s)) + 2000"
    using card_skip [OF t(1), of "hdrN hdr"] k by simp_all
  from t u show ?thesis by (cases r; cases q) (simp_all add: receivingKey_state e k)
qed

section \<open>Properties\<close>

text \<open>
  C19: a ratchet state stays well-formed. From \<open>InitAlice\<close> or \<open>InitBob\<close> with 32-byte keys, after
  every sequence of \<open>EncryptMessage\<close> and \<open>DecryptMessage\<close> calls with arbitrary input and outcome
  (the state is kept when a call fails), keys have their lengths, a receiving chain or an owed
  sending chain implies a known remote key, and finitely many skipped keys are held.
\<close>

theorem ratchet_state_invariant:
  assumes "InitAlice P key pub w = (Inr s, w') \<and> length pub = 32 \<or>
      InitBob key priv w = (Inr s, w') \<and> length priv = 32"
  shows "wfState (fst (fold (ratchetStep P) ops (s, w')))"
proof -
  have "wfState s" using assms wfState_InitAlice wfState_InitBob by blast
  then have "wf1 (s, w')" by simp
  then show ?thesis by (rule ratchet_calls.inv_run)
qed

lemma ratchet_state_invariant_witness:
  "\<exists>s w'. InitBob [1] (replicate 32 0) (demoWorld 0) = (Inr s, w') \<and>
     wfState (fst (fold (ratchetStep demoPrimitives) [Encrypt [1] [], Encrypt [2] []] (s, w')))"
proof -
  obtain s w' where b: "InitBob [1] (replicate 32 0) (demoWorld 0) = (Inr s, w')"
    using InitBob_total by blast
  have "wfState (fst (fold (ratchetStep demoPrimitives) [Encrypt [1] [], Encrypt [2] []] (s, w')))"
    by (rule ratchet_state_invariant [where key = "[1]" and priv = "replicate 32 0" and w = "demoWorld 0"])
      (simp add: b)
  with b show ?thesis by blast
qed

text \<open>
  C30: the errors of \<open>DecryptMessage\<close>. On a well-formed state it returns a plaintext, one of six
  errors, or panics, and it panics exactly when a header with an unknown 32-byte ratchet key, past
  the skip of the old chain, carries an ML-KEM ciphertext of the wrong length while a key of ours
  is pending: one malformed unauthenticated message crashes the receiver. The declared
  \<open>ErrDuplicateOrTooOld\<close> is never returned.
\<close>

theorem decrypt_outcomes:
  assumes "wfState s"
  shows "fst (DecryptMessage P hdr ct ad s) \<in> range Inr \<union> Inl ` {GoError LibErrAEADOpen,
      GoError ErrSkipTooLarge, GoError ErrUnexpectedKEMCT, GoError LibErrX25519Key,
      GoError LibErrX25519LowOrder, GoError LibErrMLKEMKey, Panics} \<and>
    (fst (DecryptMessage P hdr ct ad s) = Inl Panics \<longleftrightarrow>
       skipped s (hdrDHPub hdr, hdrN hdr) = None \<and> dhRemote s \<noteq> Some (hdrDHPub hdr) \<and>
       (dhRemote s \<noteq> None \<longrightarrow> fst (skipMessageKeys (hdrPN hdr) s) = Inr ()) \<and>
       length (hdrDHPub hdr) = 32 \<and>
       (\<exists>c sk. hdrMLKEMCiphertext hdr = Some c \<and> selfPendingKEMPriv s = Some sk \<and>
          length c \<noteq> mlkem_CiphertextSize))"
proof (cases "skipped s (hdrDHPub hdr, hdrN hdr)")
  case (Some mk)
  then have "length mk = 32" using assms by (auto simp: wfState_def ran_def)
  from aeadOpen_cases [OF this, of P ct "associatedDataWithHeader hdr ad"] Some show ?thesis
    by (auto simp: DecryptMessage_cases)
next
  case None
  obtain r t where r: "receivingKey P hdr s = (r, t)" by (metis prod.exhaust)
  have pan: "fst (receivingKey P hdr s) = Inl Panics \<longleftrightarrow> fst (enterNewKey P hdr s) = Inl Panics"
    using receivingKey_result [OF assms r] r
    by (cases "enterNewKey P hdr s") (auto simp: receivingKey_def tryS_step)
  show ?thesis
  proof (cases r)
    case (Inl e)
    then have "fst (DecryptMessage P hdr ct ad s) = Inl e" using None r by (simp add: DecryptMessage_cases)
    moreover have "e \<in> {GoError ErrSkipTooLarge, GoError LibErrX25519Key, GoError ErrUnexpectedKEMCT,
        GoError LibErrX25519LowOrder, GoError LibErrMLKEMKey, Panics}"
      using receivingKey_result [OF assms r] enterNewKey_Inl [OF assms] Inl by fastforce
    ultimately show ?thesis
      using pan r Inl None enterNewKey_panics [OF assms, of P hdr] by auto
  next
    case (Inr mk)
    then have "length mk = 32" using receivingKey_result [OF assms r] by auto
    from aeadOpen_cases [OF this, of P ct "associatedDataWithHeader hdr ad"]
    show ?thesis
      using pan r Inr None enterNewKey_panics [OF assms, of P hdr] by (auto simp: DecryptMessage_cases)
  qed
qed

lemma decrypt_outcomes_witness:
  "let s = demoReceiver\<lparr>selfPendingKEMPriv := Some [1]\<rparr>;
       hdr = \<lparr>hdrDHPub = replicate 32 7, hdrPN = 5, hdrN = 0, hdrMLKEMPub = None,
              hdrMLKEMCiphertext = Some [2]\<rparr>
   in wfState s \<and> fst (DecryptMessage demoPrimitives hdr [] [] s) = Inl Panics"
proof -
  let ?s = "demoReceiver\<lparr>selfPendingKEMPriv := Some [1]\<rparr>"
  let ?hdr = "\<lparr>hdrDHPub = replicate 32 7, hdrPN = 5, hdrN = 0, hdrMLKEMPub = None,
      hdrMLKEMCiphertext = Some [2]\<rparr> :: Header"
  have pub: "length (ecdh_PublicKey demoPrimitives (replicate 32 1)) = 32"
    using demo_x25519_laws by (rule length_ecdh_PublicKey)
  have wf: "wfState ?s" using pub by (simp add: wfState_def demoReceiver_def demoSender_def)
  have "ecdh_PublicKey demoPrimitives (replicate 32 1) ! 1 = 1"
    by (simp add: ecdh_PublicKey_def demoPrimitives_def byteAt_def x25519_base_def)
  then have "ecdh_PublicKey demoPrimitives (replicate 32 1) \<noteq> replicate 32 7"
    by (auto dest: arg_cong [of _ _ "\<lambda>l. l ! 1"])
  then have "fst (DecryptMessage demoPrimitives ?hdr [] [] ?s) = Inl Panics"
    using conjunct2 [OF decrypt_outcomes [OF wf, of demoPrimitives ?hdr "[]" "[]"]]
    by (simp add: demoReceiver_def demoSender_def mlkem_CiphertextSize_def skipMessageKeys_none)
  with wf show ?thesis by (simp add: Let_def)
qed

end
