(* ===== verification/RatchetLimits.thy ===== *)
theory RatchetLimits
  imports RatchetSafety
begin

text \<open>
  The edges of the ratchet: what sending needs to succeed, a stream without answers, what a call
  to \<open>DecryptMessage\<close> may store, and what an unauthenticated message does to the state.
\<close>

section \<open>Sending\<close>

lemma respondToInjection_succeeds:
  assumes "32 \<le> length (rng w)"
  shows "\<exists>hdr' ss s' w'. respondToInjection P hdr (s, w) = (Inr (hdr', ss), (s', w')) \<and>
    length (rng w) \<le> length (rng w') + 32 \<and> dhSelf s' = dhSelf s"
proof (cases "peerAdvertisedKEMPub s")
  case (Some pk)
  have "mlkem_EncapsulateTo P pk w = (Inr (mlkem_encaps P pk (take 32 (rng w))), w\<lparr>rng := drop 32 (rng w)\<rparr>)"
    using assms by (simp add: mlkem_EncapsulateTo_def readRand_run)
  then show ?thesis using Some assms
    by (cases "mlkem_encaps P pk (take 32 (rng w))")
      (simp add: respondToInjection_def tryS_step liftW_run)
qed (simp add: respondToInjection_def)

lemma initiateInjection_succeeds:
  assumes "64 \<le> length (rng w)"
  shows "\<exists>hdr' s' w'. initiateInjection P hdr (s, w) = (Inr hdr', (s', w')) \<and> dhSelf s' = dhSelf s"
proof -
  obtain pk sk w1 where "mlkem_GenerateKeyPair P None w = (Inr ((pk, sk), None), w1)"
    using assms by (cases "mlkem_keygen P (take 64 (rng w))")
      (simp add: mlkem_GenerateKeyPair_def readFrom_sys tryS_step)
  then show ?thesis by (simp add: initiateInjection_def tryS_step liftW_run)
qed

lemma startSendingChain_succeeds:
  assumes "128 \<le> length (rng w)" and "dhRemote s = Some r"
    and "ecdh_ECDH P (take 32 (rng w)) r = Inr dhOut"
  shows "\<exists>hdr' s' w'. startSendingChain P hdr (s, w) = (Inr hdr', (s', w')) \<and> dhSelf s' = take 32 (rng w)"
proof -
  let ?w1 = "w\<lparr>rng := drop 32 (rng w)\<rparr>" and ?s1 = "s\<lparr>dhSelf := take 32 (rng w)\<rparr>"
  have g: "ecdh_GenerateKey None w = (Inr (take 32 (rng w), None), ?w1)"
    using assms(1) by (simp add: ecdh_GenerateKey_def readFrom_sys)
  obtain hdr1 ss s2 w2 where resp: "respondToInjection P hdr (?s1, ?w1) = (Inr (hdr1, ss), (s2, w2))"
    and len: "length (rng ?w1) \<le> length (rng w2) + 32" and self: "dhSelf s2 = take 32 (rng w)"
    using respondToInjection_succeeds [of ?w1 P hdr ?s1] assms(1)
    by (auto simp: le_diff_conv2)
  let ?s3 = "s2\<lparr>pn := nSend s2, nSend := 0\<rparr>"
  obtain rk ck where kdf: "rootKDF (RootKey ?s3) dhOut ss = Inr (rk, ck)" by (rule rootKDF_ok)
  let ?s4 = "?s3\<lparr>RootKey := rk, chainSend := Some ck, needsNewSendingChain := False\<rparr>"
  obtain w3 where due: "injectionDue (?s4, w2) = (Inr (timeIsUp ?s4 w2), (?s4, w3))"
    using injectionDue_run by blast
  have "rng w3 = rng w2"
    using due by (auto simp: injectionDue_def tryS_step liftW_run split: if_splits)
  then have l3: "64 \<le> length (rng w3)" using len assms(1) by simp
  have root: "sendingRootStep dhOut ss ?s3 = (Inr (), ?s3\<lparr>RootKey := rk, chainSend := Some ck\<rparr>)"
    using kdf by (simp add: sendingRootStep_def)
  show ?thesis
    using initiateInjection_succeeds [OF l3, of P "hdr1\<lparr>hdrPN := nSend s2\<rparr>" ?s4] root self
    by (simp add: startSendingChain_def tryS_step liftW_run liftT_run g ecdhWithRemote_def assms(2,3)
        resp due cong: if_cong)
qed

lemma EncryptMessage_succeeds:
  assumes "needsNewSendingChain s \<Longrightarrow> 128 \<le> length (rng w) \<and>
      (\<exists>r dhOut. dhRemote s = Some r \<and> ecdh_ECDH P (take 32 (rng w)) r = Inr dhOut)"
  shows "\<exists>hdr ct s' w'. EncryptMessage P pt ad (s, w) = (Inr (hdr, ct), (s', w')) \<and>
    (needsNewSendingChain s \<longrightarrow> dhSelf s' = take 32 (rng w))"
proof (cases "needsNewSendingChain s")
  case False
  then show ?thesis using EncryptMessage_continue by blast
next
  case True
  let ?h = "\<lparr>hdrDHPub = [], hdrPN = pn s, hdrN = 0, hdrMLKEMPub = None, hdrMLKEMCiphertext = None\<rparr>"
  obtain h s1 w1 where "startSendingChain P ?h (s, w) = (Inr h, (s1, w1))" "dhSelf s1 = take 32 (rng w)"
    using startSendingChain_succeeds [of w s] assms [OF True] by metis
  then show ?thesis
    using True by (simp add: EncryptMessage_def prepareSendingChain_def tryS_step liftT_run Let_def
        nextSendKey_run aeadSeal_def)
qed

section \<open>Forged messages\<close>

lemma decrypt_state:
  "snd (DecryptMessage P hdr ct ad s) =
     (if skipped s (hdrDHPub hdr, hdrN hdr) \<noteq> None
      then s\<lparr>skipped := (skipped s)((hdrDHPub hdr, hdrN hdr) := None)\<rparr>
      else snd (receivingKey P hdr s))"
  by (auto simp: DecryptMessage_cases split: option.split prod.split sum.split)

text \<open>A header with a new ratchet key \<open>pub\<close> that skips 1000 messages of its chain.\<close>

definition floodHeader :: "bytes \<Rightarrow> Header" where
  "floodHeader pub = \<lparr>hdrDHPub = pub, hdrPN = 0, hdrN = 1000, hdrMLKEMPub = None, hdrMLKEMCiphertext = None\<rparr>"

definition flooded :: "State \<Rightarrow> bytes \<Rightarrow> State \<Rightarrow> bool" where
  "flooded s pub t \<longleftrightarrow> dhSelf t = dhSelf s \<and> dhRemote t = Some pub \<and>
     dom (skipped t) = dom (skipped s) \<union> (\<lambda>i. (pub, of_nat i)) ` {..<1000}"

lemma skipOne_frame [simp]:
  "dom (skipped (skipOne k s)) = insert (k, nRecv s) (dom (skipped s))"
  "dhSelf (skipOne k s) = dhSelf s"
  by (auto simp: skipOne_def chainStep_eq)

lemma flood_step:
  assumes "length pub = 32" and "ecdh_ECDH P (dhSelf s) pub = Inr dhOut" and "dhRemote s \<noteq> Some pub"
    and "\<forall>n. skipped s (pub, n) = None"
  shows "flooded s pub (snd (DecryptMessage P (floodHeader pub) ct ad s))"
proof -
  let ?h = "floodHeader pub"
  obtain rk ck where kdf: "rootKDF (RootKey s) dhOut [] = Inr (rk, ck)" by (rule rootKDF_ok)
  let ?e = "enterChain ?h rk ck s"
  have step: "dhRatchetStep P ?h s = (Inr (), ?e)"
    by (rule dhRatchetStep_run [where ss = "[]" and dhOut = dhOut])
      (use assms kdf in \<open>simp_all add: floodHeader_def decapsulates_def\<close>)
  have "skipMessageKeys 0 s = (Inr (), s)" if "dhRemote s \<noteq> None"
    using that by (intro skipMessageKeys_none) auto
  then have ent: "enterNewKey P ?h s = (Inr (), ?e)"
    using assms(3) step by (auto simp: enterNewKey_run tryS_step floodHeader_def)
  have e: "nRecv ?e = 0" "chainRecv ?e = Some ck" "dhRemote ?e = Some pub" "skipped ?e = skipped s"
    "dhSelf ?e = dhSelf s"
    by (simp_all add: enterChain_def floodHeader_def)
  have skip: "skipMessageKeys (nRecv ?e + of_nat 1000) ?e = (Inr (), (skipOne pub ^^ 1000) ?e)"
    by (rule skipMessageKeys_pow) (simp_all add: e)
  have "snd (DecryptMessage P ?h ct ad s) = advanceRecv ((skipOne pub ^^ 1000) ?e)"
    using assms(4) skip by (simp add: decrypt_state receivingKey_state ent e(1)) (simp add: floodHeader_def)
  moreover have "dom (skipped ((skipOne pub ^^ j) ?e)) = dom (skipped s) \<union> (\<lambda>i. (pub, of_nat i)) ` {..<j}"
    for j by (induction j) (auto simp: e skipOne_pow lessThan_Suc)
  moreover have "dhSelf ((skipOne pub ^^ j) ?e) = dhSelf s" for j
    by (induction j) (simp_all add: e)
  ultimately show ?thesis by (simp add: flooded_def skipOne_pow e)
qed

lemma flood_card:
  assumes "flooded s pub t" and "\<forall>n. skipped s (pub, n) = None" and "finite (dom (skipped s))"
  shows "finite (dom (skipped t)) \<and> card (dom (skipped t)) = card (dom (skipped s)) + 1000"
proof -
  let ?new = "(\<lambda>i. (pub, of_nat i :: u32)) ` {..<1000}"
  have "inj_on (\<lambda>i. (pub, of_nat i :: u32)) {..<1000}"
    using number_inj [of "0 :: u32"] by (intro inj_onI) auto
  then have "card ?new = 1000" by (simp add: card_image)
  moreover have "dom (skipped s) \<inter> ?new = {}" using assms(2) by auto
  ultimately show ?thesis using assms(1,3) by (simp add: flooded_def card_Un_disjoint)
qed

section \<open>Properties\<close>

text \<open>In a conversation the states of both parties stay well-formed.\<close>

interpretation conversation: guarded_machine
  "convStep (EncryptMessage P) (receivePacket P) fresh" "\<lambda>c. \<forall>p. wfState (cstate c p)" for P fresh
proof
  fix c :: "(State, world, Header \<times> bytes) conv" and ev
  assume wf: "\<forall>p. wfState (cstate c p)"
  show "\<forall>p. wfState (cstate (convStep (EncryptMessage P) (receivePacket P) fresh ev c) p)"
  proof (cases ev)
    case (Send p pt ad)
    have "wf1 (snd (EncryptMessage P pt ad (cstate c p, cworld c p)))"
      using obeysD(1) [OF obeys_Encrypt] wf by simp
    with wf show ?thesis by (auto simp: Send split: prod.splits sum.splits)
  next
    case (Deliver p)
    have "wfState (snd (receivePacket P m ad (cstate c p)))" for m ad
      using obeysD(1) [OF obeys_Decrypt] wf by (simp add: receivePacket_def)
    with wf show ?thesis by (auto simp: Deliver split: list.splits prod.splits) (metis snd_conv)
  qed
qed

text \<open>
  \<open>EncryptMessage\<close> succeeds. On the current chain it always returns a message; starting a new
  chain needs 128 bytes of entropy and an X25519 result that is not all zeros, nothing else. In
  particular the ML-KEM response and injection never fail by themselves.
\<close>

theorem encrypt_succeeds:
  assumes "needsNewSendingChain s \<longrightarrow> 128 \<le> length (rng w) \<and> dhRemote s \<noteq> None \<and>
      x25519 P (take 32 (rng w)) (the (dhRemote s)) \<noteq> replicate 32 0"
  shows "\<exists>hdr ct s' w'. EncryptMessage P pt ad (s, w) = (Inr (hdr, ct), (s', w'))"
proof -
  have "128 \<le> length (rng w) \<and> (\<exists>r dhOut. dhRemote s = Some r \<and> ecdh_ECDH P (take 32 (rng w)) r = Inr dhOut)"
    if "needsNewSendingChain s"
    using that assms by (cases "dhRemote s") (simp_all add: ecdh_ECDH_def Let_def)
  from EncryptMessage_succeeds [OF this] show ?thesis by blast
qed

lemma demo_receiver_key:
  "x25519 demoPrimitives (replicate 32 0) (ecdh_PublicKey demoPrimitives (replicate 32 1)) \<noteq> replicate 32 0"
proof -
  have "x25519 demoPrimitives (replicate 32 0) (ecdh_PublicKey demoPrimitives (replicate 32 1)) ! 0 = 10"
    by (simp add: ecdh_PublicKey_def demoPrimitives_def byteAt_def x25519_base_def)
  then show ?thesis by (auto dest: arg_cong [of _ _ "\<lambda>l. l ! 0"])
qed

lemma encrypt_succeeds_witness:
  "\<exists>hdr ct s' w'. EncryptMessage demoPrimitives [1] [] (demoReceiver, demoWorld 128) = (Inr (hdr, ct), (s', w'))"
  by (rule encrypt_succeeds) (simp add: demoReceiver_def demo_receiver_key)

text \<open>
  C21: a conversation never gets stuck. Take any state reached over in-order channels in which
  every send so far succeeded and every new chain drew a new key. Once what is in flight is
  delivered, each party holds exactly the plaintexts the other sent, and nothing is left. And
  whoever wants to send can: given 128 bytes of entropy and no all-zero X25519 result with the
  peer's ratchet key, if it is known, \<open>EncryptMessage\<close> returns a message. The ML-KEM response and
  injection never fail by themselves, and the peer's key is always known when it is needed.
\<close>

theorem conversation_never_stuck:
  assumes "lawful P" and "length bobPriv = 32"
    and "InitAlice P key (ecdh_PublicKey P bobPriv) wA = (Inr a, wA')"
    and "InitBob key bobPriv wB = (Inr b, wB')"
    and "c = fold (convStep (EncryptMessage P) (receivePacket P) (newKeyIsNew P)) events
           (startConv (case_party a b) (case_party wA' wB'))"
    and "\<not> halted c" and "length (inflight c Initiator) \<le> m" and "length (inflight c Responder) \<le> n"
    and "d = fold (convStep (EncryptMessage P) (receivePacket P) (newKeyIsNew P))
           (replicate m (Deliver Initiator) @ replicate n (Deliver Responder)) c"
    and "128 \<le> length (rng w)"
    and "\<forall>r. dhRemote (cstate d p) = Some r \<longrightarrow> x25519 P (take 32 (rng w)) r \<noteq> replicate 32 0"
  shows "got d p = map Inr (sent c (peer p)) \<and> inflight d p = [] \<and>
    (\<exists>hdr ct s' w'. EncryptMessage P pt ad (cstate d p, w) = (Inr (hdr, ct), (s', w')))"
proof -
  have "lawful P \<and> paired P (case_party a b) (\<lambda>_. []) (\<lambda>_. [])"
    using initial_paired [OF assms(1-4)] assms(1) by blast
  from ratchet.conversation_drains [OF this assms(5-9)]
  have "got d p = map Inr (sent c (peer p)) \<and> inflight d p = []" by blast
  moreover have "wfState a" "wfState b"
    using wfState_InitAlice [OF assms(3)] wfState_InitBob [OF assms(4)] assms(1,2) length_ecdh_PublicKey
    by (auto simp: lawful_def)
  then have "\<forall>q. wfState (cstate (startConv (case_party a b) (case_party wA' wB')) q)"
    by (simp add: startConv_def split: party.split)
  then have "\<forall>q. wfState (cstate c q)" unfolding assms(5) by (rule conversation.inv_run)
  then have "\<forall>q. wfState (cstate d q)" unfolding assms(9) by (rule conversation.inv_run)
  then have "needsNewSendingChain (cstate d p) \<Longrightarrow> \<exists>r. dhRemote (cstate d p) = Some r"
    by (auto simp: wfState_def)
  then have "\<exists>hdr ct s' w'. EncryptMessage P pt ad (cstate d p, w) = (Inr (hdr, ct), (s', w'))"
    using assms(10,11) by (intro encrypt_succeeds) fastforce
  ultimately show ?thesis by blast
qed

lemma conversation_never_stuck_witness:
  "\<exists>a wa b wb c d w hdr ct s' w'.
     InitAlice demoPrimitives [1] (ecdh_PublicKey demoPrimitives (replicate 32 0)) (demoWorld 32) = (Inr a, wa) \<and>
     InitBob [1] (replicate 32 0) (demoWorld 0) = (Inr b, wb) \<and>
     c = fold (convStep (EncryptMessage demoPrimitives) (receivePacket demoPrimitives) (newKeyIsNew demoPrimitives))
           [Send Initiator [7] [], Send Initiator [8] [9]] (startConv (case_party a b) (case_party wa wb)) \<and>
     d = fold (convStep (EncryptMessage demoPrimitives) (receivePacket demoPrimitives) (newKeyIsNew demoPrimitives))
           (replicate 0 (Deliver Initiator) @ replicate 2 (Deliver Responder)) c \<and>
     got d Responder = [Inr [7], Inr [8]] \<and>
     EncryptMessage demoPrimitives [5] [] (cstate d Responder, w) = (Inr (hdr, ct), (s', w'))"
proof -
  obtain a wa where a: "InitAlice demoPrimitives [1] (ecdh_PublicKey demoPrimitives (replicate 32 0))
      (demoWorld 32) = (Inr a, wa)"
    using demo_InitAlice by blast
  obtain b wb where b: "InitBob [1] (replicate 32 0) (demoWorld 0) = (Inr b, wb)"
    using InitBob_total by blast
  let ?step = "convStep (EncryptMessage demoPrimitives) (receivePacket demoPrimitives) (newKeyIsNew demoPrimitives)"
  define c where "c = fold ?step [Send Initiator [7] [], Send Initiator [8] [9]]
      (startConv (case_party a b) (case_party wa wb))"
  define d where "d = fold ?step (replicate 0 (Deliver Initiator) @ replicate 2 (Deliver Responder)) c"
  have "\<not> needsNewSendingChain a" using InitAlice_Inr [OF a] by metis
  then have run: "\<not> halted c" "length (inflight c Initiator) \<le> 0" "length (inflight c Responder) \<le> 2"
      "sent c Initiator = [[7], [8]]"
    by (simp_all add: c_def startConv_def EncryptMessage_continue newKeyIsNew_def)
  let ?r = "the (dhRemote (cstate d Responder))"
  let ?w = "(demoWorld 0)\<lparr>rng := replicate 128 (if byteAt ?r 0 = 0 then 1 else 0)\<rparr>"
  have "x25519 demoPrimitives (take 32 (rng ?w)) ?r ! 0 \<noteq> 0"
    by (simp add: demoPrimitives_def byteAt_def)
  then have key: "\<forall>r. dhRemote (cstate d Responder) = Some r \<longrightarrow>
      x25519 demoPrimitives (take 32 (rng ?w)) r \<noteq> replicate 32 0"
    by (auto dest: arg_cong [of _ _ "\<lambda>l. l ! 0"])
  have "got d Responder = map Inr (sent c (peer Responder)) \<and> inflight d Responder = [] \<and>
      (\<exists>hdr ct s' w'. EncryptMessage demoPrimitives [5] [] (cstate d Responder, ?w) = (Inr (hdr, ct), (s', w')))"
    by (rule conversation_never_stuck [OF demo_lawful _ a b c_def run(1-3) d_def _ key]) simp_all
  then have "got d Responder = [Inr [7], Inr [8]]"
    "\<exists>hdr ct s' w'. EncryptMessage demoPrimitives [5] [] (cstate d Responder, ?w) = (Inr (hdr, ct), (s', w'))"
    using run(4) by simp_all
  with a b c_def d_def show ?thesis by blast
qed

text \<open>
  A party that keeps sending without receiving never injects. However many messages it sends
  in one direction, far beyond the 50 of the documented schedule, and whatever the clock says,
  every header is without ML-KEM material and the count of messages since the last injection grows.
\<close>

theorem one_way_stream_never_injects:
  assumes "\<not> needsNewSendingChain s" and "sendAll P ms (s, w) = (Inr packets, (s', w'))"
    and "- (2 ^ 63) \<le> msgsSinceInject s" and "msgsSinceInject s + int (length ms) < 2 ^ 63"
  shows "length packets = length ms \<and>
    (\<forall>((hdr, ct), ad) \<in> set packets. hdrMLKEMPub hdr = None \<and> hdrMLKEMCiphertext hdr = None) \<and>
    msgsSinceInject s' = msgsSinceInject s + int (length ms)"
proof -
  note run = sendAll_run [OF assms(1), of P ms w]
  have "msgsSinceInject ((advanceSend ^^ j) s) = msgsSinceInject s + int j" if "j \<le> length ms" for j
    using that assms(3,4) by (induction j) (simp_all add: advanceSend_def wrap64_id)
  with run assms(2) show ?thesis by (auto simp: sealedNext_def plainHeader_def)
qed

lemma one_way_stream_never_injects_witness:
  "\<exists>packets s' w'. sendAll demoPrimitives (replicate 60 ([1], [])) (demoSender, demoWorld 0) =
      (Inr packets, (s', w')) \<and> length packets = 60 \<and> msgsSinceInject s' = 60"
proof -
  have n: "\<not> needsNewSendingChain demoSender" by (simp add: demoSender_def)
  obtain packets s' w' where p: "sendAll demoPrimitives (replicate 60 ([1], [])) (demoSender, demoWorld 0) =
      (Inr packets, (s', w'))"
    using sendAll_run [OF n] by blast
  from one_way_stream_never_injects [OF n p] p show ?thesis by (auto simp: demoSender_def)
qed

text \<open>
  C36: what \<open>DecryptMessage\<close> does to the state does not depend on whether the message is
  authentic. The state it leaves is the same for every ciphertext and all associated data, so a
  forged message that fails authentication has already ratcheted, advanced the chain, consumed
  the pending ML-KEM key or deleted a skipped key.
\<close>

theorem decrypt_state_ignores_authenticity:
  "snd (DecryptMessage P hdr ct ad s) = snd (DecryptMessage P hdr ct' ad' s)"
  by (simp add: decrypt_state)

text \<open>
  One call of \<open>DecryptMessage\<close> stores at most \<open>2 * MaxSkip\<close> skipped keys, for the rest of the
  old chain and for the new one, whatever the header says.
\<close>

theorem skip_bound:
  assumes "finite (dom (skipped s))"
  shows "card (dom (skipped (snd (DecryptMessage P hdr ct ad s)))) \<le>
    card (dom (skipped s)) + 2 * unat MaxSkip"
proof -
  have "card (dom ((skipped s)(k := None))) \<le> card (dom (skipped s))" for k
    using assms by (simp add: card_Diff1_le)
  then show ?thesis
    using card_receiving [OF assms, of P hdr]
    by (auto simp: decrypt_state MaxSkip_def intro: trans_le_add1)
qed

lemma skip_bound_witness:
  "card (dom (skipped (snd (DecryptMessage demoPrimitives (floodHeader (replicate 32 7)) [] [] demoReceiver))))
     \<le> card (dom (skipped demoReceiver)) + 2 * unat MaxSkip"
  by (rule skip_bound) (simp add: demoReceiver_def demoSender_def)

text \<open>
  C38: across calls nothing bounds the stored keys. A sequence of unauthenticated messages, each
  with an unused ratchet key and message number 1000, leaves exactly 1000 more skipped keys per
  message, without limit, whether or not any of them decrypts.
\<close>

theorem forged_keys_unbounded:
  assumes "finite (dom (skipped s))" and "distinct pubs"
    and "\<forall>pub \<in> set pubs. length pub = 32 \<and> dhRemote s \<noteq> Some pub \<and> (\<forall>n. skipped s (pub, n) = None) \<and>
      x25519 P (dhSelf s) pub \<noteq> replicate 32 0"
  shows "card (dom (skipped (fold (\<lambda>pub s. snd (DecryptMessage P (floodHeader pub) ct ad s)) pubs s))) =
    card (dom (skipped s)) + 1000 * length pubs"
  using assms
proof (induction pubs arbitrary: s)
  case (Cons pub pubs)
  let ?t = "snd (DecryptMessage P (floodHeader pub) ct ad s)"
  have "flooded s pub ?t"
    using Cons.prems(3) by (intro flood_step) (auto simp: ecdh_ECDH_def Let_def)
  then have t: "finite (dom (skipped ?t))" "card (dom (skipped ?t)) = card (dom (skipped s)) + 1000"
    "dhSelf ?t = dhSelf s" "dhRemote ?t = Some pub"
    "dom (skipped ?t) = dom (skipped s) \<union> (\<lambda>i. (pub, of_nat i)) ` {..<1000}"
    using flood_card Cons.prems(1,3) by (auto simp: flooded_def)
  have "\<forall>q \<in> set pubs. length q = 32 \<and> dhRemote ?t \<noteq> Some q \<and> (\<forall>n. skipped ?t (q, n) = None) \<and>
      x25519 P (dhSelf ?t) q \<noteq> replicate 32 0"
  proof (intro ballI)
    fix q assume q: "q \<in> set pubs"
    then have "q \<noteq> pub" using Cons.prems(2) by auto
    moreover from this have "(q, n) \<notin> dom (skipped ?t)" for n
      using Cons.prems(3) q t(5) by (auto simp: domIff)
    ultimately show "length q = 32 \<and> dhRemote ?t \<noteq> Some q \<and> (\<forall>n. skipped ?t (q, n) = None) \<and>
        x25519 P (dhSelf ?t) q \<noteq> replicate 32 0"
      using Cons.prems(3) q t(3,4) by (auto simp: domIff)
  qed
  from Cons.IH [OF t(1) _ this] Cons.prems(2) t(2) show ?case by simp
qed simp

lemma forged_keys_unbounded_witness:
  "card (dom (skipped (fold (\<lambda>pub s. snd (DecryptMessage demoPrimitives (floodHeader pub) [0] [] s))
      [replicate 32 7, replicate 32 8, replicate 32 9] demoReceiver))) = 3000"
proof -
  have n: "replicate 32 (a :: byte) = replicate 32 b \<longleftrightarrow> a = b" for a b by simp
  have x: "x25519 demoPrimitives (replicate 32 2) (replicate 32 c) = replicate 32 (2 + c)" for c
    by (rule nth_equalityI) (simp_all add: demoPrimitives_def byteAt_def)
  have "ecdh_PublicKey demoPrimitives (replicate 32 1) ! 0 = 10"
    "ecdh_PublicKey demoPrimitives (replicate 32 1) ! 1 = 1"
    by (simp_all add: ecdh_PublicKey_def demoPrimitives_def byteAt_def x25519_base_def)
  then have p: "ecdh_PublicKey demoPrimitives (replicate 32 1) \<noteq> replicate 32 c" for c
    by (auto dest: arg_cong [of _ _ "\<lambda>l. (l ! 0, l ! 1)"])
  have "card (dom (skipped (fold (\<lambda>pub s. snd (DecryptMessage demoPrimitives (floodHeader pub) [0] [] s))
      [replicate 32 7, replicate 32 8, replicate 32 9] demoReceiver))) =
    card (dom (skipped demoReceiver)) + 1000 * length [replicate 32 7, replicate 32 8, replicate 32 (9 :: byte)]"
    by (rule forged_keys_unbounded) (auto simp: demoReceiver_def demoSender_def x p n)
  then show ?thesis by (simp add: demoReceiver_def demoSender_def)
qed

text \<open>
  C37: the first chains are not bound to the session key. A responder that sends before it has
  received encrypts under \<open>HMAC\<close> of the empty key, and an initiator that has not received yet
  accepts a message encrypted under it: for every session key, anyone who knows the responder's
  public ratchet key can make the initiator accept a plaintext of their choice.
\<close>

theorem unkeyed_first_chain:
  assumes "aead_laws P" and "InitBob key priv w = (Inr b, w')"
    and "InitAlice P key pub v = (Inr a, v')"
    and "hdr = \<lparr>hdrDHPub = pub, hdrPN = n, hdrN = 0, hdrMLKEMPub = None, hdrMLKEMCiphertext = None\<rparr>"
    and "aeadSeal P (hmac_sha256 [] [1]) pt (associatedDataWithHeader hdr ad) = Inr forged"
  shows "fst (EncryptMessage P pt ad (b, u)) =
      Inr (plainHeader P b, chacha_seal P (hmac_sha256 [] [1]) zeroNonce pt
             (associatedDataWithHeader (plainHeader P b) ad)) \<and>
    fst (DecryptMessage P hdr forged ad a) = Inr pt"
proof
  have k: "messageKey None = hmac_sha256 [] [1]"
    by (simp add: messageKey_def chainStep_def hmacSum_def sliceBytes_def)
  show "fst (EncryptMessage P pt ad (b, u)) =
      Inr (plainHeader P b, chacha_seal P (hmac_sha256 [] [1]) zeroNonce pt
             (associatedDataWithHeader (plainHeader P b) ad))"
    using InitBob_Inr [OF assms(2)] EncryptMessage_continue [of b P pt ad u] by (simp add: k)
  have "dhRemote a = Some pub" "chainRecv a = None" "nRecv a = 0" "skipped a = Map.empty"
    using InitAlice_Inr [OF assms(3)] by metis+
  then show "fst (DecryptMessage P hdr forged ad a) = Inr pt"
    using aead.unseal_seal [OF assms(1,5)]
    by (subst DecryptMessage_current) (simp_all add: assms(4) k)
qed

lemma unkeyed_first_chain_witness:
  "let pub = ecdh_PublicKey demoPrimitives (replicate 32 0);
       hdr = \<lparr>hdrDHPub = pub, hdrPN = 0, hdrN = 0, hdrMLKEMPub = None, hdrMLKEMCiphertext = None\<rparr>
   in \<exists>a v' forged. InitAlice demoPrimitives [1] pub (demoWorld 32) = (Inr a, v') \<and>
     aeadSeal demoPrimitives (hmac_sha256 [] [1]) [42] (associatedDataWithHeader hdr []) = Inr forged \<and>
     fst (DecryptMessage demoPrimitives hdr forged [] a) = Inr [42]"
proof -
  let ?pub = "ecdh_PublicKey demoPrimitives (replicate 32 0)"
  let ?hdr = "\<lparr>hdrDHPub = ?pub, hdrPN = 0, hdrN = 0, hdrMLKEMPub = None, hdrMLKEMCiphertext = None\<rparr>"
  have al: "aead_laws demoPrimitives" using demo_lawful by (simp add: lawful_def)
  obtain a v' where a: "InitAlice demoPrimitives [1] ?pub (demoWorld 32) = (Inr a, v')"
    using demo_InitAlice by blast
  obtain b w' where b: "InitBob [1] (replicate 32 0) (demoWorld 0) = (Inr b, w')"
    using InitBob_total by blast
  obtain forged where f: "aeadSeal demoPrimitives (hmac_sha256 [] [1]) [42] (associatedDataWithHeader ?hdr []) = Inr forged"
    using aead.seal_total [OF length_hmac_sha256] by blast
  from unkeyed_first_chain [OF al b a refl f] a f show ?thesis by (auto simp: Let_def)
qed

end
