(* ===== verification/RatchetReorder.thy ===== *)
theory RatchetReorder
  imports RatchetLimits
begin

text \<open>
  Reordering and loss across two chains: late messages of the chain the receiver knows, mixed with
  messages of the chain the sender starts next. Whatever the order, each message is tried with
  the key of its position; this is the sender's key unless the new chain answers an ML-KEM
  injection and its first message does not come first.
\<close>

section \<open>The messages of a new chain\<close>

text \<open>Only the first header of a chain carries ML-KEM material.\<close>

definition chainHeader :: "Header \<Rightarrow> nat \<Rightarrow> Header" where
  "chainHeader h j = (if j = 0 then h
     else h\<lparr>hdrN := of_nat j, hdrMLKEMPub := None, hdrMLKEMCiphertext := None\<rparr>)"

definition chainPacket ::
  "primitives \<Rightarrow> bytes \<Rightarrow> Header \<Rightarrow> (bytes \<times> bytes) list \<Rightarrow> nat \<Rightarrow> packet" where
  "chainPacket P ck h ms j = ((chainHeader h j,
     chacha_seal P (messageKey ((nextChain ^^ j) (Some ck))) zeroNonce (fst (ms ! j))
       (associatedDataWithHeader (chainHeader h j) (snd (ms ! j)))), snd (ms ! j))"

lemma plainHeader_chain:
  assumes "newChainResult P s dhOut ss ck h x"
  shows "plainHeader P ((advanceSend ^^ i) x) = chainHeader h (Suc i)"
proof -
  have "dhSelf ((advanceSend ^^ i) x) = dhSelf x" "pn ((advanceSend ^^ i) x) = pn x"
    by (induction i) simp_all
  with assms show ?thesis
    by (cases h) (simp add: plainHeader_def chainHeader_def newChainResult_def advanceSend_pow)
qed

lemma sendAll_newChain:
  assumes laws: "mlkem_laws P" and new: "needsNewSendingChain s" and ms: "ms \<noteq> []"
    and run: "sendAll P ms (s, w) = (Inr packets, (x, w'))"
  obtains dhOut ss ck h x1 where "newChainResult P s dhOut ss ck h x1"
    and "packets = map (chainPacket P ck h ms) [0..<length ms]"
    and "x = (advanceSend ^^ (length ms - 1)) x1"
proof -
  obtain pt ad rest where m: "ms = (pt, ad) # rest" using ms by (cases ms) auto
  obtain h ct x1 w1 ps where e: "EncryptMessage P pt ad (s, w) = (Inr (h, ct), (x1, w1))"
    and r: "sendAll P rest (x1, w1) = (Inr ps, (x, w'))" and ps: "packets = ((h, ct), ad) # ps"
    using run by (auto simp: m tryS_Inr)
  obtain dhOut ss ck where n: "newChainResult P s dhOut ss ck h x1"
    and ct: "ct = chacha_seal P (messageKey (Some ck)) zeroNonce pt (associatedDataWithHeader h ad)"
    by (rule EncryptMessage_newChain [OF laws new e])
  have x1: "\<not> needsNewSendingChain x1" "chainSend x1 = nextChain (Some ck)"
    using n by (simp_all add: newChainResult_def)
  from sendAll_run [OF x1(1), of P rest w1] r
  have x: "x = (advanceSend ^^ length rest) x1" and
    "ps = map (\<lambda>i. sealedNext P ((advanceSend ^^ i) x1) (fst (rest ! i)) (snd (rest ! i))) [0..<length rest]"
    by auto
  moreover have "sealedNext P ((advanceSend ^^ i) x1) (fst (rest ! i)) (snd (rest ! i)) = chainPacket P ck h ms (Suc i)" for i
    by (simp add: sealedNext_def chainPacket_def m advanceSend_pow plainHeader_chain [OF n] x1(2) funpow_swap1)
  moreover have "((h, ct), ad) = chainPacket P ck h ms 0"
    by (simp add: chainPacket_def chainHeader_def m ct)
  ultimately have "packets = map (chainPacket P ck h ms) [0..<length ms]"
    by (simp add: ps m upt_conv_Cons map_Suc_upt [symmetric] del: upt_Suc)
  with n x m that show ?thesis by simp
qed

lemma carries_nth:
  "carries P pub ck n q pts \<Longrightarrow> i < length q \<Longrightarrow> \<exists>hdr ad. q ! i = ((hdr, chacha_seal P
     (messageKey ((nextChain ^^ i) ck)) zeroNonce (pts ! i) (associatedDataWithHeader hdr ad)), ad) \<and>
     hdrDHPub hdr = pub \<and> hdrN hdr = n + of_nat i"
proof (induction P pub ck n q pts arbitrary: i rule: carries.induct)
  case (2 P pub ck n hdr ct ad q pts)
  then show ?case
    by (cases i) (auto split: list.splits simp: funpow_swap1 add_ac)
qed simp

section \<open>What a delivery leaves alone\<close>

lemma skipLoop_others: "k' \<noteq> k \<Longrightarrow> skipped (skipLoop k u s) (k', n) = skipped s (k', n)"
  by (induction k u s rule: skipLoop.induct; subst skipLoop.simps; simp add: skipOne_def chainStep_eq)

lemma skip_others:
  "dhRemote s = Some k \<Longrightarrow> k' \<noteq> k \<Longrightarrow> skipped (snd (skipMessageKeys u s)) (k', n) = skipped s (k', n)"
  by (simp add: skipMessageKeys_def skipLoop_others)

text \<open>The keys of the party itself, and the skipped keys of other chains.\<close>

definition sameKeys :: "State \<Rightarrow> bytes \<Rightarrow> State \<Rightarrow> bool" where
  "sameKeys s pub t \<longleftrightarrow> RootKey t = RootKey s \<and> dhSelf t = dhSelf s \<and>
     selfPendingKEMPriv t = selfPendingKEMPriv s \<and>
     (\<forall>k n. k \<noteq> pub \<longrightarrow> skipped t (k, n) = skipped s (k, n))"

lemma sameKeys_trans: "sameKeys s pub t \<Longrightarrow> sameKeys t pub u \<Longrightarrow> sameKeys s pub u"
  by (simp add: sameKeys_def)

lemma sameKeys_advanceRecv [simp]: "sameKeys s pub (advanceRecv t) = sameKeys s pub t"
  by (simp add: sameKeys_def)

lemma sameKeys_skip: "dhRemote s = Some pub \<Longrightarrow> sameKeys s pub (snd (skipMessageKeys u s))"
  by (simp add: sameKeys_def skip_others)

lemma sameKeys_deliver:
  assumes "dhRemote t = Some pub" and "hdrDHPub hdr = pub"
  shows "sameKeys t pub (snd (DecryptMessage P hdr ct ad t))"
proof (cases "skipped t (hdrDHPub hdr, hdrN hdr) = None")
  case True
  obtain r u where u: "skipMessageKeys (hdrN hdr) t = (r, u)" by (metis prod.exhaust)
  then have "sameKeys t pub u" using sameKeys_skip [OF assms(1), of "hdrN hdr"] by simp
  then have "sameKeys t pub (snd (receivingKey P hdr t))"
    using assms by (cases r) (simp_all add: receivingKey_state enterNewKey_run u)
  with True show ?thesis by (simp add: decrypt_state)
qed (use assms in \<open>auto simp: decrypt_state sameKeys_def\<close>)

section \<open>Entering the new chain\<close>

text \<open>
  \<open>opensChain P y rk ck hdr\<close>: on any state with the keys of \<open>y\<close>, the header \<open>hdr\<close> makes the
  ratchet step to root key \<open>rk\<close> and chain key \<open>ck\<close>.
\<close>

definition opensChain :: "primitives \<Rightarrow> State \<Rightarrow> bytes \<Rightarrow> bytes \<Rightarrow> Header \<Rightarrow> bool" where
  "opensChain P y rk ck hdr \<longleftrightarrow> (\<forall>t. RootKey t = RootKey y \<and> dhSelf t = dhSelf y \<and>
     selfPendingKEMPriv t = selfPendingKEMPriv y \<longrightarrow>
     dhRatchetStep P hdr t = (Inr (), enterChain hdr rk ck t))"

lemma opensChainI:
  assumes "length (hdrDHPub hdr) = 32" and "ecdh_ECDH P (dhSelf y) (hdrDHPub hdr) = Inr dhOut"
    and "decapsulates P (selfPendingKEMPriv y) (hdrMLKEMCiphertext hdr) ss"
    and "rootKDF (RootKey y) dhOut ss = Inr (rk, ck)"
    and "\<forall>kp. hdrMLKEMPub hdr = Some kp \<longrightarrow> mlkem_Unpack P kp = Inr kp"
  shows "opensChain P y rk ck hdr"
  using assms by (auto simp: opensChain_def intro: dhRatchetStep_run)

text \<open>
  Before the new chain is known, and after: the keys of the \<open>L\<close> messages of the old chain that
  have not been used are then all kept. \<open>D\<close> and \<open>E\<close> are the messages delivered of either chain.
\<close>

definition beforeTurn :: "State \<Rightarrow> bytes \<Rightarrow> nat \<Rightarrow> nat set \<Rightarrow> State \<Rightarrow> bool" where
  "beforeTurn y old m D t \<longleftrightarrow> chainAt y old m D t \<and> sameKeys y old t"

definition newBase :: "State \<Rightarrow> bytes \<Rightarrow> State" where
  "newBase y ck = y\<lparr>chainRecv := Some ck, nRecv := 0\<rparr>"

lemma newBase_simps [simp]: "chainRecv (newBase y ck) = Some ck" "nRecv (newBase y ck) = 0"
  by (simp_all add: newBase_def)

definition afterTurn ::
  "State \<Rightarrow> bytes \<Rightarrow> nat \<Rightarrow> bytes \<Rightarrow> bytes \<Rightarrow> bytes \<Rightarrow> nat set \<Rightarrow> nat \<Rightarrow> nat set \<Rightarrow> State \<Rightarrow> bool" where
  "afterTurn y old L new rk ck D m E t \<longleftrightarrow> chainAt (newBase y ck) new m E t \<and> RootKey t = rk \<and>
     (\<forall>i < L. i \<notin> D \<longrightarrow> skipped t (old, nRecv y + of_nat i) =
        Some (messageKey ((nextChain ^^ i) (chainRecv y))))"

lemma beforeTurn_old:
  assumes at: "beforeTurn y old m D t" and some: "chainRecv y \<noteq> None"
    and i: "i \<notin> D" "i \<le> m + 1000" and rng: "unat (nRecv y) + m < 2 ^ 32" "unat (nRecv y) + i < 2 ^ 32"
    and hdr: "hdrDHPub hdr = old" "hdrN hdr = nRecv y + of_nat i"
  shows "\<exists>t'. DecryptMessage P hdr ct ad t = (aeadOpen P (messageKey ((nextChain ^^ i) (chainRecv y))) ct
      (associatedDataWithHeader hdr ad), t') \<and> beforeTurn y old (max m (Suc i)) (insert i D) t'"
proof -
  have c: "chainAt y old m D t" and k: "sameKeys y old t" using at by (simp_all add: beforeTurn_def)
  from chainAt_key [OF c some i rng hdr, of P ct ad] obtain t' where
    d: "DecryptMessage P hdr ct ad t = (aeadOpen P (messageKey ((nextChain ^^ i) (chainRecv y))) ct
      (associatedDataWithHeader hdr ad), t')" and c': "chainAt y old (max m (Suc i)) (insert i D) t'"
    by blast
  have "dhRemote t = Some old" using c by (simp add: chainAt_def)
  from sameKeys_deliver [OF this hdr(1), of P ct ad] d k have "sameKeys y old t'"
    by (auto intro: sameKeys_trans)
  with d c' show ?thesis by (simp add: beforeTurn_def)
qed

lemma DecryptMessage_entered:
  assumes "enterNewKey P hdr t = (Inr (), u)" and "dhRemote u = Some (hdrDHPub hdr)"
    and "skipped t (hdrDHPub hdr, hdrN hdr) = None" and "skipped u (hdrDHPub hdr, hdrN hdr) = None"
  shows "DecryptMessage P hdr ct ad t = DecryptMessage P hdr ct ad u"
  using assms by (simp add: DecryptMessage_cases receivingKey_def tryS_step enterNewKey_run)

lemma skip_to_end:
  assumes at: "chainAt y old m D t" and m: "m \<le> L" "L \<le> m + 1000" and L: "L = 0 \<or> chainRecv y \<noteq> None"
    and rng: "unat (nRecv y) + L < 2 ^ 32"
  shows "skipMessageKeys (nRecv y + of_nat L) t = (Inr (), (skipOne old ^^ (L - m)) t)"
proof -
  have t: "dhRemote t = Some old" "chainRecv t = (nextChain ^^ m) (chainRecv y)" "nRecv t = nRecv y + of_nat m"
    using at by (simp_all add: chainAt_def)
  show ?thesis
  proof (cases "L = m")
    case True
    then show ?thesis using t by (simp add: skipMessageKeys_none)
  next
    case False
    then have some: "chainRecv t \<noteq> None" using L m t(2) by (cases m) auto
    have "unat (nRecv t) = unat (nRecv y) + m" using t(3) rng m unat_plus_nat by simp
    then have r: "unat (nRecv t) + (L - m) < 2 ^ 32" using m rng by simp
    have n: "nRecv y + of_nat L = nRecv t + of_nat (L - m)" using m t(3) by (simp add: of_nat_diff)
    show ?thesis unfolding n using m by (intro skipMessageKeys_pow [OF r _ some t(1)]) simp
  qed
qed

lemma skipped_to_end:
  assumes at: "chainAt y old m D t" and m: "m \<le> L" and rng: "unat (nRecv y) + L < 2 ^ 32"
    and i: "i < L" "i \<notin> D"
  shows "skipped ((skipOne old ^^ (L - m)) t) (old, nRecv y + of_nat i) =
    Some (messageKey ((nextChain ^^ i) (chainRecv y)))"
proof -
  have t: "chainRecv t = (nextChain ^^ m) (chainRecv y)" "nRecv t = nRecv y + of_nat m"
    using at by (simp_all add: chainAt_def)
  show ?thesis
  proof (cases "i < m")
    case True
    have "nRecv y + of_nat i \<noteq> nRecv t + of_nat e" if "e < L - m" for e
    proof -
      have "unat (nRecv y) + i < 2 ^ 32" "unat (nRecv y) + (m + e) < 2 ^ 32" using that m rng i(1) by linarith+
      from number_inj [OF this] True show ?thesis by (auto simp: t(2) add.assoc)
    qed
    then have "skipped ((skipOne old ^^ (L - m)) t) (old, nRecv y + of_nat i) = skipped t (old, nRecv y + of_nat i)"
      by (intro skipOne_pow_other) auto
    also have "\<dots> = Some (messageKey ((nextChain ^^ i) (chainRecv y)))"
      using at True rng i by (simp add: chainAt_def)
    finally show ?thesis .
  next
    case False
    have n: "nRecv y + of_nat i = nRecv t + of_nat (i - m)" using False by (simp add: t(2) of_nat_diff)
    have "unat (nRecv t) + (L - m) < 2 ^ 32" using rng m by (simp add: t(2) unat_plus_nat)
    then have "skipped ((skipOne old ^^ (L - m)) t) (old, nRecv t + of_nat (i - m)) =
        Some (messageKey ((nextChain ^^ (i - m)) (chainRecv t)))"
      using False i(1) by (intro skipOne_pow_skipped) simp_all
    moreover have "(nextChain ^^ (i - m)) (chainRecv t) = (nextChain ^^ i) (chainRecv y)"
      using False by (simp add: t(1) flip: funpow_add [THEN fun_cong, unfolded o_apply])
    ultimately show ?thesis unfolding n by (simp only:)
  qed
qed

lemma beforeTurn_new:
  assumes at: "beforeTurn y old m D t" and m: "m \<le> L" "L \<le> m + 1000"
    and L: "L = 0 \<or> chainRecv y \<noteq> None" and rng: "unat (nRecv y) + L < 2 ^ 32"
    and op: "opensChain P y rk ck hdr" and hdr: "hdrDHPub hdr = new" "hdrPN hdr = nRecv y + of_nat L"
      "hdrN hdr = of_nat j"
    and j: "j \<le> 1000" and new: "new \<noteq> old" "\<forall>n. skipped y (new, n) = None"
  shows "\<exists>t'. DecryptMessage P hdr ct ad t = (aeadOpen P (messageKey ((nextChain ^^ j) (Some ck))) ct
      (associatedDataWithHeader hdr ad), t') \<and> afterTurn y old L new rk ck D (Suc j) {j} t'"
proof -
  let ?v = "(skipOne old ^^ (L - m)) t"
  let ?u = "enterChain hdr rk ck ?v"
  have c: "chainAt y old m D t" and k: "sameKeys y old t" using at by (simp_all add: beforeTurn_def)
  note skip = skip_to_end [OF c m L rng]
  have t: "dhRemote t = Some old" using c by (simp add: chainAt_def)
  have "sameKeys y old ?v" using sameKeys_trans [OF k sameKeys_skip [OF t]] skip by (metis snd_conv)
  then have u0: "RootKey ?v = RootKey y" "dhSelf ?v = dhSelf y"
    "selfPendingKEMPriv ?v = selfPendingKEMPriv y" "skipped ?v (new, n) = None"
    "skipped t (new, n) = None" for n
    using k new by (simp_all add: sameKeys_def)
  have u: "dhRemote ?u = Some new" "RootKey ?u = rk" "skipped ?u = skipped ?v" "chainRecv ?u = Some ck"
    "nRecv ?u = 0"
    by (simp_all add: enterChain_def hdr(1))
  have "enterNewKey P hdr t = (Inr (), ?u)"
    using op t new(1) skip u0(1-3)
    by (simp add: enterNewKey_run tryS_step hdr(1,2) opensChain_def)
  then have same: "DecryptMessage P hdr ct ad t = DecryptMessage P hdr ct ad ?u"
    by (rule DecryptMessage_entered) (simp_all add: u hdr(1) u0)
  have "chainAt (newBase y ck) new 0 {} ?u" by (simp add: chainAt_def u u0)
  from chainAt_key [OF this _ _ _ _ _ hdr(1), of j P ct ad] j hdr(3) obtain t' where
    d: "DecryptMessage P hdr ct ad ?u = (aeadOpen P (messageKey ((nextChain ^^ j) (Some ck))) ct
      (associatedDataWithHeader hdr ad), t')" and c': "chainAt (newBase y ck) new (Suc j) {j} t'"
    by auto
  have "sameKeys ?u new t'" using sameKeys_deliver [OF u(1) hdr(1), of P ct ad] d by simp
  then have "RootKey t' = rk" "skipped t' (old, n) = skipped ?v (old, n)" for n
    using new(1) u by (simp_all add: sameKeys_def)
  with d c' skipped_to_end [OF c m(1) rng] same show ?thesis by (simp add: afterTurn_def)
qed

lemma afterTurn_new:
  assumes at: "afterTurn y old L new rk ck D m E t" and j: "j \<notin> E" "j \<le> 1000" "m < 2 ^ 32"
    and hdr: "hdrDHPub hdr = new" "hdrN hdr = of_nat j" and new: "new \<noteq> old"
  shows "\<exists>t'. DecryptMessage P hdr ct ad t = (aeadOpen P (messageKey ((nextChain ^^ j) (Some ck))) ct
      (associatedDataWithHeader hdr ad), t') \<and> afterTurn y old L new rk ck D (max m (Suc j)) (insert j E) t'"
proof -
  have c: "chainAt (newBase y ck) new m E t" using at by (simp add: afterTurn_def)
  from chainAt_key [OF c _ j(1) _ _ _ hdr(1), of P ct ad] j hdr(2) obtain t' where
    d: "DecryptMessage P hdr ct ad t = (aeadOpen P (messageKey ((nextChain ^^ j) (Some ck))) ct
      (associatedDataWithHeader hdr ad), t')" and c': "chainAt (newBase y ck) new (max m (Suc j)) (insert j E) t'"
    by auto
  have "dhRemote t = Some new" using c by (simp add: chainAt_def)
  from sameKeys_deliver [OF this hdr(1), of P ct ad] d have "sameKeys t new t'" by simp
  with at new c' d show ?thesis by (simp add: afterTurn_def sameKeys_def)
qed

lemma afterTurn_old:
  assumes at: "afterTurn y old L new rk ck D m E t" and i: "i \<notin> D" "i < L"
    and rng: "unat (nRecv y) + L < 2 ^ 32"
    and hdr: "hdrDHPub hdr = old" "hdrN hdr = nRecv y + of_nat i" and new: "new \<noteq> old"
  shows "\<exists>t'. DecryptMessage P hdr ct ad t = (aeadOpen P (messageKey ((nextChain ^^ i) (chainRecv y))) ct
      (associatedDataWithHeader hdr ad), t') \<and> afterTurn y old L new rk ck (insert i D) m E t'"
proof -
  have "skipped t (hdrDHPub hdr, hdrN hdr) = Some (messageKey ((nextChain ^^ i) (chainRecv y)))"
    using at i hdr by (simp add: afterTurn_def)
  note d = DecryptMessage_skipped [OF this, of P ct ad]
  have "nRecv y + of_nat l \<noteq> nRecv y + of_nat i" if "l < L" "l \<noteq> i" for l
    using number_inj [of "nRecv y" l i] that i rng by auto
  then have "afterTurn y old L new rk ck (insert i D) m E
      (t\<lparr>skipped := (skipped t)((hdrDHPub hdr, hdrN hdr) := None)\<rparr>)"
    using at new hdr by (auto simp: afterTurn_def chainAt_def)
  with d show ?thesis by blast
qed

section \<open>Any order of delivery\<close>

text \<open>The key with which the receiver tries message \<open>i\<close>, counted over both chains.\<close>

definition positionKey :: "State \<Rightarrow> nat \<Rightarrow> bytes \<Rightarrow> nat \<Rightarrow> bytes" where
  "positionKey y L ck i = messageKey
     (if i < L then (nextChain ^^ i) (chainRecv y) else (nextChain ^^ (i - L)) (Some ck))"

definition openPacket :: "primitives \<Rightarrow> bytes \<Rightarrow> packet \<Rightarrow> fault + bytes" where
  "openPacket P k = (\<lambda>((hdr, ct), ad). aeadOpen P k ct (associatedDataWithHeader hdr ad))"

definition packetHeader :: "packet \<Rightarrow> Header" where
  "packetHeader pk = fst (fst pk)"

text \<open>
  What the headers of the packets must say: the old chain up to \<open>L\<close>, then the new one, whose
  first delivered message opens it.
\<close>

definition numbered :: "State \<Rightarrow> bytes \<Rightarrow> nat \<Rightarrow> bytes \<Rightarrow> (nat \<Rightarrow> packet) \<Rightarrow> nat \<Rightarrow> bool" where
  "numbered y old L new pk i \<longleftrightarrow>
     (if i < L then hdrDHPub (packetHeader (pk i)) = old \<and> hdrN (packetHeader (pk i)) = nRecv y + of_nat i
      else hdrDHPub (packetHeader (pk i)) = new \<and> hdrPN (packetHeader (pk i)) = nRecv y + of_nat L \<and>
        hdrN (packetHeader (pk i)) = of_nat (i - L) \<and> i - L \<le> 1000)"

lemma receiveAll_Cons:
  assumes "DecryptMessage P (packetHeader pk) (snd (fst pk)) (snd pk) t =
      (aeadOpen P k (snd (fst pk)) (associatedDataWithHeader (packetHeader pk) (snd pk)), t')"
    and "receiveAll P pks t' = (rs, u)"
  shows "receiveAll P (pk # pks) t = (openPacket P k pk # rs, u)"
  using assms by (cases pk) (auto simp: receivePacket_def packetHeader_def openPacket_def)

lemma receive_after:
  assumes new: "new \<noteq> old" and rng: "unat (nRecv y) + L < 2 ^ 32"
  shows "afterTurn y old L new rk ck D m E t \<Longrightarrow> m \<le> 1001 \<Longrightarrow> distinct order \<Longrightarrow>
    \<forall>i \<in> set order. numbered y old L new pk i \<and> (if i < L then i \<notin> D else i - L \<notin> E) \<Longrightarrow>
    \<exists>u. receiveAll P (map pk order) t = (map (\<lambda>i. openPacket P (positionKey y L ck i) (pk i)) order, u) \<and>
      RootKey u = rk"
proof (induction order arbitrary: D m E t)
  case Nil
  then show ?case by (simp add: afterTurn_def)
next
  case (Cons i order)
  have num: "numbered y old L new pk i" using Cons.prems(4) by simp
  show ?case
  proof (cases "i < L")
    case True
    then obtain t' where d: "DecryptMessage P (packetHeader (pk i)) (snd (fst (pk i))) (snd (pk i)) t =
        (aeadOpen P (positionKey y L ck i) (snd (fst (pk i)))
          (associatedDataWithHeader (packetHeader (pk i)) (snd (pk i))), t')"
      and at: "afterTurn y old L new rk ck (insert i D) m E t'"
      using afterTurn_old [OF Cons.prems(1) _ True rng, of "packetHeader (pk i)" P "snd (fst (pk i))" "snd (pk i)"]
        num Cons.prems(4) new
      by (auto simp: positionKey_def numbered_def)
    from Cons.IH [OF at] Cons.prems(2-4) receiveAll_Cons [OF d] show ?thesis by fastforce
  next
    case False
    then obtain t' where d: "DecryptMessage P (packetHeader (pk i)) (snd (fst (pk i))) (snd (pk i)) t =
        (aeadOpen P (positionKey y L ck i) (snd (fst (pk i)))
          (associatedDataWithHeader (packetHeader (pk i)) (snd (pk i))), t')"
      and at: "afterTurn y old L new rk ck D (max m (Suc (i - L))) (insert (i - L) E) t'"
      using afterTurn_new [OF Cons.prems(1), of "i - L" "packetHeader (pk i)" P "snd (fst (pk i))" "snd (pk i)"]
        num Cons.prems(2,4) new
      by (auto simp: positionKey_def numbered_def)
    have "j - L \<noteq> i - L" if "j \<in> set order" "\<not> j < L" for j
    proof -
      have "j \<noteq> i" using that(1) Cons.prems(3) by auto
      with that(2) False show ?thesis by linarith
    qed
    then have "\<forall>j \<in> set order. numbered y old L new pk j \<and> (if j < L then j \<notin> D else j - L \<notin> insert (i - L) E)"
      using Cons.prems(4) by auto
    moreover have "max m (Suc (i - L)) \<le> 1001" using Cons.prems(2) num False by (simp add: numbered_def)
    ultimately show ?thesis using Cons.IH [OF at] Cons.prems(3) receiveAll_Cons [OF d] by fastforce
  qed
qed

lemma receive_across:
  assumes new: "new \<noteq> old" "\<forall>n. skipped y (new, n) = None" and rng: "unat (nRecv y) + L < 2 ^ 32"
    and L: "L = 0 \<or> chainRecv y \<noteq> None" "L \<le> 1000"
  shows "beforeTurn y old m D t \<Longrightarrow> m \<le> L \<Longrightarrow> distinct order \<Longrightarrow>
    \<forall>i \<in> set order. numbered y old L new pk i \<and> i \<notin> D \<Longrightarrow>
    \<forall>i. find (\<lambda>i. L \<le> i) order = Some i \<longrightarrow> opensChain P y rk ck (packetHeader (pk i)) \<Longrightarrow>
    \<exists>u. receiveAll P (map pk order) t = (map (\<lambda>i. openPacket P (positionKey y L ck i) (pk i)) order, u) \<and>
      (find (\<lambda>i. L \<le> i) order \<noteq> None \<longrightarrow> RootKey u = rk)"
proof (induction order arbitrary: D m t)
  case (Cons i order)
  have num: "numbered y old L new pk i" "i \<notin> D" using Cons.prems(4) by simp_all
  show ?case
  proof (cases "i < L")
    case True
    then obtain t' where d: "DecryptMessage P (packetHeader (pk i)) (snd (fst (pk i))) (snd (pk i)) t =
        (aeadOpen P (positionKey y L ck i) (snd (fst (pk i)))
          (associatedDataWithHeader (packetHeader (pk i)) (snd (pk i))), t')"
      and at: "beforeTurn y old (max m (Suc i)) (insert i D) t'"
      using beforeTurn_old [OF Cons.prems(1) _ num(2), of "packetHeader (pk i)" P "snd (fst (pk i))" "snd (pk i)"]
        num L rng Cons.prems(2)
      by (auto simp: positionKey_def numbered_def)
    have "max m (Suc i) \<le> L" using True Cons.prems(2) by simp
    from Cons.IH [OF at this] Cons.prems(3-5) True receiveAll_Cons [OF d] show ?thesis by fastforce
  next
    case False
    then have "opensChain P y rk ck (packetHeader (pk i))" using Cons.prems(5) by simp
    from beforeTurn_new [OF Cons.prems(1,2) _ L(1) rng this, of new "i - L" "snd (fst (pk i))" "snd (pk i)"]
      False num L new
    obtain t' where d: "DecryptMessage P (packetHeader (pk i)) (snd (fst (pk i))) (snd (pk i)) t =
        (aeadOpen P (positionKey y L ck i) (snd (fst (pk i)))
          (associatedDataWithHeader (packetHeader (pk i)) (snd (pk i))), t')"
      and at: "afterTurn y old L new rk ck D (Suc (i - L)) {i - L} t'"
      by (auto simp: positionKey_def numbered_def)
    have "j - L \<noteq> i - L" if "j \<in> set order" "\<not> j < L" for j
    proof -
      have "j \<noteq> i" using that(1) Cons.prems(3) by auto
      with that(2) False show ?thesis by linarith
    qed
    then have "\<forall>j \<in> set order. numbered y old L new pk j \<and> (if j < L then j \<notin> D else j - L \<notin> {i - L})"
      using Cons.prems(4) by auto
    moreover have "Suc (i - L) \<le> 1001" using num False by (simp add: numbered_def)
    ultimately show ?thesis
      using receive_after [OF new(1) rng at] Cons.prems(3) receiveAll_Cons [OF d] by fastforce
  qed
qed simp

lemma receive_any_order:
  assumes "beforeTurn y old 0 {} y" and "new \<noteq> old" and "\<forall>n. skipped y (new, n) = None"
    and "unat (nRecv y) + L < 2 ^ 32" and "L = 0 \<or> chainRecv y \<noteq> None" and "L \<le> 1000"
    and "distinct order" and "\<forall>i \<in> set order. i < n" and "\<forall>i < n. numbered y old L new pk i"
    and "\<And>i. find (\<lambda>i. L \<le> i) order = Some i \<Longrightarrow> opensChain P y rk ck (packetHeader (pk i))"
  obtains u where "receiveAll P (map pk order) y =
      (map (\<lambda>i. openPacket P (positionKey y L ck i) (pk i)) order, u)"
    and "find (\<lambda>i. L \<le> i) order \<noteq> None \<longrightarrow> RootKey u = rk"
  using receive_across [OF assms(2-6,1) _ assms(7), of pk P rk ck] assms(8-10) by auto

section \<open>A turn in a conversation\<close>

text \<open>The state of a conversation over in-order channels, with what is in flight.\<close>

lemma conversation_paired:
  assumes "lawful P" and "length bobPriv = 32"
    and "InitAlice P key (ecdh_PublicKey P bobPriv) wA = (Inr a, wA')"
    and "InitBob key bobPriv wB = (Inr b, wB')"
    and c: "c = fold (convStep (EncryptMessage P) (receivePacket P) (newKeyIsNew P)) events
           (startConv (case_party a b) ws)"
    and "\<not> halted c"
  obtains pts where "paired P (cstate c) (inflight c) pts"
    and "\<And>p. length (pts p) = length (inflight c p)"
    and "\<And>p. map Inr (sent c (peer p)) = got c p @ map Inr (pts p)"
proof -
  let ?linked = "\<lambda>st q pts. lawful P \<and> paired P st q pts"
  have "faithful ?linked (startConv (case_party a b) ws)"
    using initial_paired [OF assms(1-4)] assms(1) by (auto simp: faithful_def startConv_def)
  then have "faithful ?linked c" unfolding c by (rule ratchet.run.inv_run)
  with assms(6) that show ?thesis by (auto simp: faithful_def)
qed

text \<open>
  The sender owes a new chain and sends \<open>ms\<close> on it while \<open>q p\<close>, of the old chain, is still in
  flight to \<open>p\<close>.
\<close>

lemma turn_setup:
  assumes laws: "lawful P" and pr: "paired P st q pts" and new: "needsNewSendingChain (st (peer p))"
    and ms: "ms \<noteq> []" "length ms \<le> 1000"
    and run: "sendAll P ms (st (peer p), w) = (Inr packets, (x, w'))"
    and fresh: "newKeyIsNew P (st (peer p)) (fst (hd packets))"
  obtains dhOut ss ck h x1 where "newChainResult P (st (peer p)) dhOut ss ck h x1"
    and "packets = map (chainPacket P ck h ms) [0..<length ms]" and "RootKey x = RootKey x1"
    and "RootKey (st p) = RootKey (st (peer p))" and "ecdh_ECDH P (dhSelf (st p)) (hdrDHPub h) = Inr dhOut"
    and "hdrDHPub h \<noteq> ratchetPub P (st (peer p))" and "length (hdrDHPub h) = 32"
    and "selfPendingKEMPriv (st (peer p)) = None"
    and "advertises P (peerAdvertisedKEMPub (st (peer p))) (selfPendingKEMPriv (st p))"
    and "beforeTurn (st p) (ratchetPub P (st (peer p))) 0 {} (st p)"
    and "\<forall>n. skipped (st p) (hdrDHPub h, n) = None"
    and "carries P (ratchetPub P (st (peer p))) (chainRecv (st p)) (nRecv (st p)) (q p) (pts p)"
    and "\<forall>i < length (q p) + length ms. numbered (st p) (ratchetPub P (st (peer p))) (length (q p))
      (hdrDHPub h) ((!) (q p @ packets)) i"
proof -
  have xl: "x25519_laws P" and ml: "mlkem_laws P" using laws by (simp_all add: lawful_def)
  have wk: "wellKeyed (st p)" "wellKeyed (st (peer p))" using pr by (simp_all add: paired_def)
  have bal: "balanced P (st p) (st (peer p)) (q (peer p)) (pts (peer p)) (q p) (pts p)"
    using pr new by (cases rule: paired_cases [where p = p]) (auto simp: balanced_def ahead_def)
  note b = bal [unfolded balanced_def synced_def]
  from sendAll_newChain [OF ml new ms(1) run] obtain dhOut ss ck h x1 where
    n: "newChainResult P (st (peer p)) dhOut ss ck h x1"
    and pk: "packets = map (chainPacket P ck h ms) [0..<length ms]"
    and x: "x = (advanceSend ^^ (length ms - 1)) x1" by metis
  have root: "RootKey ((advanceSend ^^ i) x1) = RootKey x1" for i by (induction i) simp_all
  have h: "hdrDHPub h = ecdh_PublicKey P (dhSelf x1)" "hdrPN h = nSend (st (peer p))" "hdrN h = 0"
    using n by (simp_all add: newChainResult_def)
  have "ecdh_ECDH P (dhSelf (st p)) (hdrDHPub h) = Inr dhOut"
    using n b wk x25519_commutes [OF xl, of "dhSelf x1" "dhSelf (st p)"]
    by (simp add: newChainResult_def ratchetPub_def wellKeyed_def h(1))
  moreover have "hd packets = chainPacket P ck h ms 0" using ms(1) by (simp add: pk hd_map)
  then have "hdrDHPub h \<noteq> ratchetPub P (st (peer p))"
    using fresh new by (simp add: newKeyIsNew_def chainPacket_def chainHeader_def)
  moreover have "length (hdrDHPub h) = 32" using length_ecdh_PublicKey [OF xl] by (simp add: h(1))
  moreover have "beforeTurn (st p) (ratchetPub P (st (peer p))) 0 {} (st p)"
    using b wk by (auto simp: beforeTurn_def sameKeys_def wellKeyed_def intro: chainAt_start)
  moreover have "\<forall>n. skipped (st p) (hdrDHPub h, n) = None" using wk by (simp add: wellKeyed_def)
  moreover have car: "carries P (ratchetPub P (st (peer p))) (chainRecv (st p)) (nRecv (st p)) (q p) (pts p)"
    using b by simp
  moreover have "numbered (st p) (ratchetPub P (st (peer p))) (length (q p)) (hdrDHPub h) ((!) (q p @ packets)) i"
    if "i < length (q p) + length ms" for i
  proof (cases "i < length (q p)")
    case True
    with carries_nth [OF car True] show ?thesis by (auto simp: numbered_def packetHeader_def nth_append)
  next
    case False
    have "hdrDHPub (chainHeader h j) = hdrDHPub h" "hdrPN (chainHeader h j) = hdrPN h"
      "hdrN (chainHeader h j) = of_nat j" for j
      by (simp_all add: chainHeader_def h(3))
    with False that b ms(2) show ?thesis
      by (simp add: numbered_def packetHeader_def nth_append pk chainPacket_def h(2))
  qed
  ultimately show ?thesis using n pk b that x root by blast
qed

text \<open>What the two halves of a root step commit to.\<close>

definition rootCollision :: "bytes \<Rightarrow> bytes \<Rightarrow> bytes \<Rightarrow> (bytes \<times> bytes) option" where
  "rootCollision r s s' =
     (let k = hmac_sha256 r s; k' = hmac_sha256 r s';
          t = hmac_sha256 k (rootKDFInfo @ [1]); t' = hmac_sha256 k' (rootKDFInfo @ [1])
      in firstCollision (hmacPairs k (rootKDFInfo @ [1]) k' (rootKDFInfo @ [1]) @
           hmacPairs k (t @ rootKDFInfo @ [2]) k' (t' @ rootKDFInfo @ [2]) @ hmacPairs r s r s'))"

lemma rootKDF_eq: "rootKDF r d k =
    (let prk = hmac_sha256 r (d @ k); t = hmac_sha256 prk (rootKDFInfo @ [1])
     in Inr (t, hmac_sha256 prk (t @ rootKDFInfo @ [2])))"
proof -
  have "((64 :: nat) + 31) div 32 = Suc (Suc 0)" by simp
  then show ?thesis by (simp only: rootKDF_def hkdf_Key_def) (simp add: Let_def)
qed

lemma hmac_same_key:
  assumes "hmac_sha256 k m = hmac_sha256 k m'"
  shows "m = m' \<or> sha256Collision (firstCollision (hmacPairs k m k m'))"
  using assms by (auto simp: hmac_sha256_def hmacPairs_def firstCollision_Cons)

lemma rootKDF_differs:
  assumes "rootKDF r d k = Inr (rk, ck)" and "rootKDF r d k' = Inr (rk', ck')" and "k \<noteq> k'"
  shows "rk \<noteq> rk' \<and> ck \<noteq> ck' \<or> sha256Collision (rootCollision r (d @ k) (d @ k'))"
proof (rule disjCI)
  let ?p = "hmac_sha256 r (d @ k)" and ?p' = "hmac_sha256 r (d @ k')"
  have out: "rk = hmac_sha256 ?p (rootKDFInfo @ [1])" "rk' = hmac_sha256 ?p' (rootKDFInfo @ [1])"
    "ck = hmac_sha256 ?p (rk @ rootKDFInfo @ [2])" "ck' = hmac_sha256 ?p' (rk' @ rootKDFInfo @ [2])"
    using assms(1,2) by (auto simp: rootKDF_eq Let_def)
  assume no: "\<not> sha256Collision (rootCollision r (d @ k) (d @ k'))"
  then have no: "\<not> sha256Collision (firstCollision (hmacPairs ?p (rootKDFInfo @ [1]) ?p' (rootKDFInfo @ [1])))"
    "\<not> sha256Collision (firstCollision (hmacPairs ?p (rk @ rootKDFInfo @ [2]) ?p' (rk' @ rootKDFInfo @ [2])))"
    "\<not> sha256Collision (firstCollision (hmacPairs r (d @ k) r (d @ k')))"
    unfolding rootCollision_def Let_def firstCollision_append out(1,2) by blast+
  have neq: "?p \<noteq> ?p'" using hmac_same_key [of r "d @ k" "d @ k'"] no(3) assms(3) by blast
  have "rk \<noteq> rk'" using hmac_binds [of ?p _ ?p'] no(1) neq unfolding out(1,2) by fastforce
  moreover have "ck \<noteq> ck'" using hmac_binds [of ?p _ ?p'] no(2) neq unfolding out(3,4) by fastforce
  ultimately show "rk \<noteq> rk' \<and> ck \<noteq> ck'" by blast
qed

text \<open>What opens with its own key, and which headers step to which keys.\<close>

lemma openPacket_chain:
  "aead_laws P \<Longrightarrow> openPacket P (messageKey ((nextChain ^^ j) (Some ck))) (chainPacket P ck h ms j) = Inr (fst (ms ! j))"
  by (simp add: openPacket_def chainPacket_def open_sealed)

lemma openPacket_carries:
  assumes "aead_laws P" and "carries P pub ck n q pts" and "i < length q"
  shows "openPacket P (messageKey ((nextChain ^^ i) ck)) (q ! i) = Inr (pts ! i)"
  using carries_nth [OF assms(2,3)] by (auto simp: openPacket_def open_sealed [OF assms(1)])

lemma opens_later:
  assumes "length (hdrDHPub h) = 32" and "ecdh_ECDH P (dhSelf y) (hdrDHPub h) = Inr dhOut"
    and "rootKDF (RootKey y) dhOut [] = Inr (rk, ck)" and "j \<noteq> 0"
  shows "opensChain P y rk ck (chainHeader h j)"
  by (rule opensChainI [where ss = "[]" and dhOut = dhOut])
    (use assms in \<open>simp_all add: chainHeader_def decapsulates_def\<close>)

lemma answer_length:
  assumes "answers P adv ct ss" and "advertises P adv pending" and "adv \<noteq> None"
    and "\<forall>sk ct. length (mlkem_decaps P sk ct) = 32"
  shows "length ss = 32"
proof -
  obtain pk sk c where "mlkem_pair P pk sk" "\<forall>sk. mlkem_pair P pk sk \<longrightarrow> mlkem_DecapsulateTo P sk c = Inr ss"
    using assms(1-3) by (auto simp: answers_def advertises_def)
  then have "mlkem_DecapsulateTo P sk c = Inr ss" by blast
  with assms(4) show ?thesis by (auto simp: mlkem_DecapsulateTo_def split: if_splits)
qed

lemma find_Some_in: "find Q xs = Some i \<Longrightarrow> i \<in> set xs \<and> Q i"
  by (induction xs) (auto split: if_splits)

section \<open>Properties\<close>

text \<open>
  Delivery out of order across a turn. After any conversation over in-order channels, let a party
  that owes a new chain start it, with no ML-KEM injection to answer, while messages of its old
  chain are still in flight. Then any selection of the messages in flight and the new ones,
  delivered in any order, decrypts to exactly the plaintexts sent, as long as each chain has at
  most \<open>MaxSkip\<close> of them: late messages of the old chain find their keys, lost ones do no harm.
\<close>

theorem reordering_across_turn:
  assumes "lawful P" and "length bobPriv = 32"
    and "InitAlice P key (ecdh_PublicKey P bobPriv) wA = (Inr a, wA')"
    and "InitBob key bobPriv wB = (Inr b, wB')"
    and "c = fold (convStep (EncryptMessage P) (receivePacket P) (newKeyIsNew P)) events
           (startConv (case_party a b) ws)" and "\<not> halted c"
    and "needsNewSendingChain (cstate c (peer p))" and "peerAdvertisedKEMPub (cstate c (peer p)) = None"
    and "sendAll P ms (cstate c (peer p), w) = (Inr new, xw)"
    and "newKeyIsNew P (cstate c (peer p)) (fst (hd new))" and "ms \<noteq> []" and "length ms \<le> 1000"
    and "length (inflight c p) \<le> 1000" and "inflight c p = [] \<or> chainRecv (cstate c p) \<noteq> None"
    and "unat (nRecv (cstate c p)) + length (inflight c p) < 2 ^ 32"
    and "distinct order" and "\<forall>i \<in> set order. i < length (inflight c p) + length ms"
  shows "fst (receiveAll P (map ((!) (inflight c p @ new)) order) (cstate c p)) =
    map (\<lambda>i. Inr (drop (length (got c p)) (sent c (peer p) @ map fst ms) ! i)) order"
proof -
  have al: "aead_laws P" and ml: "mlkem_laws P" using assms(1) by (simp_all add: lawful_def)
  obtain pts where pr: "paired P (cstate c) (inflight c) pts" and len: "length (pts p) = length (inflight c p)"
    and log: "map Inr (sent c (peer p)) = got c p @ map Inr (pts p)"
    using conversation_paired [OF assms(1-6)] by metis
  obtain x w' where run: "sendAll P ms (cstate c (peer p), w) = (Inr new, (x, w'))"
    using assms(9) by (cases xw) simp
  let ?y = "cstate c p" and ?q = "inflight c p" and ?old = "ratchetPub P (cstate c (peer p))"
  show ?thesis
  proof (rule turn_setup [OF assms(1) pr assms(7,11,12) run assms(10)], goal_cases)
    case (1 dhOut ss ck h x1)
    note n = 1(1) [unfolded newChainResult_def]
    have ss: "ss = []" "hdrMLKEMCiphertext h = None" using n assms(8) by (simp_all add: answers_def)
    then have kdf: "rootKDF (RootKey ?y) dhOut [] = Inr (RootKey x1, ck)" using n 1(4) by simp
    have "advertises P (hdrMLKEMPub h) (selfPendingKEMPriv x1)" using n 1(8) by simp
    then have "\<forall>kp. hdrMLKEMPub h = Some kp \<longrightarrow> mlkem_Unpack P kp = Inr kp"
      using mlkem_Unpack_pair [OF ml] by (auto simp: advertises_def)
    then have "opensChain P ?y (RootKey x1) ck h"
      using ss 1(5,7) kdf by (intro opensChainI [where ss = "[]" and dhOut = dhOut]) (simp_all add: decapsulates_def)
    then have op: "opensChain P ?y (RootKey x1) ck (chainHeader h j)" for j
      using opens_later [OF 1(7,5) kdf] by (cases "j = 0") (simp_all add: chainHeader_def)
    have opn: "opensChain P ?y (RootKey x1) ck (packetHeader ((?q @ new) ! i))"
      if "find (\<lambda>i. length ?q \<le> i) order = Some i" for i
    proof -
      have "(?q @ new) ! i = chainPacket P ck h ms (i - length ?q)"
        using find_Some_in [OF that] assms(17) 1(2) by (auto simp: nth_append)
      then show ?thesis using op by (simp add: packetHeader_def chainPacket_def)
    qed
    have start: "length ?q = 0 \<or> chainRecv ?y \<noteq> None" using assms(14) by auto
    obtain u where rcv: "receiveAll P (map ((!) (?q @ new)) order) ?y =
        (map (\<lambda>i. openPacket P (positionKey ?y (length ?q) ck i) ((?q @ new) ! i)) order, u)"
      by (rule receive_any_order [OF 1(10,6,11) assms(15) start assms(13,16,17) 1(13) opn])
    have "openPacket P (positionKey ?y (length ?q) ck i) ((?q @ new) ! i) = Inr ((pts p @ map fst ms) ! i)"
      if "i \<in> set order" for i
    proof (cases "i < length ?q")
      case True
      then show ?thesis
        using openPacket_carries [OF al 1(12) True] len by (simp add: positionKey_def nth_append)
    next
      case False
      moreover have "i < length ?q + length ms" using that assms(17) by simp
      ultimately show ?thesis
        using openPacket_chain [OF al] len 1(2) by (auto simp: positionKey_def nth_append)
    qed
    moreover have "drop (length (got c p)) (sent c (peer p)) = pts p"
      using arg_cong [OF log, of "drop (length (got c p))"] by (simp add: drop_map inj_map_eq_map)
    then have "drop (length (got c p)) (sent c (peer p) @ map fst ms) = pts p @ map fst ms"
      using arg_cong [OF log, of length] by simp
    ultimately show ?case using rcv by simp
  qed
qed

text \<open>
  C8: a lost answer to an injection breaks the session. Let the new chain answer an ML-KEM injection,
  in the situation above. Only its first message carries the ML-KEM ciphertext; if any other message
  of the chain arrives first, because the first one was lost or overtaken, the receiver enters
  the chain without the shared secret \<open>ss\<close> that the ciphertext holds for it: its root step is that of
  \<open>dhOut\<close> alone, the sender's that of \<open>dhOut\<close> and \<open>ss\<close>. From then on it tries every message of the
  chain (the first one too, when it arrives) with keys of a chain other than the one under which
  they open, and its root key is not the sender's, so the session never recovers; or
  \<open>rootCollision\<close>, computed from the root key, \<open>dhOut\<close> and \<open>ss\<close>, is a SHA-256 collision.
\<close>

theorem lost_answer_desynchronises:
  assumes "lawful P" and "length bobPriv = 32"
    and "InitAlice P key (ecdh_PublicKey P bobPriv) wA = (Inr a, wA')"
    and "InitBob key bobPriv wB = (Inr b, wB')"
    and "c = fold (convStep (EncryptMessage P) (receivePacket P) (newKeyIsNew P)) events
           (startConv (case_party a b) ws)" and "\<not> halted c"
    and "needsNewSendingChain (cstate c (peer p))" and "peerAdvertisedKEMPub (cstate c (peer p)) \<noteq> None"
    and "sendAll P ms (cstate c (peer p), w) = (Inr new, (x, w'))"
    and "newKeyIsNew P (cstate c (peer p)) (fst (hd new))" and "ms \<noteq> []" and "length ms \<le> 1000"
    and "length (inflight c p) \<le> 1000" and "inflight c p = [] \<or> chainRecv (cstate c p) \<noteq> None"
    and "unat (nRecv (cstate c p)) + length (inflight c p) < 2 ^ 32"
    and "distinct order" and "\<forall>i \<in> set order. i < length (inflight c p) + length ms"
    and "find (\<lambda>i. length (inflight c p) \<le> i) order = Some j" and "j \<noteq> length (inflight c p)"
    and "\<forall>sk ct. length (mlkem_decaps P sk ct) = 32"
  shows "\<exists>kct sk ss dhOut ck ck' y.
    hdrMLKEMCiphertext (packetHeader (hd new)) = Some kct \<and> selfPendingKEMPriv (cstate c p) = Some sk \<and>
    mlkem_DecapsulateTo P sk kct = Inr ss \<and>
    ecdh_ECDH P (dhSelf (cstate c p)) (hdrDHPub (packetHeader (hd new))) = Inr dhOut \<and>
    rootKDF (RootKey (cstate c p)) dhOut ss = Inr (RootKey x, ck) \<and>
    rootKDF (RootKey (cstate c p)) dhOut [] = Inr (RootKey y, ck') \<and>
    (\<forall>i < length ms. openPacket P (messageKey ((nextChain ^^ i) (Some ck))) (new ! i) = Inr (fst (ms ! i))) \<and>
    receiveAll P (map ((!) (inflight c p @ new)) order) (cstate c p) =
      (map (\<lambda>i. openPacket P (positionKey (cstate c p) (length (inflight c p)) ck' i)
         ((inflight c p @ new) ! i)) order, y) \<and>
    (RootKey y \<noteq> RootKey x \<and> ck' \<noteq> ck \<or>
     sha256Collision (rootCollision (RootKey (cstate c p)) dhOut (dhOut @ ss)))"
proof -
  have al: "aead_laws P" using assms(1) by (simp add: lawful_def)
  obtain pts where pr: "paired P (cstate c) (inflight c) pts"
    using conversation_paired [OF assms(1-6)] by metis
  let ?y = "cstate c p" and ?q = "inflight c p"
  show ?thesis
  proof (rule turn_setup [OF assms(1) pr assms(7,11,12,9,10)], goal_cases)
    case (1 dhOut ss ck h x1)
    note n = 1(1) [unfolded newChainResult_def]
    have ans: "answers P (peerAdvertisedKEMPub (cstate c (peer p))) (hdrMLKEMCiphertext h) ss" using n by blast
    then have "length ss = 32" by (rule answer_length [OF _ 1(9) assms(8,20)])
    then have ss: "[] \<noteq> ss" by auto
    then obtain kct sk where kct: "hdrMLKEMCiphertext h = Some kct" "selfPendingKEMPriv ?y = Some sk"
      "mlkem_DecapsulateTo P sk kct = Inr ss"
      using advertises_decapsulates(1) [OF ans 1(9)] by (auto simp: decapsulates_def split: option.splits)
    have hd: "packetHeader (hd new) = chainHeader h 0"
      using assms(11) by (simp add: 1(2) hd_map packetHeader_def chainPacket_def)
    obtain rk' ck' where kdf: "rootKDF (RootKey ?y) dhOut [] = Inr (rk', ck')" by (rule rootKDF_ok)
    have start: "length ?q = 0 \<or> chainRecv ?y \<noteq> None" using assms(14) by auto
    have opn: "opensChain P ?y rk' ck' (packetHeader ((?q @ new) ! i))"
      if "find (\<lambda>i. length ?q \<le> i) order = Some i" for i
    proof -
      have i: "i = j" using that assms(18) by simp
      then have "(?q @ new) ! i = chainPacket P ck h ms (i - length ?q)"
        using find_Some_in [OF that] assms(17) 1(2) by (auto simp: nth_append)
      moreover have "i - length ?q \<noteq> 0" using find_Some_in [OF that] i assms(19) by auto
      ultimately show ?thesis
        using opens_later [OF 1(7,5) kdf] by (simp add: packetHeader_def chainPacket_def)
    qed
    obtain u where rcv: "receiveAll P (map ((!) (?q @ new)) order) ?y =
        (map (\<lambda>i. openPacket P (positionKey ?y (length ?q) ck' i) ((?q @ new) ! i)) order, u)"
      and u: "find (\<lambda>i. length ?q \<le> i) order \<noteq> None \<longrightarrow> RootKey u = rk'"
      by (rule receive_any_order [OF 1(10,6,11) assms(15) start assms(13,16,17) 1(13) opn])
    have kdf': "rootKDF (RootKey ?y) dhOut ss = Inr (RootKey x, ck)" using n 1(3,4) by simp
    have root: "RootKey u = rk'" using u assms(18) by simp
    from rootKDF_differs [OF kdf kdf' ss] root
    have "RootKey u \<noteq> RootKey x \<and> ck' \<noteq> ck \<or> sha256Collision (rootCollision (RootKey ?y) dhOut (dhOut @ ss))"
      by simp
    moreover have "\<forall>i < length ms. openPacket P (messageKey ((nextChain ^^ i) (Some ck))) (new ! i) = Inr (fst (ms ! i))"
      using openPacket_chain [OF al] 1(2) by simp
    moreover have "hdrMLKEMCiphertext (packetHeader (hd new)) = Some kct"
      "ecdh_ECDH P (dhSelf ?y) (hdrDHPub (packetHeader (hd new))) = Inr dhOut"
      using kct(1) 1(5) by (simp_all add: hd chainHeader_def)
    ultimately show ?case using rcv kct(2,3) kdf kdf' root by blast
  qed
qed

section \<open>The situation exists\<close>

lemma demo_ECDH_replicate:
  "a + b + 9 \<noteq> 0 \<Longrightarrow> \<exists>ss. ecdh_ECDH demoPrimitives (replicate 32 a) (ecdh_PublicKey demoPrimitives (replicate 32 b)) = Inr ss"
proof -
  let ?x = "x25519 demoPrimitives (replicate 32 a) (ecdh_PublicKey demoPrimitives (replicate 32 b))"
  assume "a + b + 9 \<noteq> 0"
  moreover have "?x ! 0 = a + b + 9"
    by (simp add: ecdh_PublicKey_def demoPrimitives_def byteAt_def x25519_base_def add.commute add.left_commute)
  ultimately have "?x \<noteq> replicate 32 0" by (auto dest: arg_cong [of _ _ "\<lambda>l. l ! 0"])
  then show ?thesis by (simp add: ecdh_ECDH_def Let_def)
qed

lemma demo_keys_differ:
  "ecdh_PublicKey demoPrimitives (replicate 32 0) \<noteq> ecdh_PublicKey demoPrimitives (replicate 32 1)"
proof -
  have "ecdh_PublicKey demoPrimitives (replicate 32 k) ! 0 = k + 9" for k
    by (simp add: ecdh_PublicKey_def demoPrimitives_def byteAt_def x25519_base_def)
  then show ?thesis by (auto dest: arg_cong [of _ _ "\<lambda>l. l ! 0"])
qed

text \<open>Bob's state after Alice's first message.\<close>

lemma first_delivery:
  assumes laws: "lawful P" and priv: "length bobPriv = 32"
    and a: "InitAlice P key (ecdh_PublicKey P bobPriv) wA = (Inr a, wA')"
    and b: "InitBob key bobPriv wB = (Inr b, wB')"
  shows "\<exists>r rk ck. DecryptMessage P (plainHeader P a) ct ad b = (r, advanceRecv (enterChain (plainHeader P a) rk ck b))"
proof -
  note b = InitBob_Inr [OF b]
  have xl: "x25519_laws P" using laws by (simp add: lawful_def)
  obtain dhOut where a: "length (dhSelf a) = 32" "ecdh_ECDH P (dhSelf a) (ecdh_PublicKey P bobPriv) = Inr dhOut"
    "nSend a = 0" "pn a = 0"
    using InitAlice_Inr [OF a] by metis
  obtain rk ck where kdf: "rootKDF (RootKey b) dhOut [] = Inr (rk, ck)" by (rule rootKDF_ok)
  have "ecdh_ECDH P (dhSelf b) (ecdh_PublicKey P (dhSelf a)) = Inr dhOut"
    using x25519_commutes [OF xl priv a(1)] a(2) b(2) by simp
  then have "dhRatchetStep P (plainHeader P a) b = (Inr (), enterChain (plainHeader P a) rk ck b)"
    using kdf length_ecdh_PublicKey [OF xl]
    by (intro dhRatchetStep_run [where ss = "[]" and dhOut = dhOut]) (simp_all add: plainHeader_def decapsulates_def)
  with a(3,4) b show ?thesis by (auto simp: DecryptMessage_newChain plainHeader_def)
qed

text \<open>
  A demo conversation: Alice sends, Bob receives and owes a chain. Alice's entropy was zeros, so her
  ratchet key is; Bob's key is of ones.
\<close>

abbreviation demoStep :: "event \<Rightarrow> (State, world, Header \<times> bytes) conv \<Rightarrow> (State, world, Header \<times> bytes) conv" where
  "demoStep \<equiv> convStep (EncryptMessage demoPrimitives) (receivePacket demoPrimitives) (newKeyIsNew demoPrimitives)"

lemma demo_turn:
  obtains a wA b wB where
    "InitAlice demoPrimitives [1] (ecdh_PublicKey demoPrimitives (replicate 32 1)) (demoWorld 32) = (Inr a, wA)"
    and "InitBob [1] (replicate 32 1) (demoWorld 0) = (Inr b, wB)"
    and "\<And>ws c. c = fold demoStep [Send Initiator [7] [], Deliver Responder] (startConv (case_party a b) ws) \<Longrightarrow>
      \<not> halted c \<and> inflight c = (\<lambda>_. []) \<and> cworld c = ws \<and> sent c Initiator = [[7]] \<and> sent c Responder = [] \<and>
      got c Initiator = [] \<and>
      nRecv (cstate c Initiator) = 0 \<and> needsNewSendingChain (cstate c Responder) \<and>
      peerAdvertisedKEMPub (cstate c Responder) = None \<and> selfPendingKEMPriv (cstate c Responder) = None \<and>
      dhSelf (cstate c Responder) = replicate 32 1 \<and> TimeThreshold (cstate c Responder) = 86400000000000 \<and>
      lastInject (cstate c Responder) = 0 \<and>
      dhRemote (cstate c Responder) = Some (ecdh_PublicKey demoPrimitives (replicate 32 0))"
proof -
  obtain ss where ss: "ecdh_ECDH demoPrimitives (replicate 32 0)
      (ecdh_PublicKey demoPrimitives (replicate 32 1)) = Inr ss"
    using demo_ECDH_replicate [of 0 1] by auto
  obtain rk ck where "rootKDF [1] ss [] = Inr (rk, ck)" by (rule rootKDF_ok)
  with ss obtain a wA where a: "InitAlice demoPrimitives [1] (ecdh_PublicKey demoPrimitives (replicate 32 1))
      (demoWorld 32) = (Inr a, wA)" and self: "dhSelf a = replicate 32 0"
    by (simp add: InitAlice_def newState_def ecdh_GenerateKey_def tryS_step readFrom_sys)
  obtain b wB where b: "InitBob [1] (replicate 32 1) (demoWorld 0) = (Inr b, wB)"
    using InitBob_total by blast
  then have b': "TimeThreshold b = 86400000000000" "lastInject b = 0"
    by (auto simp: InitBob_def newState_def tryS_step DefaultTimeThreshold_def demoWorld_def liftW_run timeNow_def)
  have n: "\<not> needsNewSendingChain a" "nRecv a = 0" using InitAlice_Inr [OF a] by metis+
  show ?thesis
  proof (rule that [OF a b], goal_cases)
    case (1 ws c)
    let ?ct = "chacha_seal demoPrimitives (messageKey (chainSend a)) zeroNonce [7]
      (associatedDataWithHeader (plainHeader demoPrimitives a) [])"
    obtain r rk ck where d: "DecryptMessage demoPrimitives (plainHeader demoPrimitives a) ?ct [] b =
        (r, advanceRecv (enterChain (plainHeader demoPrimitives a) rk ck b))"
      using first_delivery [OF demo_lawful _ a b, of ?ct "[]"] by auto
    show ?case
      using d n b' self InitBob_Inr [OF b]
      by (simp add: 1 startConv_def EncryptMessage_continue newKeyIsNew_def receivePacket_def fun_eq_iff)
        (simp add: advanceRecv_def enterChain_def plainHeader_def)
  qed
qed

lemma new_chain_runs:
  assumes laws: "mlkem_laws P" and new: "needsNewSendingChain s" and "128 \<le> length (rng w)"
    and "dhRemote s = Some r" and "ecdh_ECDH P (take 32 (rng w)) r = Inr d"
    and fresh: "ecdh_PublicKey P (take 32 (rng w)) \<noteq> ratchetPub P s"
  obtains hdr ct s1 w1 where "EncryptMessage P pt ad (s, w) = (Inr (hdr, ct), (s1, w1))"
    and "newKeyIsNew P s (hdr, ct)" and "\<not> needsNewSendingChain s1" and "dhSelf s1 = take 32 (rng w)"
proof -
  obtain hdr ct s1 w1 where e: "EncryptMessage P pt ad (s, w) = (Inr (hdr, ct), (s1, w1))"
    and self: "dhSelf s1 = take 32 (rng w)"
    using EncryptMessage_succeeds [of s w P pt ad] assms(2-5) by auto
  from EncryptMessage_newChain [OF laws new e] have n: "\<not> needsNewSendingChain s1"
    "hdrDHPub hdr = ecdh_PublicKey P (dhSelf s1)"
    by (metis newChainResult_def)+
  from e n self fresh that show ?thesis by (simp add: newKeyIsNew_def)
qed

lemma new_chain_sendAll:
  assumes "mlkem_laws P" and "needsNewSendingChain s" and "128 \<le> length (rng w)"
    and "dhRemote s = Some r" and "ecdh_ECDH P (take 32 (rng w)) r = Inr d"
    and "ecdh_PublicKey P (take 32 (rng w)) \<noteq> ratchetPub P s" and "ms \<noteq> []"
  obtains new x w1 where "sendAll P ms (s, w) = (Inr new, (x, w1))" and "newKeyIsNew P s (fst (hd new))"
proof -
  obtain pt ad rest where ms: "ms = (pt, ad) # rest" using assms(7) by (cases ms) auto
  obtain hdr ct s1 w1 where e: "EncryptMessage P pt ad (s, w) = (Inr (hdr, ct), (s1, w1))"
    "newKeyIsNew P s (hdr, ct)" "\<not> needsNewSendingChain s1"
    by (rule new_chain_runs [OF assms(1-6)])
  with sendAll_run [OF e(3), of P rest w1] that show ?thesis by (simp add: ms tryS_step)
qed

lemma reordering_across_turn_witness:
  "\<exists>(c :: (State, world, Header \<times> bytes) conv) new xw. \<not> halted c \<and> needsNewSendingChain (cstate c Responder) \<and>
     sendAll demoPrimitives [([1], []), ([2], [9])] (cstate c Responder, demoWorld 128) = (Inr new, xw) \<and>
     fst (receiveAll demoPrimitives (map ((!) (inflight c Initiator @ new)) [1, 0]) (cstate c Initiator)) =
       [Inr [2], Inr [1]]"
proof -
  obtain a wA b wB where i:
    "InitAlice demoPrimitives [1] (ecdh_PublicKey demoPrimitives (replicate 32 1)) (demoWorld 32) = (Inr a, wA)"
    "InitBob [1] (replicate 32 1) (demoWorld 0) = (Inr b, wB)"
    and turn: "\<And>ws c. c = fold demoStep [Send Initiator [7] [], Deliver Responder] (startConv (case_party a b) ws) \<Longrightarrow>
      \<not> halted c \<and> inflight c = (\<lambda>_. []) \<and> cworld c = ws \<and> sent c Initiator = [[7]] \<and> sent c Responder = [] \<and>
      got c Initiator = [] \<and>
      nRecv (cstate c Initiator) = 0 \<and> needsNewSendingChain (cstate c Responder) \<and>
      peerAdvertisedKEMPub (cstate c Responder) = None \<and> selfPendingKEMPriv (cstate c Responder) = None \<and>
      dhSelf (cstate c Responder) = replicate 32 1 \<and> TimeThreshold (cstate c Responder) = 86400000000000 \<and>
      lastInject (cstate c Responder) = 0 \<and>
      dhRemote (cstate c Responder) = Some (ecdh_PublicKey demoPrimitives (replicate 32 0))"
    by (rule demo_turn) blast
  define c where "c = fold demoStep [Send Initiator [7] [], Deliver Responder]
    (startConv (case_party a b) (\<lambda>_. demoWorld 0))"
  note c = turn [OF c_def]
  let ?ms = "[([1], []), ([2], [9])] :: (bytes \<times> bytes) list"
  obtain d where ss: "ecdh_ECDH demoPrimitives (take 32 (rng (demoWorld 128))) (ecdh_PublicKey demoPrimitives (replicate 32 0)) = Inr d"
    using demo_ECDH by auto
  have ml: "mlkem_laws demoPrimitives" using demo_lawful by (simp add: lawful_def)
  have fresh: "ecdh_PublicKey demoPrimitives (take 32 (rng (demoWorld 128))) \<noteq> ratchetPub demoPrimitives (cstate c Responder)"
    using c demo_keys_differ by (simp add: ratchetPub_def)
  obtain new x w1 where run: "sendAll demoPrimitives ?ms (cstate c Responder, demoWorld 128) = (Inr new, (x, w1))"
    "newKeyIsNew demoPrimitives (cstate c Responder) (fst (hd new))"
    by (rule new_chain_sendAll [OF ml _ _ _ ss fresh, of ?ms]) (use c in auto)
  have "fst (receiveAll demoPrimitives (map ((!) (inflight c Initiator @ new)) [1, 0]) (cstate c Initiator)) =
      map (\<lambda>i. Inr (drop (length (got c Initiator)) (sent c (peer Initiator) @ map fst ?ms) ! i)) [1, 0]"
    by (rule reordering_across_turn [where w = "demoWorld 128" and xw = "(x, w1)", OF demo_lawful _ i c_def])
      (use c run in simp_all)
  also have "\<dots> = [Inr [2], Inr [1]]" using c by simp
  finally show ?thesis using c run(1) by blast
qed

lemma pending_advertised:
  assumes pr: "paired P st (\<lambda>_. []) pts" and pend: "selfPendingKEMPriv (st p) = Some sk"
    and n: "\<not> needsNewSendingChain (st p)"
  shows "needsNewSendingChain (st (peer p))" and "peerAdvertisedKEMPub (st (peer p)) \<noteq> None"
    and "dhRemote (st (peer p)) = Some (ratchetPub P (st p))"
    and "dhRemote (st p) = Some (ratchetPub P (st (peer p)))"
proof -
  have no: "\<not> leads P x y [] ps" if "selfPendingKEMPriv x \<noteq> None \<or> selfPendingKEMPriv y \<noteq> None" for x y ps
    using that by (auto simp: leads_def newHead_def opens_def firstHeader_def plainHeader_def advertises_def)
  from pr have "balanced P (st p) (st (peer p)) [] (pts (peer p)) [] (pts p)"
    using no pend n by (cases rule: paired_cases [where p = p]) (auto simp: ahead_def balanced_def)
  with pend show "needsNewSendingChain (st (peer p))" "peerAdvertisedKEMPub (st (peer p)) \<noteq> None"
    "dhRemote (st (peer p)) = Some (ratchetPub P (st p))" "dhRemote (st p) = Some (ratchetPub P (st (peer p)))"
    by (auto simp: balanced_def synced_def advertises_def split: option.splits)
qed

text \<open>Bob's clock is late enough for an injection, so Alice owes him the answer.\<close>

lemma demo_injection:
  obtains a wA b wB ws c where
    "InitAlice demoPrimitives [1] (ecdh_PublicKey demoPrimitives (replicate 32 1)) (demoWorld 32) = (Inr a, wA)"
    and "InitBob [1] (replicate 32 1) (demoWorld 0) = (Inr b, wB)"
    and "c = fold demoStep [Send Initiator [7] [], Deliver Responder, Send Responder [8] [], Deliver Initiator]
      (startConv (case_party a b) ws)"
    and "\<not> halted c" and "inflight c = (\<lambda>_. [])" and "needsNewSendingChain (cstate c Initiator)"
    and "peerAdvertisedKEMPub (cstate c Initiator) \<noteq> None"
    and "dhRemote (cstate c Initiator) = Some (ecdh_PublicKey demoPrimitives (replicate 32 0))"
    and "ratchetPub demoPrimitives (cstate c Initiator) = ecdh_PublicKey demoPrimitives (replicate 32 0)"
proof -
  let ?late = "(demoWorld 128)\<lparr>clock := \<lambda>_. 10 ^ 15\<rparr>"
  have ml: "mlkem_laws demoPrimitives" using demo_lawful by (simp add: lawful_def)
  obtain d where ss: "ecdh_ECDH demoPrimitives (take 32 (rng ?late)) (ecdh_PublicKey demoPrimitives (replicate 32 0)) = Inr d"
    using demo_ECDH by auto
  show ?thesis
  proof (rule demo_turn, goal_cases)
    case (1 a wA b wB)
    let ?ws = "case_party (demoWorld 0) ?late"
    define c1 where "c1 = fold demoStep [Send Initiator [7] [], Deliver Responder] (startConv (case_party a b) ?ws)"
    note c1 = 1(3) [OF c1_def]
    have fresh: "ecdh_PublicKey demoPrimitives (take 32 (rng ?late)) \<noteq> ratchetPub demoPrimitives (cstate c1 Responder)"
      using c1 demo_keys_differ by (simp add: ratchetPub_def)
    obtain hdr ct b2 w2 where e: "EncryptMessage demoPrimitives [8] [] (cstate c1 Responder, ?late) =
        (Inr (hdr, ct), (b2, w2))" "newKeyIsNew demoPrimitives (cstate c1 Responder) (hdr, ct)"
      "dhSelf b2 = take 32 (rng ?late)"
      by (rule new_chain_runs [OF ml _ _ _ ss fresh]) (use c1 in auto)
    have new: "needsNewSendingChain (cstate c1 Responder)" using c1 by blast
    have "timeIsUp (cstate c1 Responder) ?late" using c1 by (simp add: timeIsUp_def timeSub_def)
    with EncryptMessage_newChain [OF ml new e(1)] obtain dhOut sh ck where
      n: "newChainResult demoPrimitives (cstate c1 Responder) dhOut sh ck hdr b2" and "hdrMLKEMPub hdr \<noteq> None"
      by metis
    then have b2: "selfPendingKEMPriv b2 \<noteq> None"
      "\<not> needsNewSendingChain b2" "dhRemote b2 = dhRemote (cstate c1 Responder)"
      using c1 by (auto simp: newChainResult_def advertises_def)
    define c2 where "c2 = demoStep (Send Responder [8] []) c1"
    have c2: "\<not> halted c2" "inflight c2 = (\<lambda>_. [])(Initiator := [((hdr, ct), [])])" "cstate c2 Responder = b2"
      using c1 e(1,2) by (simp_all add: c2_def)
    let ?c = "fold demoStep [Send Initiator [7] [], Deliver Responder, Send Responder [8] [], Deliver Initiator]
      (startConv (case_party a b) ?ws)"
    have del: "?c = demoStep (Deliver Initiator) c2" by (simp add: c1_def c2_def)
    obtain r a2 where "receivePacket demoPrimitives (hdr, ct) [] (cstate c2 Initiator) = (r, a2)"
      by (metis prod.exhaust)
    then have c: "\<not> halted ?c" "inflight ?c = (\<lambda>_. [])" "cstate ?c Responder = b2"
      unfolding del using c2 by (simp_all add: fun_upd_idem)
    have "length (replicate 32 (1 :: byte)) = 32" by simp
    from conversation_paired [OF demo_lawful this 1(1,2) refl c(1)] obtain pts where
      "paired demoPrimitives (cstate ?c) (\<lambda>_. []) pts"
      unfolding c(2) by metis
    note pair = pending_advertised [OF this, of Responder, unfolded c(3) peer.simps]
    obtain sk where "selfPendingKEMPriv b2 = Some sk" using b2(1) by blast
    note pend = pair [OF this b2(2)]
    have pub: "ratchetPub demoPrimitives b2 = ecdh_PublicKey demoPrimitives (replicate 32 0)"
      using e(3) by (simp add: ratchetPub_def)
    have "dhRemote b2 = Some (ecdh_PublicKey demoPrimitives (replicate 32 0))" using b2(3) c1 by metis
    then have "ratchetPub demoPrimitives (cstate ?c Initiator) = ecdh_PublicKey demoPrimitives (replicate 32 0)"
      unfolding pend(4) by (simp only: option.inject)
    with pend(1-3) [unfolded pub] show ?case by (intro that [OF 1(1,2) refl c(1,2)])
  qed
qed

lemma lost_answer_desynchronises_witness:
  "\<exists>(c :: (State, world, Header \<times> bytes) conv) new x w w' kct sk ss dhOut ck ck' y. \<not> halted c \<and> inflight c Responder = [] \<and>
     sendAll demoPrimitives [([1], []), ([2], [])] (cstate c Initiator, w) = (Inr new, (x, w')) \<and>
    hdrMLKEMCiphertext (packetHeader (hd new)) = Some kct \<and> selfPendingKEMPriv (cstate c Responder) = Some sk \<and>
    mlkem_DecapsulateTo demoPrimitives sk kct = Inr ss \<and>
    ecdh_ECDH demoPrimitives (dhSelf (cstate c Responder)) (hdrDHPub (packetHeader (hd new))) = Inr dhOut \<and>
    rootKDF (RootKey (cstate c Responder)) dhOut ss = Inr (RootKey x, ck) \<and>
    rootKDF (RootKey (cstate c Responder)) dhOut [] = Inr (RootKey y, ck') \<and>
    receiveAll demoPrimitives (map ((!) new) [1, 0]) (cstate c Responder) =
       (map (\<lambda>i. openPacket demoPrimitives (positionKey (cstate c Responder) 0 ck' i) (new ! i)) [1, 0], y) \<and>
     (RootKey y \<noteq> RootKey x \<and> ck' \<noteq> ck \<or>
      sha256Collision (rootCollision (RootKey (cstate c Responder)) dhOut (dhOut @ ss)))"
proof (rule demo_injection, goal_cases)
  case (1 a wA b wB ws c)
  let ?w = "\<lparr>rng = replicate 128 1, clock = \<lambda>_. 0, ticks = 0\<rparr>"
  let ?ms = "[([1], []), ([2], [])] :: (bytes \<times> bytes) list"
  have ml: "mlkem_laws demoPrimitives" using demo_lawful by (simp add: lawful_def)
  have take: "take 32 (rng ?w) = replicate 32 1" by simp
  obtain d where ss: "ecdh_ECDH demoPrimitives (take 32 (rng ?w)) (ecdh_PublicKey demoPrimitives (replicate 32 0)) = Inr d"
    using demo_ECDH_replicate [of 1 0] unfolding take by auto
  have fresh: "ecdh_PublicKey demoPrimitives (take 32 (rng ?w)) \<noteq> ratchetPub demoPrimitives (cstate c Initiator)"
    unfolding take 1(9) using demo_keys_differ by metis
  obtain new x w1 where run: "sendAll demoPrimitives ?ms (cstate c Initiator, ?w) = (Inr new, (x, w1))"
    "newKeyIsNew demoPrimitives (cstate c Initiator) (fst (hd new))"
    by (rule new_chain_sendAll [OF ml 1(6) _ 1(8) ss fresh, of ?ms]) auto
  have "unat (nRecv (cstate c Responder)) < 2 ^ 32" using unsigned_less [of "nRecv (cstate c Responder)"] by simp
  then have size: "unat (nRecv (cstate c Responder)) < 4294967296"
    "\<forall>sk ct. length (mlkem_decaps demoPrimitives sk ct) = 32" by (simp_all add: demoPrimitives_def)
  have "\<exists>kct sk ss dhOut ck ck' y.
    hdrMLKEMCiphertext (packetHeader (hd new)) = Some kct \<and> selfPendingKEMPriv (cstate c Responder) = Some sk \<and>
    mlkem_DecapsulateTo demoPrimitives sk kct = Inr ss \<and>
    ecdh_ECDH demoPrimitives (dhSelf (cstate c Responder)) (hdrDHPub (packetHeader (hd new))) = Inr dhOut \<and>
    rootKDF (RootKey (cstate c Responder)) dhOut ss = Inr (RootKey x, ck) \<and>
    rootKDF (RootKey (cstate c Responder)) dhOut [] = Inr (RootKey y, ck') \<and>
    (\<forall>i < length ?ms. openPacket demoPrimitives (messageKey ((nextChain ^^ i) (Some ck))) (new ! i) = Inr (fst (?ms ! i))) \<and>
    receiveAll demoPrimitives (map ((!) (inflight c Responder @ new)) [1, 0]) (cstate c Responder) =
      (map (\<lambda>i. openPacket demoPrimitives (positionKey (cstate c Responder) (length (inflight c Responder)) ck' i)
         ((inflight c Responder @ new) ! i)) [1, 0], y) \<and>
    (RootKey y \<noteq> RootKey x \<and> ck' \<noteq> ck \<or>
     sha256Collision (rootCollision (RootKey (cstate c Responder)) dhOut (dhOut @ ss)))"
    by (rule lost_answer_desynchronises [where w = ?w and w' = w1 and j = 1, OF demo_lawful _ 1(1,2,3,4)])
      (use 1(5-7) run size in \<open>simp_all del: sendAll.simps\<close>)
  then have "\<exists>kct sk ss dhOut ck ck' y.
    hdrMLKEMCiphertext (packetHeader (hd new)) = Some kct \<and> selfPendingKEMPriv (cstate c Responder) = Some sk \<and>
    mlkem_DecapsulateTo demoPrimitives sk kct = Inr ss \<and>
    ecdh_ECDH demoPrimitives (dhSelf (cstate c Responder)) (hdrDHPub (packetHeader (hd new))) = Inr dhOut \<and>
    rootKDF (RootKey (cstate c Responder)) dhOut ss = Inr (RootKey x, ck) \<and>
    rootKDF (RootKey (cstate c Responder)) dhOut [] = Inr (RootKey y, ck') \<and>
    receiveAll demoPrimitives (map ((!) new) [1, 0]) (cstate c Responder) =
      (map (\<lambda>i. openPacket demoPrimitives (positionKey (cstate c Responder) 0 ck' i) (new ! i)) [1, 0], y) \<and>
    (RootKey y \<noteq> RootKey x \<and> ck' \<noteq> ck \<or>
     sha256Collision (rootCollision (RootKey (cstate c Responder)) dhOut (dhOut @ ss)))"
    unfolding 1(5) by (simp only: append_Nil list.size) blast
  moreover have "inflight c Responder = []" by (simp add: 1(5))
  ultimately show ?case using 1(4) run(1) by blast
qed

end
