(* ===== verification/InjectionSchedule.thy ===== *)
theory InjectionSchedule
  imports RatchetReorder
begin

text \<open>
  When the ratchet injects ML-KEM (\<open>crypto/ratchet/ratchet.go\<close>: \<open>injectionDue\<close> and the counters it reads).
  The counters are related to the history of what a party really sent: how many messages since the
  last that carried an ML-KEM key, and when that one was made.
\<close>

section \<open>The history\<close>

text \<open>The headers a sequence of calls sent, each with the last reading of the clock in its call.\<close>

fun sentLog :: "primitives \<Rightarrow> ratchetOp list \<Rightarrow> State \<times> world \<Rightarrow> (Header \<times> gotime) list" where
  "sentLog P [] p = []"
| "sentLog P (Encrypt pt ad # ops) p =
     (case EncryptMessage P pt ad p of
        (Inr (hdr, _), (_, w)) \<Rightarrow> [(hdr, lastReading w)]
      | (Inl _, _) \<Rightarrow> []) @ sentLog P ops (ratchetStep P (Encrypt pt ad) p)"
| "sentLog P (Decrypt hdr ct ad # ops) p = sentLog P ops (ratchetStep P (Decrypt hdr ct ad) p)"

text \<open>
  How many messages were sent since the last injection, the injecting one included, and the time
  of that injection; from the start and its time as long as there was none.
\<close>

fun sinceInjection :: "nat \<times> gotime \<Rightarrow> (Header \<times> gotime) list \<Rightarrow> nat \<times> gotime" where
  "sinceInjection (n, t) [] = (n, t)"
| "sinceInjection (n, t) ((hdr, now) # log) =
     sinceInjection (if hdrMLKEMPub hdr \<noteq> None then (1, now) else (Suc n, t)) log"

lemma sinceInjection_append: "sinceInjection p (xs @ ys) = sinceInjection (sinceInjection p xs) ys"
  by (induction p xs rule: sinceInjection.induct) simp_all

section \<open>The counters\<close>

definition counters :: "State \<Rightarrow> int \<times> gotime \<times> int \<times> int" where
  "counters s = (msgsSinceInject s, lastInject s, MessageThreshold s, TimeThreshold s)"

definition quiet :: "(State \<times> 'w, 'a) action \<Rightarrow> bool" where
  "quiet m \<longleftrightarrow> (\<forall>p. counters (fst (snd (m p))) = counters (fst p))"

definition quietOnFail :: "(State \<times> 'w, 'a) action \<Rightarrow> bool" where
  "quietOnFail m \<longleftrightarrow> (\<forall>p e q. m p = (Inl e, q) \<longrightarrow> counters (fst q) = counters (fst p))"

named_theorems quiet_intros \<open>operations that leave the counters alone\<close>

lemma quiet_onFail: "quiet m \<Longrightarrow> quietOnFail m"
  unfolding quiet_def quietOnFail_def by (metis snd_conv)

lemma quiet_tryS [quiet_intros]: "quiet m \<Longrightarrow> (\<And>x. quiet (f x)) \<Longrightarrow> quiet (tryS m f)"
  by (auto simp: quiet_def tryS_def split: prod.split sum.split) (metis fst_conv snd_conv)+

lemma quietOnFail_tryS [quiet_intros]: "quiet m \<Longrightarrow> (\<And>x. quietOnFail (f x)) \<Longrightarrow> quietOnFail (tryS m f)"
  by (auto simp: quiet_def quietOnFail_def tryS_def split: prod.splits sum.splits)
    (metis fst_conv snd_conv)+

lemma quiet_cases [quiet_intros]:
  "(\<And>a b. quietOnFail (g a b)) \<Longrightarrow> quietOnFail (case p of (a, b) \<Rightarrow> g a b)"
  "quietOnFail m1 \<Longrightarrow> quietOnFail m2 \<Longrightarrow> quietOnFail (if d then m1 else m2)"
  "quiet n \<Longrightarrow> (\<And>y. quiet (h y)) \<Longrightarrow> quiet (case z of None \<Rightarrow> n | Some y \<Rightarrow> h y)"
  "(\<And>a b. quiet (k a b)) \<Longrightarrow> quiet (case p of (a, b) \<Rightarrow> k a b)"
  by (auto split: prod.split option.split)

text \<open>What follows the last thing that can fail does not matter.\<close>

lemma quietOnFail_total: "(\<And>p. \<exists>y q. m p = (Inr y, q)) \<Longrightarrow> quietOnFail m"
  unfolding quietOnFail_def by (metis Pair_inject sum.distinct(1))

lemma quietOnFail_then:
  assumes "quietOnFail m" and total: "\<And>x p. \<exists>y q. f x p = (Inr y, q)"
  shows "quietOnFail (tryS m f)"
  unfolding quietOnFail_def
proof (intro allI impI)
  fix p e q
  assume run: "tryS m f p = (Inl e, q)"
  obtain r p' where m: "m p = (r, p')" by (metis surj_pair)
  show "counters (fst q) = counters (fst p)"
  proof (cases r)
    case (Inl e')
    with m run have "m p = (Inl e', q)" by (simp add: tryS_def)
    with assms(1) show ?thesis unfolding quietOnFail_def by blast
  next
    case (Inr x)
    with m run total [of x p'] show ?thesis by (auto simp: tryS_def)
  qed
qed

lemma quiet_basic [quiet_intros]:
  "quiet (ret x)" "quiet (pureS r)" "quiet (liftT (asks f))" "quiet (liftW m)"
  by (auto simp: quiet_def liftT_def liftW_def asks_def split: prod.split)

lemma quiet_modify [quiet_intros]: "(\<And>s. counters (f s) = counters s) \<Longrightarrow> quiet (liftT (modify f))"
  by (auto simp: quiet_def liftT_def modify_def)

lemma quiet_respond [quiet_intros]: "quiet (respondToInjection P hdr)"
  unfolding respondToInjection_def by (intro quiet_intros) (simp add: counters_def)

lemma quiet_due [quiet_intros]: "quiet injectionDue"
  by (auto simp: quiet_def injectionDue_def tryS_def liftW_def timeNow_def)

lemma quiet_rootStep [quiet_intros]: "quiet (liftT (sendingRootStep dh ss))"
  by (auto simp: quiet_def liftT_def sendingRootStep_def counters_def split: prod.split sum.split)

lemma quietOnFail_initiate [quiet_intros]: "quietOnFail (initiateInjection P hdr)"
  unfolding initiateInjection_def
  by (intro quietOnFail_tryS quiet_cases(1) quiet_basic quietOnFail_total)
    (simp add: tryS_def liftT_def liftW_def modify_def timeNow_def ret_def split: prod.split)

lemma quietOnFail_start [quiet_intros]: "quietOnFail (startSendingChain P hdr)"
proof -
  have "quiet (liftT (\<lambda>s. (ecdhWithRemote P s, s)) :: (State \<times> world, _) action)"
    by (auto simp: quiet_def liftT_def)
  then show ?thesis
    unfolding startSendingChain_def
    by (intro quietOnFail_tryS quiet_cases(1,2) quiet_intros quiet_onFail [OF quiet_basic(1)])
      (simp_all add: counters_def)
qed

text \<open>A call of \<open>EncryptMessage\<close> that fails leaves the counters, whatever else it changed.\<close>

lemma Encrypt_fails: "quietOnFail (EncryptMessage P pt ad)"
proof -
  have "quietOnFail (prepareSendingChain P)"
    unfolding prepareSendingChain_def Let_def
    by (intro quietOnFail_tryS quietOnFail_then quiet_basic)
      (auto intro: quietOnFail_start quiet_onFail quiet_basic)
  then show ?thesis
    unfolding EncryptMessage_def Let_def
    by (rule quietOnFail_then) (auto simp: tryS_def liftT_def nextSendKey_run aeadSeal_def ret_def pureS_def)
qed

text \<open>Receiving never touches them.\<close>

lemma counters_frame [simp]:
  "counters (s\<lparr>RootKey := a\<rparr>) = counters s" "counters (s\<lparr>chainRecv := b\<rparr>) = counters s"
  "counters (s\<lparr>nRecv := c\<rparr>) = counters s" "counters (s\<lparr>dhRemote := b\<rparr>) = counters s"
  "counters (s\<lparr>skipped := d\<rparr>) = counters s" "counters (s\<lparr>selfPendingKEMPriv := b\<rparr>) = counters s"
  "counters (s\<lparr>peerAdvertisedKEMPub := b\<rparr>) = counters s" "counters (s\<lparr>needsNewSendingChain := e\<rparr>) = counters s"
  by (simp_all add: counters_def)

lemma skipLoop_counters: "counters (skipLoop k n s) = counters s"
proof (induction k n s rule: skipLoop.induct)
  case (1 k n s)
  have "counters (skipOne k s) = counters s" by (simp add: skipOne_def chainStep_def)
  with 1 show ?case by (simp add: skipLoop.simps [of k n s])
qed

lemma obeys_counters:
  "obeys (\<lambda>s. counters s = x) (skipMessageKeys n) (\<lambda>_. True)"
  "obeys (\<lambda>s. counters s = x) (consumeInjection P hdr) (\<lambda>_. True)"
  "obeys (\<lambda>s. counters s = x) (receivingRootStep dh ss) (\<lambda>_. True)"
  "obeys (\<lambda>s. counters s = x) (\<lambda>s. (ecdhWithRemote P s, s)) (\<lambda>_. True)"
  "obeys (\<lambda>s. counters s = x) nextRecvKey (\<lambda>_. True)"
  by (auto simp: obeys_def skipMessageKeys_def skipLoop_counters consumeInjection_def tryS_def
      receivingRootStep_def nextRecvKey_def chainStep_def split: option.split sum.split prod.split)

lemma obeys_receivingKey_counters: "obeys (\<lambda>s. counters s = x) (receivingKey P hdr) (\<lambda>_. True)"
  unfolding receivingKey_def enterNewKey_def dhRatchetStep_def recordInjection_def
  by (intro obeys_intros obeys_counters) simp_all

lemma Decrypt_counters: "counters (snd (DecryptMessage P hdr ct ad s)) = counters s"
proof -
  have "obeys (\<lambda>t. counters t = counters s) (tryS (receivingKey P hdr) (\<lambda>mk.
      pureS (aeadOpen P mk ct (associatedDataWithHeader hdr ad)))) (\<lambda>_. True)"
    by (intro obeys_intros obeys_receivingKey_counters) simp
  from obeysD(1) [OF this] show ?thesis
    by (auto simp: DecryptMessage_def takeSkippedKey_def split: option.split)
qed

lemma Encrypt_succeeds:
  assumes laws: "mlkem_laws P" and run: "EncryptMessage P pt ad (s, w) = (Inr (hdr, ct), (s', w'))"
  shows "hdrMLKEMPub hdr \<noteq> None \<longleftrightarrow> needsNewSendingChain s \<and> timeIsUp s w"
    and "counters s' = (if hdrMLKEMPub hdr \<noteq> None then 1 else wrap64 (msgsSinceInject s + 1),
      if hdrMLKEMPub hdr \<noteq> None then lastReading w' else lastInject s, MessageThreshold s, TimeThreshold s)"
proof -
  have "(hdrMLKEMPub hdr \<noteq> None \<longleftrightarrow> needsNewSendingChain s \<and> timeIsUp s w) \<and>
    counters s' = (if hdrMLKEMPub hdr \<noteq> None then 1 else wrap64 (msgsSinceInject s + 1),
      if hdrMLKEMPub hdr \<noteq> None then lastReading w' else lastInject s, MessageThreshold s, TimeThreshold s)"
  proof (cases "needsNewSendingChain s")
    case True
    show ?thesis
    proof (rule newChain_phases [OF laws True run], goal_cases)
      case (1 self dhOut c ss rk ck hb wc h1 s1)
      show ?case
      proof (cases "timeIsUp s w")
        case up: True
        then have "initiateInjection P hb (s\<lparr>dhSelf := self, peerAdvertisedKEMPub := None, pn := nSend s,
            nSend := 0, RootKey := rk, chainSend := Some ck, needsNewSendingChain := False\<rparr>, wc) =
          (Inr h1, (s1, w'))" using 1(8) by simp
        then show ?thesis
          by (rule initiateInjection_Inr [OF laws])
            (use up True 1(9,10) in \<open>simp add: counters_def advanceSend_def wrap64_id\<close>)
      qed (use 1(6,8-10) in \<open>auto simp: counters_def advanceSend_def\<close>)
    qed
  next
    case False
    from EncryptMessage_continue [OF False, of P pt ad w] run
    have "hdr = plainHeader P s" "s' = advanceSend s" by simp_all
    with False show ?thesis by (simp add: plainHeader_def counters_def advanceSend_def)
  qed
  then show "hdrMLKEMPub hdr \<noteq> None \<longleftrightarrow> needsNewSendingChain s \<and> timeIsUp s w"
    and "counters s' = (if hdrMLKEMPub hdr \<noteq> None then 1 else wrap64 (msgsSinceInject s + 1),
      if hdrMLKEMPub hdr \<noteq> None then lastReading w' else lastInject s, MessageThreshold s, TimeThreshold s)"
    by blast+
qed

section \<open>Counters and history agree\<close>

definition onSchedule :: "nat \<times> gotime \<Rightarrow> State \<Rightarrow> bool" where
  "onSchedule nt s \<longleftrightarrow> counters s = (int (fst nt), snd nt, 50, 24 * 60 * 60 * 10 ^ 9)"

lemma onSchedule_Init:
  assumes "InitAlice P key pub w = (Inr s, w') \<or> InitBob key priv w = (Inr s, w')"
  shows "onSchedule (0, lastReading w') s"
  using assms
  by (auto simp: InitAlice_def InitBob_def newState_def tryS_Inr timeNow_def onSchedule_def counters_def
      lastReading_def DefaultMessageThreshold_def DefaultTimeThreshold_def)

lemma onSchedule_step:
  assumes laws: "mlkem_laws P" and "onSchedule nt (fst p)" and "fst nt < 2 ^ 62"
  shows "onSchedule (sinceInjection nt (sentLog P [x] p)) (fst (ratchetStep P x p))"
proof (cases x)
  case (Encrypt pt ad)
  obtain s w where p: "p = (s, w)" by (cases p)
  obtain n t where nt: "nt = (n, t)" by (cases nt)
  show ?thesis
  proof (cases "fst (EncryptMessage P pt ad p)")
    case (Inl e)
    then obtain q where "EncryptMessage P pt ad p = (Inl e, q)" by (metis prod.collapse)
    moreover from this Encrypt_fails [of P pt ad] have "counters (fst q) = counters (fst p)"
      unfolding quietOnFail_def by blast
    ultimately show ?thesis using assms(2) by (simp add: Encrypt onSchedule_def nt)
  next
    case (Inr m)
    then obtain hdr ct s' w' where e: "EncryptMessage P pt ad (s, w) = (Inr (hdr, ct), (s', w'))"
      by (metis p prod.collapse)
    have "wrap64 (int n + 1) = int n + 1" using assms(3) by (intro wrap64_id) (auto simp: nt)
    with Encrypt_succeeds(2) [OF laws e] assms(2) show ?thesis
      by (simp add: Encrypt p e nt onSchedule_def counters_def)
  qed
next
  case (Decrypt hdr ct ad)
  have "counters (fst (snd (liftT (DecryptMessage P hdr ct ad) p))) = counters (fst p)"
    using Decrypt_counters [of P hdr ct ad "fst p"]
    by (cases p; cases "DecryptMessage P hdr ct ad (fst p)") (simp add: liftT_def)
  with assms(2) show ?thesis by (cases nt) (simp add: Decrypt onSchedule_def)
qed

lemma sinceInjection_le: "fst (sinceInjection nt (sentLog P [x] p)) \<le> Suc (fst nt)"
  by (cases nt; cases x) (auto split: prod.split sum.split)

lemma sentLog_Cons: "sentLog P (x # ops) p = sentLog P [x] p @ sentLog P ops (ratchetStep P x p)"
  by (cases x) simp_all

lemma onSchedule_run:
  "mlkem_laws P \<Longrightarrow> onSchedule nt (fst p) \<Longrightarrow> fst nt + length ops < 2 ^ 62 \<Longrightarrow>
     onSchedule (sinceInjection nt (sentLog P ops p)) (fst (fold (ratchetStep P) ops p))"
proof (induction ops arbitrary: nt p)
  case (Cons x ops)
  let ?nt = "sinceInjection nt (sentLog P [x] p)"
  have "onSchedule ?nt (fst (ratchetStep P x p))"
    using Cons.prems by (intro onSchedule_step) simp_all
  moreover have "fst ?nt + length ops < 2 ^ 62"
    using Cons.prems(3) sinceInjection_le [of nt P x p] by simp
  ultimately have "onSchedule (sinceInjection ?nt (sentLog P ops (ratchetStep P x p)))
      (fst (fold (ratchetStep P) ops (ratchetStep P x p)))"
    by (rule Cons.IH [OF Cons.prems(1)])
  then show ?case by (simp only: sentLog_Cons [of P x ops] sinceInjection_append fold.simps o_apply)
next
  case Nil
  then show ?case by (cases nt) simp
qed

section \<open>Property\<close>

text \<open>
  C32: the injection schedule. Let a party start with \<open>InitAlice\<close> or \<open>InitBob\<close> and make any calls of
  \<open>EncryptMessage\<close> and \<open>DecryptMessage\<close>, with any outcome; let \<open>n\<close> be how many messages it has sent
  since its last header with an ML-KEM key, that one included, and \<open>t\<close> the clock when it made that
  key (from the start, if there was none). The next message it sends carries a fresh ML-KEM key
  exactly when it owes a new sending chain and \<open>n\<close> is at least 50 or at least 24 hours have passed
  since \<open>t\<close>. So the schedule is that of the defaults, counted and reset as it should be, except
  that a party that owes no chain never injects (ratchet.go: \<open>injectionDue\<close>, \<open>prepareSendingChain\<close>).
\<close>

theorem injection_schedule:
  assumes "mlkem_laws P"
    and "InitAlice P key pub w0 = (Inr s0, w1) \<or> InitBob key priv w0 = (Inr s0, w1)"
    and "fold (ratchetStep P) ops (s0, w1) = (s, w)" and "length ops < 2 ^ 62"
    and "EncryptMessage P pt ad (s, w) = (Inr (hdr, ct), q)"
    and "sinceInjection (0, lastReading w1) (sentLog P ops (s0, w1)) = (n, t)"
  shows "hdrMLKEMPub hdr \<noteq> None \<longleftrightarrow> needsNewSendingChain s \<and>
    (50 \<le> n \<or> 24 * 60 * 60 * 10 ^ 9 \<le> timeSub (clock w (ticks w)) t)"
proof -
  have "onSchedule (n, t) s"
    using onSchedule_run [OF assms(1), of "(0, lastReading w1)" "(s0, w1)" ops] onSchedule_Init [OF assms(2)]
      assms(3,4,6) by simp
  then have "timeIsUp s w \<longleftrightarrow> 50 \<le> n \<or> 24 * 60 * 60 * 10 ^ 9 \<le> timeSub (clock w (ticks w)) t"
    by (auto simp: timeIsUp_def onSchedule_def counters_def)
  moreover obtain s' w' where "q = (s', w')" by (cases q)
  ultimately show ?thesis using Encrypt_succeeds(1) [OF assms(1)] assms(5) by metis
qed

definition demoLate :: world where
  "demoLate = \<lparr>rng = replicate 128 0, clock = (\<lambda>k. if k = 0 then 0 else 10 ^ 15), ticks = 0\<rparr>"

text \<open>Bob answers a first message of Alice more than 24 hours after he began.\<close>

lemma demo_late_answer:
  obtains b w1 first cipher r s hdr ct q where
    "InitBob [1] (replicate 32 1) demoLate = (Inr b, w1)" and "lastReading w1 = 0"
    and "clock w1 (ticks w1) = 10 ^ 15"
    and "DecryptMessage demoPrimitives first cipher [] b = (r, s)" and "needsNewSendingChain s"
    and "EncryptMessage demoPrimitives [8] [] (s, w1) = (Inr (hdr, ct), q)"
proof -
  have ml: "mlkem_laws demoPrimitives" using demo_lawful by (simp add: lawful_def)
  have late: "rng demoLate = replicate 128 0" "clock demoLate 0 = 0" "clock demoLate (Suc 0) = 10 ^ 15"
    "ticks demoLate = 0" by (simp_all add: demoLate_def)
  obtain a wA where a: "InitAlice demoPrimitives [1] (ecdh_PublicKey demoPrimitives (replicate 32 1))
      (demoWorld 32) = (Inr a, wA)" by (rule demo_turn)
  then have self: "dhSelf a = replicate 32 0"
    by (auto simp: InitAlice_def newState_def ecdh_GenerateKey_def tryS_Inr readFrom_sys)
  let ?w = "demoLate\<lparr>ticks := Suc 0\<rparr>"
  obtain b where b: "InitBob [1] (replicate 32 1) demoLate = (Inr b, ?w)"
    by (simp add: InitBob_def newState_def tryS_step late)
  have "length (replicate 32 (1 :: byte)) = 32" by simp
  from first_delivery [OF demo_lawful this a b] obtain r rk ck where
    d: "DecryptMessage demoPrimitives (plainHeader demoPrimitives a) [] [] b =
      (r, advanceRecv (enterChain (plainHeader demoPrimitives a) rk ck b))" by blast
  let ?s = "advanceRecv (enterChain (plainHeader demoPrimitives a) rk ck b)"
  have s: "needsNewSendingChain ?s" "dhRemote ?s = Some (ecdh_PublicKey demoPrimitives (replicate 32 0))"
    "ratchetPub demoPrimitives ?s = ecdh_PublicKey demoPrimitives (replicate 32 1)"
    using self InitBob_Inr [OF b] by (simp_all add: advanceRecv_def enterChain_def plainHeader_def ratchetPub_def)
  obtain ss where ss: "ecdh_ECDH demoPrimitives (take 32 (rng ?w)) (ecdh_PublicKey demoPrimitives (replicate 32 0)) = Inr ss"
    using demo_ECDH by (auto simp: late)
  have fresh: "ecdh_PublicKey demoPrimitives (take 32 (rng ?w)) \<noteq> ratchetPub demoPrimitives ?s"
    using demo_keys_differ unfolding s(3) by (simp add: late)
  have ent: "128 \<le> length (rng ?w)" by (simp add: late)
  obtain hdr ct s1 w2 where "EncryptMessage demoPrimitives [8] [] (?s, ?w) = (Inr (hdr, ct), (s1, w2))"
    by (rule new_chain_runs [OF ml s(1) ent s(2) ss fresh])
  with b d s(1) that [of b ?w] show ?thesis by (simp add: lastReading_def late)
qed

lemma injection_schedule_witness:
  "\<exists>b w1 first cipher s hdr ct q. InitBob [1] (replicate 32 1) demoLate = (Inr b, w1) \<and>
     fold (ratchetStep demoPrimitives) [Decrypt first cipher []] (b, w1) = (s, w1) \<and>
     EncryptMessage demoPrimitives [8] [] (s, w1) = (Inr (hdr, ct), q) \<and>
     sinceInjection (0, lastReading w1) (sentLog demoPrimitives [Decrypt first cipher []] (b, w1)) = (0, 0) \<and>
     hdrMLKEMPub hdr \<noteq> None"
proof (rule demo_late_answer, goal_cases)
  case (1 b w1 first cipher r s hdr ct q)
  have ml: "mlkem_laws demoPrimitives" using demo_lawful by (simp add: lawful_def)
  have run: "fold (ratchetStep demoPrimitives) [Decrypt first cipher []] (b, w1) = (s, w1)"
    by (simp add: liftT_def 1(4))
  have log: "sinceInjection (0, lastReading w1) (sentLog demoPrimitives [Decrypt first cipher []] (b, w1)) = (0, 0)"
    by (simp add: 1(2))
  have "hdrMLKEMPub hdr \<noteq> None \<longleftrightarrow> needsNewSendingChain s \<and>
      (50 \<le> (0 :: nat) \<or> 24 * 60 * 60 * 10 ^ 9 \<le> timeSub (clock w1 (ticks w1)) 0)"
    by (rule injection_schedule [OF ml disjI2 [OF 1(1)] run _ 1(6) log]) simp
  then have "hdrMLKEMPub hdr \<noteq> None" using 1(5) by (simp add: 1(3) timeSub_def)
  with 1(1,6) run log show ?case by blast
qed

end
