(* ===== verification/RatchetAsync.thy ===== *)
theory RatchetAsync
  imports RatchetReorder
begin

text \<open>
  One direction of a session over a network that loses, delays and reorders at will: which messages
  on their way the receiver can read, and that sending, starting a chain, losing a message and
  delivering one, which may open a new chain, keep all of them readable.
\<close>

section \<open>Messages on their way\<close>

text \<open>A packet, with the plaintext it was made from.\<close>

type_synonym message = "packet \<times> bytes"

definition msgKey :: "message \<Rightarrow> skippedKey" where
  "msgKey m = (hdrDHPub (packetHeader (fst m)), hdrN (packetHeader (fst m)))"

definition sealedBy :: "primitives \<Rightarrow> bytes \<Rightarrow> message \<Rightarrow> bool" where
  "sealedBy P k = (\<lambda>(((hdr, ct), ad), pt).
     ct = chacha_seal P k zeroNonce pt (associatedDataWithHeader hdr ad))"

lemma msgKey_simp [simp]: "msgKey (((hdr, ct), ad), pt) = (hdrDHPub hdr, hdrN hdr)"
  by (simp add: msgKey_def packetHeader_def)

lemma sealedBy_simp [simp]: "sealedBy P k (((hdr, ct), ad), pt) \<longleftrightarrow>
    ct = chacha_seal P k zeroNonce pt (associatedDataWithHeader hdr ad)"
  by (simp add: sealedBy_def)

text \<open>
  The receiver \<open>y\<close> can read \<open>m\<close>: its key is stored, or it is the message of the receiving chain
  that has its number, below the number \<open>lim\<close> at which the chain ends.
\<close>

definition stored :: "primitives \<Rightarrow> State \<Rightarrow> message \<Rightarrow> bool" where
  "stored P y m \<longleftrightarrow> (\<exists>k. skipped y (msgKey m) = Some k \<and> length k = 32 \<and> sealedBy P k m)"

definition ahead_by :: "u32 \<Rightarrow> u32 \<Rightarrow> nat" where
  "ahead_by n k = unat n - unat k"

definition pending :: "primitives \<Rightarrow> State \<Rightarrow> u32 \<Rightarrow> message \<Rightarrow> bool" where
  "pending P y lim m \<longleftrightarrow> dhRemote y = Some (fst (msgKey m)) \<and> nRecv y \<le> snd (msgKey m) \<and>
     snd (msgKey m) < lim \<and>
     sealedBy P (messageKey ((nextChain ^^ ahead_by (snd (msgKey m)) (nRecv y)) (chainRecv y))) m"

definition held :: "primitives \<Rightarrow> State \<Rightarrow> u32 \<Rightarrow> message \<Rightarrow> bool" where
  "held P y lim m \<longleftrightarrow> stored P y m \<or> pending P y lim m"

text \<open>Keys are stored for known chains only, and for the current one only below \<open>nRecv\<close>.\<close>

definition storeOk :: "State \<Rightarrow> bytes set \<Rightarrow> bool" where
  "storeOk y pubs \<longleftrightarrow> (\<forall>k n. skipped y (k, n) \<noteq> None \<longrightarrow> k \<in> pubs \<and> (dhRemote y = Some k \<longrightarrow> n < nRecv y))"

lemma ahead_by_plus: "k \<le> n \<Longrightarrow> n = k + of_nat (ahead_by n k)"
  by (simp add: ahead_by_def word_le_nat_alt of_nat_diff)

lemma ahead_by_range: "k \<le> n \<Longrightarrow> unat k + ahead_by n k = unat n"
  by (simp add: ahead_by_def word_le_nat_alt)

lemma below_32: "unat (n :: u32) < 2 ^ 32"
  using unsigned_less [of n, where ?'a = nat] by simp

lemma storeOkD:
  assumes "storeOk y pubs"
  shows "k \<notin> pubs \<Longrightarrow> skipped y (k, n) = None"
    and "dhRemote y = Some k \<Longrightarrow> nRecv y \<le> n \<Longrightarrow> skipped y (k, n) = None"
  using assms by (meson storeOk_def not_less)+

lemma pending_not_stored:
  "storeOk y pubs \<Longrightarrow> pending P y lim m \<Longrightarrow> skipped y (msgKey m) = None"
  by (cases "msgKey m") (simp add: storeOkD(2) pending_def)

section \<open>Skipping\<close>

text \<open>What a delivery on a known chain may change.\<close>

definition receivedOnly :: "State \<Rightarrow> State \<Rightarrow> bool" where
  "receivedOnly y y' \<longleftrightarrow> (\<exists>ck n sk. y' = y\<lparr>chainRecv := ck, nRecv := n, skipped := sk\<rparr>)"

lemma receivedOnlyI: "y' = y\<lparr>chainRecv := ck, nRecv := n, skipped := sk\<rparr> \<Longrightarrow> receivedOnly y y'"
  by (auto simp: receivedOnly_def)

lemma receivedOnly_refl: "receivedOnly y y"
  by (rule receivedOnlyI [where ck = "chainRecv y" and n = "nRecv y" and sk = "skipped y"]) simp

lemma receivedOnly_trans: "receivedOnly x y \<Longrightarrow> receivedOnly y z \<Longrightarrow> receivedOnly x z"
  unfolding receivedOnly_def by (elim exE) (rule exI, rule exI, rule exI, simp)

lemma receivedOnly_skipOne: "receivedOnly s (skipOne k s)"
  by (rule receivedOnlyI [where ck = "nextChain (chainRecv s)" and n = "nRecv s + 1" and
        sk = "(skipped s)((k, nRecv s) \<mapsto> messageKey (chainRecv s))"])
    (simp add: skipOne_def chainStep_eq)

lemma receivedOnly_skip: "receivedOnly y ((skipOne k ^^ j) y)"
  by (induction j) (auto intro: receivedOnly_refl receivedOnly_trans receivedOnly_skipOne)

lemma receivedOnly_skipLoop: "receivedOnly y (skipLoop k u y)"
proof (induction k u y rule: skipLoop.induct)
  case (1 k u y)
  then show ?case
    by (subst skipLoop.simps) (auto intro: receivedOnly_refl receivedOnly_trans receivedOnly_skipOne)
qed

lemma receivedOnly_advanceRecv: "receivedOnly y (advanceRecv y)"
  by (rule receivedOnlyI [where ck = "nextChain (chainRecv y)" and n = "nRecv y + 1" and sk = "skipped y"])
    (simp add: advanceRecv_def)

lemma receivedOnly_frame:
  assumes "receivedOnly y y'"
  shows "RootKey y' = RootKey y" and "dhSelf y' = dhSelf y" and "dhRemote y' = dhRemote y"
    and "chainSend y' = chainSend y" and "nSend y' = nSend y" and "pn y' = pn y"
    and "needsNewSendingChain y' = needsNewSendingChain y"
    and "selfPendingKEMPriv y' = selfPendingKEMPriv y"
    and "peerAdvertisedKEMPub y' = peerAdvertisedKEMPub y"
  using assms by (auto simp: receivedOnly_def)

lemma skip_keeps_stored:
  assumes ok: "storeOk y pubs" and k: "dhRemote y = Some k" and j: "unat (nRecv y) + j < 2 ^ 32"
    and st: "skipped y a \<noteq> None"
  shows "skipped ((skipOne k ^^ j) y) a = skipped y a"
proof (rule skipOne_pow_other, intro allI impI)
  fix i assume "i < j"
  then have "unat (nRecv y + of_nat i) = unat (nRecv y) + i" using j by (intro unat_plus_nat) simp
  then have "nRecv y \<le> nRecv y + of_nat i" by (simp add: word_le_nat_alt)
  with storeOkD(2) [OF ok k] st show "a \<noteq> (k, nRecv y + of_nat i)" by metis
qed

lemma skip_stores:
  assumes k: "dhRemote y = Some k" and j: "unat (nRecv y) + j < 2 ^ 32"
    and m: "pending P y lim m" and i: "ahead_by (snd (msgKey m)) (nRecv y) < j"
  shows "stored P ((skipOne k ^^ j) y) m"
proof -
  have "msgKey m = (k, nRecv y + of_nat (ahead_by (snd (msgKey m)) (nRecv y)))"
    using m k ahead_by_plus by (cases "msgKey m") (auto simp: pending_def)
  with skipOne_pow_skipped [OF j i, of k] m show ?thesis by (auto simp: stored_def pending_def)
qed

lemma skip_held:
  assumes ok: "storeOk y pubs" and k: "dhRemote y = Some k" and j: "unat (nRecv y) + j \<le> unat lim"
    and m: "held P y lim m"
  shows "held P ((skipOne k ^^ j) y) lim m"
    and "unat (nRecv y) + j = unat lim \<Longrightarrow> stored P ((skipOne k ^^ j) y) m"
proof -
  have r: "unat (nRecv y) + j < 2 ^ 32" using j below_32 [of lim] by linarith
  have u: "unat (nRecv ((skipOne k ^^ j) y)) = unat (nRecv y) + j"
    by (simp add: skipOne_pow unat_plus_nat [OF r])
  have st: "stored P ((skipOne k ^^ j) y) m" if "stored P y m"
    using that skip_keeps_stored [OF ok k r, of "msgKey m"] by (auto simp: stored_def)
  let ?i = "ahead_by (snd (msgKey m)) (nRecv y)"
  have later: "pending P ((skipOne k ^^ j) y) lim m" if "pending P y lim m" "j \<le> ?i"
  proof -
    have le: "nRecv ((skipOne k ^^ j) y) \<le> snd (msgKey m)"
      using that ahead_by_range [of "nRecv y" "snd (msgKey m)"] u by (auto simp: pending_def word_le_nat_alt)
    have "ahead_by (snd (msgKey m)) (nRecv ((skipOne k ^^ j) y)) + j = ?i"
      using that u by (simp add: ahead_by_def)
    then have "(nextChain ^^ ahead_by (snd (msgKey m)) (nRecv ((skipOne k ^^ j) y))) ((nextChain ^^ j) (chainRecv y)) =
        (nextChain ^^ ?i) (chainRecv y)"
      by (metis funpow_add o_apply)
    with that(1) le show ?thesis by (simp add: pending_def skipOne_pow)
  qed
  show "held P ((skipOne k ^^ j) y) lim m"
    using m st later skip_stores [OF k r] by (meson held_def not_le)
  assume e: "unat (nRecv y) + j = unat lim"
  have "?i < j" if "pending P y lim m"
    using that e ahead_by_range [of "nRecv y" "snd (msgKey m)"] by (auto simp: pending_def word_less_nat_alt)
  with m st skip_stores [OF k r] show "stored P ((skipOne k ^^ j) y) m" by (meson held_def)
qed

lemma skip_storeOk:
  assumes ok: "storeOk y pubs" and k: "dhRemote y = Some k" "k \<in> pubs" and j: "unat (nRecv y) + j < 2 ^ 32"
  shows "storeOk ((skipOne k ^^ j) y) pubs"
  unfolding storeOk_def
proof (intro allI impI)
  fix k' n assume sk: "skipped ((skipOne k ^^ j) y) (k', n) \<noteq> None"
  have u: "unat (nRecv ((skipOne k ^^ j) y)) = unat (nRecv y) + j"
    by (simp add: skipOne_pow unat_plus_nat [OF j])
  show "k' \<in> pubs \<and> (dhRemote ((skipOne k ^^ j) y) = Some k' \<longrightarrow> n < nRecv ((skipOne k ^^ j) y))"
  proof (cases "\<exists>i < j. (k', n) = (k, nRecv y + of_nat i)")
    case True
    then obtain i where i: "i < j" "k' = k" "n = nRecv y + of_nat i" by auto
    then have "unat n = unat (nRecv y) + i" using j by (simp add: unat_plus_nat)
    with i u k show ?thesis by (simp add: word_less_nat_alt)
  next
    case False
    then have "skipped y (k', n) \<noteq> None" using sk skipOne_pow_other by metis
    with ok have "k' \<in> pubs" "dhRemote y = Some k' \<longrightarrow> n < nRecv y" by (metis storeOk_def)+
    with u show ?thesis by (auto simp: skipOne_pow(3) word_less_nat_alt)
  qed
qed

section \<open>Delivery on a known chain\<close>

text \<open>
  What the network may deliver: a message whose key is stored; one of the current chain within the
  skip window; or one that opens a new chain, again within the window, and the first of it if the
  chain answers an ML-KEM injection. \<open>started\<close> are the first headers of the sender's chains.
\<close>

definition deliverable :: "State \<Rightarrow> Header list \<Rightarrow> Header \<Rightarrow> bool" where
  "deliverable s started hdr \<longleftrightarrow> skipped s (hdrDHPub hdr, hdrN hdr) \<noteq> None \<or>
     (if dhRemote s = Some (hdrDHPub hdr) then unat (hdrN hdr) \<le> unat (nRecv s) + unat MaxSkip
      else unat (hdrPN hdr) \<le> unat (nRecv s) + unat MaxSkip \<and> hdrN hdr \<le> MaxSkip \<and>
        (\<forall>f \<in> set started. hdrDHPub f = hdrDHPub hdr \<and> hdrMLKEMCiphertext f \<noteq> None \<longrightarrow> hdrN hdr = 0))"

lemma unat_MaxSkip [simp]: "unat MaxSkip = 1000"
  by (simp add: MaxSkip_def)

text \<open>The part of the receiver's state that belongs to the chain: numbers and keys.\<close>

definition chainMoved :: "State \<Rightarrow> State \<Rightarrow> u32 \<Rightarrow> bool" where
  "chainMoved y y' lim \<longleftrightarrow> receivedOnly y y' \<and> nRecv y \<le> nRecv y' \<and> nRecv y' \<le> lim \<and>
     chainRecv y' = (nextChain ^^ ahead_by (nRecv y') (nRecv y)) (chainRecv y)"

lemma stored_deliver:
  assumes al: "aead_laws P" and st: "stored P y (((hdr, ct), ad), pt)" and lim: "nRecv y \<le> lim"
    and ok: "storeOk y pubs"
  shows "\<exists>y'. DecryptMessage P hdr ct ad y = (Inr pt, y') \<and> chainMoved y y' lim \<and> storeOk y' pubs \<and>
    (\<forall>m'. msgKey m' \<noteq> (hdrDHPub hdr, hdrN hdr) \<longrightarrow> held P y lim m' \<longrightarrow> held P y' lim m')"
proof -
  let ?y = "y\<lparr>skipped := (skipped y)((hdrDHPub hdr, hdrN hdr) := None)\<rparr>"
  obtain k where k: "skipped y (hdrDHPub hdr, hdrN hdr) = Some k"
    "length k = 32" "ct = chacha_seal P k zeroNonce pt (associatedDataWithHeader hdr ad)"
    using st by (auto simp: stored_def)
  have "receivedOnly y ?y"
    by (rule receivedOnlyI [where ck = "chainRecv y" and n = "nRecv y" and
          sk = "(skipped y)((hdrDHPub hdr, hdrN hdr) := None)"]) simp
  then have "chainMoved y ?y lim" using lim by (simp add: chainMoved_def ahead_by_def)
  moreover have "storeOk ?y pubs" using ok by (simp add: storeOk_def)
  moreover have "held P ?y lim m'" if "msgKey m' \<noteq> (hdrDHPub hdr, hdrN hdr)" "held P y lim m'" for m'
    using that by (simp add: held_def stored_def pending_def)
  ultimately show ?thesis using DecryptMessage_skipped [OF k(1), of P ct ad] k(2,3) open_sealed [OF al]
    by (intro exI [of _ ?y]) simp
qed

lemma advanceRecv_held:
  assumes h: "held P v lim m" and k: "dhRemote v = Some k" and m: "msgKey m \<noteq> (k, nRecv v)"
    and suc: "unat (nRecv (advanceRecv v)) = Suc (unat (nRecv v))"
  shows "held P (advanceRecv v) lim m"
proof (cases "pending P v lim m")
  case True
  then have p: "fst (msgKey m) = k" "nRecv v \<le> snd (msgKey m)" "snd (msgKey m) < lim"
    "sealedBy P (messageKey ((nextChain ^^ ahead_by (snd (msgKey m)) (nRecv v)) (chainRecv v))) m"
    using k by (auto simp: pending_def)
  then have "snd (msgKey m) \<noteq> nRecv v" using m by (metis prod.collapse)
  with p(2) have less: "unat (nRecv v) < unat (snd (msgKey m))"
    by (simp add: word_le_nat_alt) (metis le_neq_implies_less word_unat_eq_iff)
  then have "ahead_by (snd (msgKey m)) (nRecv v) = Suc (ahead_by (snd (msgKey m)) (nRecv (advanceRecv v)))"
    using suc by (simp add: ahead_by_def)
  with p(4) have "sealedBy P (messageKey ((nextChain ^^ ahead_by (snd (msgKey m)) (nRecv (advanceRecv v)))
      (chainRecv (advanceRecv v)))) m"
    by (simp add: advanceRecv_def funpow_swap1)
  with p less suc show ?thesis by (simp add: held_def pending_def k word_le_nat_alt)
qed (use h in \<open>simp add: held_def stored_def\<close>)

lemma pending_deliver:
  assumes al: "aead_laws P" and pd: "pending P y lim (((hdr, ct), ad), pt)"
    and win: "unat (hdrN hdr) \<le> unat (nRecv y) + 1000" and some: "chainRecv y \<noteq> None"
    and ok: "storeOk y pubs" and pub: "hdrDHPub hdr \<in> pubs"
  shows "\<exists>y'. DecryptMessage P hdr ct ad y = (Inr pt, y') \<and> chainMoved y y' lim \<and> storeOk y' pubs \<and>
    (\<forall>m'. msgKey m' \<noteq> (hdrDHPub hdr, hdrN hdr) \<longrightarrow> held P y lim m' \<longrightarrow> held P y' lim m')"
proof -
  define j where "j = ahead_by (hdrN hdr) (nRecv y)"
  let ?k = "hdrDHPub hdr"
  let ?v = "(skipOne ?k ^^ j) y"
  have k: "dhRemote y = Some ?k" and le: "nRecv y \<le> hdrN hdr" "hdrN hdr < lim"
    and ct: "ct = chacha_seal P (messageKey ((nextChain ^^ j) (chainRecv y))) zeroNonce pt
        (associatedDataWithHeader hdr ad)"
    using pd by (auto simp: pending_def j_def)
  have n: "hdrN hdr = nRecv y + of_nat j" "unat (nRecv y) + j = unat (hdrN hdr)"
    using le(1) ahead_by_plus ahead_by_range by (simp_all add: j_def)
  then have r: "unat (nRecv y) + j < 2 ^ 32" "j \<le> 1000" "unat (nRecv y) + j \<le> unat lim"
    using below_32 [of "hdrN hdr"] win le(2) by (auto simp: word_less_nat_alt)
  have sk: "skipped y (?k, hdrN hdr) = None" using pending_not_stored [OF ok pd] by simp
  have vn: "nRecv ?v = hdrN hdr" by (simp add: skipOne_pow n(1))
  have "DecryptMessage P hdr ct ad y = (aeadOpen P (messageKey (chainRecv ?v)) ct
      (associatedDataWithHeader hdr ad), advanceRecv ?v)"
    using sk k skipMessageKeys_pow [OF r(1,2) some k]
    by (simp add: DecryptMessage_cases enterNewKey_run n(1) nextRecvKey_run tryS_step receivingKey_def)
  then have d: "DecryptMessage P hdr ct ad y = (Inr pt, advanceRecv ?v)"
    by (simp add: skipOne_pow ct open_sealed [OF al])
  have suc: "unat (nRecv (advanceRecv ?v)) = Suc (unat (hdrN hdr))" "nRecv (advanceRecv ?v) \<le> lim"
    using u32_suc [OF le(2)] le(2) by (simp_all add: advanceRecv_def vn word_le_nat_alt word_less_nat_alt)
  have "ahead_by (nRecv (advanceRecv ?v)) (nRecv y) = Suc j"
    using suc(1) n(2) by (simp add: ahead_by_def)
  moreover have "receivedOnly y (advanceRecv ?v)"
    by (rule receivedOnly_trans [OF receivedOnly_skip receivedOnly_advanceRecv])
  moreover have "chainRecv (advanceRecv ?v) = (nextChain ^^ Suc j) (chainRecv y)"
    by (simp add: advanceRecv_def skipOne_pow)
  moreover have "nRecv y \<le> nRecv (advanceRecv ?v)" using suc(1) le(1) by (simp add: word_le_nat_alt)
  ultimately have moved: "chainMoved y (advanceRecv ?v) lim" using suc(2) by (simp add: chainMoved_def)
  have "storeOk ?v pubs" by (rule skip_storeOk [OF ok k pub r(1)])
  then have "storeOk (advanceRecv ?v) pubs"
    using suc(1) vn by (fastforce simp: storeOk_def word_less_nat_alt skipOne_pow(3))
  moreover have "held P (advanceRecv ?v) lim m'" if "msgKey m' \<noteq> (?k, hdrN hdr)" "held P y lim m'" for m'
    using advanceRecv_held [OF skip_held(1) [OF ok k r(3) that(2)], of ?k] that(1) suc(1) k
    by (simp add: vn skipOne_pow(3))
  ultimately show ?thesis using d moved by blast
qed

lemmas chain_deliver = stored_deliver pending_deliver

section \<open>One direction\<close>

text \<open>
  From the sender \<open>x\<close> to the receiver \<open>y\<close>, with the messages \<open>ms\<close> on their way. \<open>started\<close> holds the
  first header of each chain of \<open>x\<close>, the latest first.
\<close>

definition pubsOf :: "Header list \<Rightarrow> bytes set" where
  "pubsOf started = hdrDHPub ` set started"

definition network :: "primitives \<Rightarrow> State \<Rightarrow> Header list \<Rightarrow> message list \<Rightarrow> bool" where
  "network P x started ms \<longleftrightarrow> distinct (map msgKey ms) \<and>
     (\<forall>m \<in> set ms. fst (msgKey m) \<in> pubsOf started \<and>
        (fst (msgKey m) = ratchetPub P x \<longrightarrow> snd (msgKey m) < nSend x))"

text \<open>\<open>y\<close> knows the chain on which \<open>x\<close> sends.\<close>

definition knows :: "primitives \<Rightarrow> State \<Rightarrow> State \<Rightarrow> Header list \<Rightarrow> message list \<Rightarrow> bool" where
  "knows P x y started ms \<longleftrightarrow> network P x started ms \<and> ratchetPub P x \<in> pubsOf started \<and>
     storeOk y (pubsOf started) \<and> dhRemote y = Some (ratchetPub P x) \<and> nRecv y \<le> nSend x \<and>
     chainSend x = (nextChain ^^ ahead_by (nSend x) (nRecv y)) (chainRecv y) \<and>
     (chainRecv y = None \<longrightarrow> nRecv y = nSend x) \<and> (\<forall>m \<in> set ms. held P y (nSend x) m)"

text \<open>\<open>x\<close> sends on a chain with first header \<open>f\<close> and first key \<open>ck\<close> that \<open>y\<close> has not entered.\<close>

definition onChain :: "primitives \<Rightarrow> State \<Rightarrow> Header \<Rightarrow> bytes \<Rightarrow> message \<Rightarrow> bool" where
  "onChain P x f ck m \<longleftrightarrow> (\<exists>j < unat (nSend x). packetHeader (fst m) = chainHeader f j \<and>
     sealedBy P (messageKey ((nextChain ^^ j) (Some ck))) m)"

definition opener :: "primitives \<Rightarrow> State \<Rightarrow> State \<Rightarrow> Header \<Rightarrow> bytes \<Rightarrow> bool" where
  "opener P x y f ck \<longleftrightarrow> hdrDHPub f = ratchetPub P x \<and> hdrPN f = pn x \<and> hdrN f = 0 \<and>
     offers P (hdrMLKEMPub f) (selfPendingKEMPriv x) \<and>
     (\<exists>dhOut ss. ecdh_ECDH P (dhSelf y) (ratchetPub P x) = Inr dhOut \<and>
        rootKDF (RootKey y) dhOut ss = Inr (RootKey x, ck) \<and>
        decapsulates P (selfPendingKEMPriv y) (hdrMLKEMCiphertext f) ss)"

definition awaits :: "primitives \<Rightarrow> State \<Rightarrow> State \<Rightarrow> Header list \<Rightarrow> message list \<Rightarrow> bool" where
  "awaits P x y started ms \<longleftrightarrow> network P x started ms \<and> (\<exists>f rest ck old. started = f # rest \<and>
     opener P x y f ck \<and> ratchetPub P x \<notin> pubsOf rest \<and> storeOk y (pubsOf rest) \<and>
     dhRemote y = Some old \<and> old \<in> pubsOf rest \<and> nRecv y \<le> pn x \<and>
     (chainRecv y = None \<longrightarrow> nRecv y = pn x) \<and> 0 < nSend x \<and>
     chainSend x = (nextChain ^^ unat (nSend x)) (Some ck) \<and>
     (\<forall>m \<in> set ms. held P y (pn x) m \<or> onChain P x f ck m))"

lemma awaitsE:
  assumes "awaits P x y started ms"
  obtains f rest ck old where "network P x started ms" "started = f # rest" "opener P x y f ck"
    "ratchetPub P x \<notin> pubsOf rest" "storeOk y (pubsOf rest)" "dhRemote y = Some old"
    "old \<in> pubsOf rest" "nRecv y \<le> pn x" "chainRecv y = None \<longrightarrow> nRecv y = pn x" "0 < nSend x"
    "chainSend x = (nextChain ^^ unat (nSend x)) (Some ck)"
    "\<forall>m \<in> set ms. held P y (pn x) m \<or> onChain P x f ck m"
  using assms unfolding awaits_def by (elim conjE exE) (rule that; assumption)

lemma awaitsI:
  assumes "network P x started ms" "started = f # rest" "opener P x y f ck"
    "ratchetPub P x \<notin> pubsOf rest" "storeOk y (pubsOf rest)" "dhRemote y = Some old"
    "old \<in> pubsOf rest" "nRecv y \<le> pn x" "chainRecv y = None \<longrightarrow> nRecv y = pn x" "0 < nSend x"
    "chainSend x = (nextChain ^^ unat (nSend x)) (Some ck)"
    "\<forall>m \<in> set ms. held P y (pn x) m \<or> onChain P x f ck m"
  shows "awaits P x y started ms"
  unfolding awaits_def using assms by (intro conjI exI)

text \<open>Neither depends on the other direction, nor on messages that get lost.\<close>

lemma knows_cong:
  "dhSelf x' = dhSelf x \<Longrightarrow> nSend x' = nSend x \<Longrightarrow> chainSend x' = chainSend x \<Longrightarrow>
   dhRemote y' = dhRemote y \<Longrightarrow> nRecv y' = nRecv y \<Longrightarrow> chainRecv y' = chainRecv y \<Longrightarrow>
   skipped y' = skipped y \<Longrightarrow> knows P x' y' started ms = knows P x y started ms"
  by (simp add: knows_def network_def ratchetPub_def storeOk_def held_def stored_def pending_def)

lemma awaits_cong:
  "dhSelf x' = dhSelf x \<Longrightarrow> nSend x' = nSend x \<Longrightarrow> chainSend x' = chainSend x \<Longrightarrow> pn x' = pn x \<Longrightarrow>
   RootKey x' = RootKey x \<Longrightarrow> selfPendingKEMPriv x' = selfPendingKEMPriv x \<Longrightarrow>
   dhSelf y' = dhSelf y \<Longrightarrow> RootKey y' = RootKey y \<Longrightarrow> selfPendingKEMPriv y' = selfPendingKEMPriv y \<Longrightarrow>
   dhRemote y' = dhRemote y \<Longrightarrow> nRecv y' = nRecv y \<Longrightarrow> chainRecv y' = chainRecv y \<Longrightarrow>
   skipped y' = skipped y \<Longrightarrow> awaits P x' y' started ms = awaits P x y started ms"
  by (simp add: awaits_def network_def ratchetPub_def storeOk_def held_def stored_def pending_def
      opener_def onChain_def)

lemma network_drop: "network P x started (ms @ m # ns) \<Longrightarrow> network P x started (ms @ ns)"
  by (auto simp: network_def)

lemma knows_drop: "knows P x y started (ms @ m # ns) \<Longrightarrow> knows P x y started (ms @ ns)"
  by (auto simp: knows_def intro: network_drop)

lemma awaits_drop: "awaits P x y started (ms @ m # ns) \<Longrightarrow> awaits P x y started (ms @ ns)"
  unfolding awaits_def by (elim conjE exE, intro conjI, erule network_drop) auto

section \<open>Sending\<close>

lemma nSend_advanceSend [simp]: "nSend (advanceSend x) = nSend x + 1"
  and chainSend_advanceSend [simp]: "chainSend (advanceSend x) = nextChain (chainSend x)"
  by (simp_all add: advanceSend_def)

lemma network_send:
  assumes nw: "network P x started ms" and pub: "ratchetPub P x \<in> pubsOf started" and less: "nSend x < nSend x + 1"
  shows "network P (advanceSend x) started (ms @ [(sealedNext P x pt ad, pt)])"
proof -
  have k: "msgKey (sealedNext P x pt ad, pt) = (ratchetPub P x, nSend x)"
    by (simp add: sealedNext_def plainHeader_def ratchetPub_def)
  then have "msgKey (sealedNext P x pt ad, pt) \<notin> msgKey ` set ms" using nw by (fastforce simp: network_def)
  moreover have "n < nSend x + 1" if "n < nSend x" for n using that less by (rule less_trans)
  ultimately show ?thesis
    using nw pub k less by (auto simp: network_def)
qed

lemma held_mono: "held P y lim m \<Longrightarrow> lim \<le> lim' \<Longrightarrow> held P y lim' m"
  by (auto simp: held_def pending_def)

lemma knows_send:
  assumes kn: "knows P x y started ms" and some: "chainRecv y \<noteq> None" and less: "nSend x < nSend x + 1"
  shows "knows P (advanceSend x) y started (ms @ [(sealedNext P x pt ad, pt)])"
proof -
  let ?m = "(sealedNext P x pt ad, pt)"
  note k = kn [unfolded knows_def]
  have u: "unat (nSend x + 1) = Suc (unat (nSend x))" by (rule u32_suc [OF less])
  have le: "nRecv y \<le> nSend x" using k by blast
  have "nRecv y \<le> nSend x + 1" using le less by simp
  moreover have "ahead_by (nSend x + 1) (nRecv y) = Suc (ahead_by (nSend x) (nRecv y))"
    using le by (simp add: ahead_by_def u word_le_nat_alt)
  moreover have "held P y (nSend x + 1) ?m"
    using k less by (simp add: held_def pending_def sealedNext_def plainHeader_def ratchetPub_def)
  moreover have "\<forall>m \<in> set ms. held P y (nSend x + 1) m"
    using k less held_mono by (meson order.strict_implies_order)
  ultimately show ?thesis
    using k some network_send [of P x started ms, OF _ _ less] by (auto simp: knows_def)
qed

lemma awaits_send:
  assumes aw: "awaits P x y started ms" and less: "nSend x < nSend x + 1"
  shows "awaits P (advanceSend x) y started (ms @ [(sealedNext P x pt ad, pt)])"
proof -
  let ?m = "(sealedNext P x pt ad, pt)"
  obtain f rest ck old where a: "network P x started ms" "started = f # rest" "opener P x y f ck"
    "ratchetPub P x \<notin> pubsOf rest" "storeOk y (pubsOf rest)" "dhRemote y = Some old"
    "old \<in> pubsOf rest" "nRecv y \<le> pn x" "chainRecv y = None \<longrightarrow> nRecv y = pn x" "0 < nSend x"
    "chainSend x = (nextChain ^^ unat (nSend x)) (Some ck)"
    "\<forall>m \<in> set ms. held P y (pn x) m \<or> onChain P x f ck m"
    by (rule awaitsE [OF aw])
  have u: "unat (nSend x + 1) = Suc (unat (nSend x))" by (rule u32_suc [OF less])
  have f: "hdrDHPub f = ratchetPub P x" "hdrPN f = pn x" using a(3) by (simp_all add: opener_def)
  then have "ratchetPub P x \<in> pubsOf started" by (simp add: a(2) pubsOf_def)
  note network_send [OF a(1) this less, of pt ad]
  moreover have "0 < unat (nSend x)" using a(10) by (simp add: word_less_nat_alt)
  then have "plainHeader P x = chainHeader f (unat (nSend x))"
    using f by (cases f) (simp add: plainHeader_def chainHeader_def ratchetPub_def)
  then have "onChain P (advanceSend x) f ck ?m"
    unfolding onChain_def
    by (intro exI [of _ "unat (nSend x)"]) (simp add: sealedNext_def packetHeader_def u a(11))
  moreover have "onChain P (advanceSend x) f ck m" if "onChain P x f ck m" for m
    using that u by (auto simp: onChain_def intro: less_SucI)
  moreover have "opener P (advanceSend x) y f ck" using a(3) by (simp add: opener_def)
  moreover have "0 < nSend x + 1" using a(10) less by (rule less_trans)
  ultimately have new: "network P (advanceSend x) started (ms @ [?m])" "opener P (advanceSend x) y f ck"
    "0 < nSend (advanceSend x)"
    "\<forall>m \<in> set (ms @ [?m]). held P y (pn x) m \<or> onChain P (advanceSend x) f ck m"
    using a(12) by auto
  have "chainSend (advanceSend x) = (nextChain ^^ unat (nSend (advanceSend x))) (Some ck)"
    by (simp add: u a(11))
  with new a(2,4-9) show ?thesis
    by (intro awaitsI [of _ _ _ _ f rest y ck old]) simp_all
qed

text \<open>Starting a chain: what was known is now the tail of the old chain.\<close>

lemma knows_start:
  assumes laws: "x25519_laws P" and kn: "knows P y x started ms"
    and len: "length (dhSelf x) = 32" and root: "RootKey x = RootKey y"
    and remote: "dhRemote y = Some (ratchetPub P x)"
    and off: "offers P (peerAdvertisedKEMPub y) (selfPendingKEMPriv x)"
    and new: "newChainResult P y dhOut ss ck hdr y'" and fresh: "hdrDHPub hdr \<notin> pubsOf started"
    and ct: "ct = chacha_seal P (messageKey (Some ck)) zeroNonce pt (associatedDataWithHeader hdr ad)"
  shows "awaits P y' x (hdr # started) (ms @ [(((hdr, ct), ad), pt)])"
proof -
  note k = kn [unfolded knows_def] and n = new [unfolded newChainResult_def]
  have pub: "ratchetPub P y' = hdrDHPub hdr" using n by (simp add: ratchetPub_def)
  have "ecdh_ECDH P (dhSelf x) (ratchetPub P y') = Inr dhOut"
    using n remote len x25519_commutes [OF laws, of "dhSelf y'" "dhSelf x"] by (simp add: ratchetPub_def)
  moreover have "decapsulates P (selfPendingKEMPriv x) (hdrMLKEMCiphertext hdr) ss"
    using n off by (auto simp: answers_def offers_def decapsulates_def split: option.splits)
  ultimately have op: "opener P y' x hdr ck" using n root by (auto simp: opener_def ratchetPub_def)
  have "fst (msgKey m) \<noteq> hdrDHPub hdr" if "m \<in> set ms" for m
    using that k fresh by (auto simp: network_def)
  then have "network P y' (hdr # started) (ms @ [(((hdr, ct), ad), pt)])"
    using k n pub by (fastforce simp: network_def pubsOf_def)
  moreover have "onChain P y' hdr ck (((hdr, ct), ad), pt)"
    unfolding onChain_def using n
    by (intro exI [of _ 0]) (simp add: packetHeader_def chainHeader_def ct)
  moreover have "\<forall>m \<in> set (ms @ [(((hdr, ct), ad), pt)]). held P x (pn y') m \<or> onChain P y' hdr ck m"
    using k n calculation by simp
  moreover have "0 < nSend y'" "chainSend y' = (nextChain ^^ unat (nSend y')) (Some ck)" using n by auto
  ultimately show ?thesis
    using k n op fresh pub by (intro awaitsI [of _ _ _ _ hdr started x ck "ratchetPub P y"]) simp_all
qed

section \<open>Delivery\<close>

text \<open>The chain has moved on, and lost one message.\<close>

lemma network_others:
  assumes "network P x started (ms @ m # ns)"
  shows "network P x started (ms @ ns)" and "\<forall>m' \<in> set (ms @ ns). msgKey m' \<noteq> msgKey m"
    and "fst (msgKey m) \<in> pubsOf started"
proof -
  have "msgKey m \<notin> set (map msgKey (ms @ ns))" using assms by (auto simp: network_def)
  then show "\<forall>m' \<in> set (ms @ ns). msgKey m' \<noteq> msgKey m" by (metis image_eqI image_set)
qed (use assms in \<open>auto simp: network_def\<close>)

lemma ahead_by_split: "k \<le> n \<Longrightarrow> n \<le> l \<Longrightarrow> ahead_by l k = ahead_by l n + ahead_by n k"
  by (simp add: ahead_by_def word_le_nat_alt)

lemma held_deliver:
  assumes al: "aead_laws P" and hd: "held P y lim (((hdr, ct), ad), pt)" and ok: "storeOk y pubs"
    and pub: "hdrDHPub hdr \<in> pubs" and lim: "nRecv y \<le> lim" and none: "chainRecv y = None \<longrightarrow> nRecv y = lim"
    and del: "deliverable y started hdr"
  obtains y' where "DecryptMessage P hdr ct ad y = (Inr pt, y')" and "chainMoved y y' lim"
    and "storeOk y' pubs" and "chainRecv y' = None \<longrightarrow> chainRecv y = None \<and> nRecv y' = lim"
    and "\<And>m'. msgKey m' \<noteq> (hdrDHPub hdr, hdrN hdr) \<Longrightarrow> held P y lim m' \<Longrightarrow> held P y' lim m'"
proof -
  have "\<exists>y'. DecryptMessage P hdr ct ad y = (Inr pt, y') \<and> chainMoved y y' lim \<and> storeOk y' pubs \<and>
    (\<forall>m'. msgKey m' \<noteq> (hdrDHPub hdr, hdrN hdr) \<longrightarrow> held P y lim m' \<longrightarrow> held P y' lim m')"
  proof (cases "stored P y (((hdr, ct), ad), pt)")
    case True
    then show ?thesis by (rule stored_deliver [OF al _ lim ok])
  next
    case False
    with hd have pd: "pending P y lim (((hdr, ct), ad), pt)" by (simp add: held_def)
    then have "unat (hdrN hdr) \<le> unat (nRecv y) + 1000" "chainRecv y \<noteq> None"
      using del none pending_not_stored [OF ok pd] by (auto simp: pending_def deliverable_def)
    with pd show ?thesis by (intro pending_deliver [OF al _ _ _ ok pub])
  qed
  then obtain y' where y': "DecryptMessage P hdr ct ad y = (Inr pt, y')" "chainMoved y y' lim"
    "storeOk y' pubs"
    "\<And>m'. msgKey m' \<noteq> (hdrDHPub hdr, hdrN hdr) \<Longrightarrow> held P y lim m' \<Longrightarrow> held P y' lim m'" by blast
  have "chainRecv y' = None \<longrightarrow> chainRecv y = None \<and> nRecv y' = lim"
    using y'(2) none by (cases "ahead_by (nRecv y') (nRecv y)") (auto simp: chainMoved_def)
  with y' show ?thesis by (intro that)
qed

lemma knows_deliver:
  assumes al: "aead_laws P" and kn: "knows P x y started (ms @ (((hdr, ct), ad), pt) # ns)"
    and del: "deliverable y started hdr"
  obtains y' where "DecryptMessage P hdr ct ad y = (Inr pt, y')" and "receivedOnly y y'"
    and "knows P x y' started (ms @ ns)" and "chainRecv y' = None \<longrightarrow> chainRecv y = None"
proof -
  note k = kn [unfolded knows_def]
  then have nw: "network P x started (ms @ (((hdr, ct), ad), pt) # ns)" by blast
  note others = network_others [OF nw]
  obtain y' where y': "DecryptMessage P hdr ct ad y = (Inr pt, y')" "chainMoved y y' (nSend x)"
    "storeOk y' (pubsOf started)" "chainRecv y' = None \<longrightarrow> chainRecv y = None \<and> nRecv y' = nSend x"
    "\<And>m'. msgKey m' \<noteq> (hdrDHPub hdr, hdrN hdr) \<Longrightarrow> held P y (nSend x) m' \<Longrightarrow> held P y' (nSend x) m'"
    by (rule held_deliver [OF al _ _ _ _ _ del, where lim = "nSend x" and ct = ct and ad = ad and pt = pt and pubs = "pubsOf started"])
      (use k others(3) in auto)
  note m = y'(2) [unfolded chainMoved_def]
  have "chainSend x = (nextChain ^^ ahead_by (nSend x) (nRecv y)) (chainRecv y)"
    "ratchetPub P x \<in> pubsOf started" "dhRemote y = Some (ratchetPub P x)"
    "\<forall>m \<in> set (ms @ (((hdr, ct), ad), pt) # ns). held P y (nSend x) m" using k by blast+
  note k' = this
  have "chainSend x = (nextChain ^^ ahead_by (nSend x) (nRecv y')) (chainRecv y')"
    using k'(1) m ahead_by_split [of "nRecv y" "nRecv y'" "nSend x"] by (simp add: funpow_add)
  moreover have "dhRemote y' = Some (ratchetPub P x)" using m k'(3) receivedOnly_frame(3) by metis
  moreover have "held P y' (nSend x) m'" if "m' \<in> set (ms @ ns)" for m'
    using that bspec [OF others(2) that] bspec [OF k'(4), of m'] by (intro y'(5)) auto
  moreover have "nRecv y' \<le> nSend x" "chainRecv y' = None \<longrightarrow> nRecv y' = nSend x" using m y'(4) by simp_all
  ultimately have "knows P x y' started (ms @ ns)"
    unfolding knows_def using k'(2) others(1) y'(3) by (intro conjI ballI)
  with y' m show ?thesis by (intro that) auto
qed

lemma awaits_deliver:
  assumes al: "aead_laws P" and aw: "awaits P x y started (ms @ (((hdr, ct), ad), pt) # ns)"
    and hd: "held P y (pn x) (((hdr, ct), ad), pt)" and del: "deliverable y started hdr"
  obtains y' where "DecryptMessage P hdr ct ad y = (Inr pt, y')" and "receivedOnly y y'"
    and "awaits P x y' started (ms @ ns)"
proof -
  obtain f rest ck old where a: "network P x started (ms @ (((hdr, ct), ad), pt) # ns)" "started = f # rest"
    "opener P x y f ck" "ratchetPub P x \<notin> pubsOf rest" "storeOk y (pubsOf rest)" "dhRemote y = Some old"
    "old \<in> pubsOf rest" "nRecv y \<le> pn x" "chainRecv y = None \<longrightarrow> nRecv y = pn x" "0 < nSend x"
    "chainSend x = (nextChain ^^ unat (nSend x)) (Some ck)"
    "\<forall>m \<in> set (ms @ (((hdr, ct), ad), pt) # ns). held P y (pn x) m \<or> onChain P x f ck m"
    by (rule awaitsE [OF aw])
  note others = network_others [OF a(1)]
  have "hdrDHPub hdr \<in> pubsOf rest"
    using hd a(6,7) storeOkD(1) [OF a(5), of "hdrDHPub hdr" "hdrN hdr"]
    by (cases "hdrDHPub hdr \<in> pubsOf rest") (auto simp: held_def stored_def pending_def)
  from held_deliver [OF al hd a(5) this a(8,9) del]
  obtain y' where y': "DecryptMessage P hdr ct ad y = (Inr pt, y')" "chainMoved y y' (pn x)"
    "storeOk y' (pubsOf rest)" "chainRecv y' = None \<longrightarrow> chainRecv y = None \<and> nRecv y' = pn x"
    "\<And>m'. msgKey m' \<noteq> (hdrDHPub hdr, hdrN hdr) \<Longrightarrow> held P y (pn x) m' \<Longrightarrow> held P y' (pn x) m'" by blast
  note m = y'(2) [unfolded chainMoved_def]
  then have fr: "dhRemote y' = Some old" "opener P x y' f ck"
    using a(3,6) receivedOnly_frame [of y y'] by (simp_all add: opener_def)
  have "held P y' (pn x) m' \<or> onChain P x f ck m'" if "m' \<in> set (ms @ ns)" for m'
    using that bspec [OF others(2) that] bspec [OF a(12), of m'] y'(5) [of m'] by (auto simp del: split_paired_All)
  then have rest: "\<forall>m' \<in> set (ms @ ns). held P y' (pn x) m' \<or> onChain P x f ck m'" by blast
  have "nRecv y' \<le> pn x" "chainRecv y' = None \<longrightarrow> nRecv y' = pn x" using m y'(4) by simp_all
  then have "awaits P x y' started (ms @ ns)"
    by (rule awaitsI [OF others(1) a(2) fr(2) a(4) y'(3) fr(1) a(7) _ _ a(10,11) rest])
  with y'(1) m show ?thesis by (intro that) auto
qed

section \<open>Entering a chain\<close>

lemma skip_to_limit:
  assumes k: "dhRemote y = Some k" and le: "nRecv y \<le> lim" "unat lim \<le> unat (nRecv y) + 1000"
    and none: "chainRecv y = None \<longrightarrow> nRecv y = lim"
  shows "skipMessageKeys lim y = (Inr (), (skipOne k ^^ ahead_by lim (nRecv y)) y)"
proof (cases "nRecv y = lim")
  case True
  then show ?thesis using k by (simp add: skipMessageKeys_none ahead_by_def)
next
  case False
  then have "chainRecv y \<noteq> None" using none by blast
  moreover have "unat (nRecv y) + ahead_by lim (nRecv y) = unat lim" by (rule ahead_by_range [OF le(1)])
  then have "unat (nRecv y) + ahead_by lim (nRecv y) < 2 ^ 32" "ahead_by lim (nRecv y) \<le> 1000"
    using below_32 [of lim] le(2) by simp_all
  ultimately show ?thesis
    using skipMessageKeys_pow [of y _ k] k ahead_by_plus [OF le(1)] by metis
qed

text \<open>The ratchet step, on any state that still has the keys of \<open>y\<close>.\<close>

lemma opener_run:
  assumes ml: "mlkem_laws P" and xl: "x25519_laws P" and op: "opener P x y f ck" and hdr: "hdr = chainHeader f j"
    and first: "j \<noteq> 0 \<Longrightarrow> hdrMLKEMCiphertext f = None" and ro: "receivedOnly y v"
  shows "dhRatchetStep P hdr v = (Inr (), enterChain hdr (RootKey x) ck v)"
    and "offers P (hdrMLKEMPub hdr) (selfPendingKEMPriv x)"
proof -
  obtain dhOut ss where o: "hdrDHPub f = ratchetPub P x"
    "offers P (hdrMLKEMPub f) (selfPendingKEMPriv x)" "ecdh_ECDH P (dhSelf y) (ratchetPub P x) = Inr dhOut"
    "rootKDF (RootKey y) dhOut ss = Inr (RootKey x, ck)"
    "decapsulates P (selfPendingKEMPriv y) (hdrMLKEMCiphertext f) ss"
    using op by (auto simp: opener_def)
  note fr = receivedOnly_frame [OF ro]
  show off: "offers P (hdrMLKEMPub hdr) (selfPendingKEMPriv x)"
    using o(2) by (simp add: hdr chainHeader_def offers_def)
  have pub: "hdrDHPub hdr = ratchetPub P x" using o(1) by (simp add: hdr chainHeader_def)
  have "decapsulates P (selfPendingKEMPriv v) (hdrMLKEMCiphertext hdr) ss"
    using o(5) first fr by (cases "j = 0") (simp_all add: hdr chainHeader_def decapsulates_def)
  then show "dhRatchetStep P hdr v = (Inr (), enterChain hdr (RootKey x) ck v)"
    using o(3,4) off fr pub mlkem_Unpack_pair [OF ml] length_ecdh_PublicKey [OF xl]
    by (intro dhRatchetStep_run [where dhOut = dhOut and ss = ss]) (auto simp: offers_def ratchetPub_def)
qed

text \<open>Once the old chain is skipped to its end and the new one entered, all can be read.\<close>

lemma entered_held:
  assumes op: "opener P x y f ck" and ok: "storeOk y pubs" and k: "dhRemote y = Some old"
    and le: "nRecv y \<le> pn x" and m: "held P y (pn x) m \<or> onChain P x f ck m"
    and pub: "hdrDHPub hdr = ratchetPub P x"
  shows "held P (enterChain hdr (RootKey x) ck ((skipOne old ^^ ahead_by (pn x) (nRecv y)) y)) (nSend x) m"
    (is "held P ?u _ _")
proof -
  have u: "dhRemote ?u = Some (ratchetPub P x)" "nRecv ?u = 0" "chainRecv ?u = Some ck"
    "skipped ?u = skipped ((skipOne old ^^ ahead_by (pn x) (nRecv y)) y)"
    by (simp_all add: enterChain_def pub)
  from m show ?thesis
  proof
    assume "held P y (pn x) m"
    then have "stored P ((skipOne old ^^ ahead_by (pn x) (nRecv y)) y) m"
      using ahead_by_range [OF le] by (intro skip_held(2) [OF ok k]) simp_all
    then show ?thesis by (simp add: held_def stored_def u(4))
  next
    assume "onChain P x f ck m"
    then obtain i where i: "i < unat (nSend x)" "packetHeader (fst m) = chainHeader f i"
      "sealedBy P (messageKey ((nextChain ^^ i) (Some ck))) m" by (auto simp: onChain_def)
    have n: "unat (of_nat i :: u32) = i"
      using i(1) below_32 [of "nSend x"] unat_plus_nat [of 0 i] by simp
    have "msgKey m = (ratchetPub P x, of_nat i)"
      using i(2) op by (simp add: msgKey_def chainHeader_def opener_def)
    moreover have "ahead_by (of_nat i) 0 = i" using n by (simp add: ahead_by_def)
    ultimately show ?thesis using i n by (simp add: held_def pending_def u word_less_nat_alt)
  qed
qed

lemma awaits_enter:
  assumes ml: "mlkem_laws P" and xl: "x25519_laws P" and len: "length (dhSelf x) = 32"
    and aw: "awaits P x y started ms" and m: "(((hdr, ct), ad), pt) \<in> set ms"
    and nh: "\<not> held P y (pn x) (((hdr, ct), ad), pt)" and del: "deliverable y started hdr"
  obtains v ck where "receivedOnly y v"
    and "DecryptMessage P hdr ct ad y = DecryptMessage P hdr ct ad (enterChain hdr (RootKey x) ck v)"
    and "knows P x (enterChain hdr (RootKey x) ck v) started ms"
    and "deliverable (enterChain hdr (RootKey x) ck v) started hdr"
    and "offers P (hdrMLKEMPub hdr) (selfPendingKEMPriv x)"
proof -
  obtain f rest ck old where a: "network P x started ms" "started = f # rest"
    "opener P x y f ck" "ratchetPub P x \<notin> pubsOf rest" "storeOk y (pubsOf rest)" "dhRemote y = Some old"
    "old \<in> pubsOf rest" "nRecv y \<le> pn x" "chainRecv y = None \<longrightarrow> nRecv y = pn x" "0 < nSend x"
    "chainSend x = (nextChain ^^ unat (nSend x)) (Some ck)"
    "\<forall>m \<in> set ms. held P y (pn x) m \<or> onChain P x f ck m"
    by (rule awaitsE [OF aw])
  have op: "hdrDHPub f = ratchetPub P x" "hdrPN f = pn x" "hdrN f = 0" using a(3) by (simp_all add: opener_def)
  obtain j where j: "j < unat (nSend x)" "hdr = chainHeader f j"
    using bspec [OF a(12) m] nh by (auto simp: onChain_def packetHeader_def)
  have h: "hdrDHPub hdr = ratchetPub P x" "hdrPN hdr = pn x" "hdrN hdr = of_nat j"
    using j op by (simp_all add: chainHeader_def)
  have fresh: "skipped y (ratchetPub P x, n) = None" for n by (rule storeOkD(1) [OF a(5,4)])
  have other: "old \<noteq> ratchetPub P x" using a(4,7) by blast
  with del h a(6) fresh have win: "unat (pn x) \<le> unat (nRecv y) + 1000" "hdrN hdr \<le> MaxSkip"
    and first: "\<And>g. g \<in> set started \<Longrightarrow> hdrDHPub g = ratchetPub P x \<Longrightarrow> hdrMLKEMCiphertext g \<noteq> None \<Longrightarrow> hdrN hdr = 0"
    by (auto simp: deliverable_def)
  define v where "v = (skipOne old ^^ ahead_by (pn x) (nRecv y)) y"
  let ?u = "enterChain hdr (RootKey x) ck v"
  have skip: "skipMessageKeys (pn x) y = (Inr (), v)"
    unfolding v_def by (rule skip_to_limit [OF a(6,8) win(1) a(9)])
  have ro: "receivedOnly y v" unfolding v_def by (rule receivedOnly_skip)
  have "hdrMLKEMCiphertext f = None" if "j \<noteq> 0"
  proof -
    have "hdrN hdr \<noteq> 0" using that j(1) below_32 [of "nSend x"] unat_plus_nat [of 0 j] h(3) by fastforce
    then show ?thesis using first [of f] a(2) op(1) by (cases "hdrMLKEMCiphertext f") auto
  qed
  note run = opener_run [OF ml xl a(3) j(2) this ro]
  have entered: "enterNewKey P hdr y = (Inr (), ?u)"
    using a(6) other h skip run(1) by (simp add: enterNewKey_run tryS_step)
  have ok: "storeOk v (pubsOf rest)"
    unfolding v_def using ahead_by_range [OF a(8)] below_32 [of "pn x"] by (intro skip_storeOk [OF a(5,6,7)]) simp
  have u: "dhRemote ?u = Some (ratchetPub P x)" "nRecv ?u = 0" "chainRecv ?u = Some ck" "skipped ?u = skipped v"
    by (simp_all add: enterChain_def h(1))
  have unknown: "skipped ?u (ratchetPub P x, n) = None" for n
    unfolding u(4) by (rule storeOkD(1) [OF ok a(4)])
  have same: "DecryptMessage P hdr ct ad y = DecryptMessage P hdr ct ad ?u"
    by (rule DecryptMessage_entered [OF entered]) (use h fresh unknown u in simp_all)
  have "\<forall>m' \<in> set ms. held P ?u (nSend x) m'"
    unfolding v_def using entered_held [OF a(3,5,6,8) _ h(1)] a(12) by blast
  moreover have "storeOk ?u (pubsOf started)"
    using ok unknown u by (auto simp: storeOk_def a(2) pubsOf_def)
  moreover have "ratchetPub P x \<in> pubsOf started" by (simp add: a(2) pubsOf_def op(1))
  ultimately have "knows P x ?u started ms"
    using a(1,11) u by (simp add: knows_def ahead_by_def)
  moreover have "deliverable ?u started hdr"
    using u win(2) h(1) by (simp add: deliverable_def word_le_nat_alt)
  ultimately show ?thesis using ro same run(2) by (intro that)
qed

end
