(* ===== verification/LossyChannel.thy ===== *)
theory LossyChannel
  imports RatchetAsync Relayed "HOL-Library.Multiset"
begin

text \<open>
  An established session over a network that loses, delays and reorders messages at will, in both
  directions and over any number of turns, refines an unordered lossy channel of plaintexts, as long
  as the receiver stays within the skip window, no counter wraps and the first message of a
  chain that answers an injection is the one that opens it.
\<close>

section \<open>Both directions\<close>

text \<open>
  \<open>x\<close> started the latest chain. Either \<open>y\<close> has entered it and will start the next one, or it is
  still to do so and goes on sending on the chain \<open>x\<close> knows.
\<close>

definition steady :: "primitives \<Rightarrow> State \<Rightarrow> State \<Rightarrow> Header list \<Rightarrow> Header list \<Rightarrow>
    message list \<Rightarrow> message list \<Rightarrow> bool" where
  "steady P x y sx sy my mx \<longleftrightarrow> \<not> needsNewSendingChain x \<and> needsNewSendingChain y \<and>
     RootKey x = RootKey y \<and> knows P x y sx my \<and> knows P y x sy mx \<and> chainRecv y \<noteq> None \<and>
     peerAdvertisedKEMPub x = None \<and> offers P (peerAdvertisedKEMPub y) (selfPendingKEMPriv x)"

definition turning :: "primitives \<Rightarrow> State \<Rightarrow> State \<Rightarrow> Header list \<Rightarrow> Header list \<Rightarrow>
    message list \<Rightarrow> message list \<Rightarrow> bool" where
  "turning P x y sx sy my mx \<longleftrightarrow> \<not> needsNewSendingChain x \<and> \<not> needsNewSendingChain y \<and>
     awaits P x y sx my \<and> knows P y x sy mx \<and> chainRecv x \<noteq> None \<and>
     peerAdvertisedKEMPub x = None \<and> peerAdvertisedKEMPub y = None"

lemma u32_less_next: "(n :: u32) + 1 \<noteq> 0 \<Longrightarrow> n < n + 1"
  by unat_arith

lemma knows_advanceSend: "knows P y (advanceSend x) started ms = knows P y x started ms"
  by (rule knows_cong) simp_all

lemma knows_received: "receivedOnly y y' \<Longrightarrow> knows P y' x started ms = knows P y x started ms"
  by (rule knows_cong) (simp_all add: receivedOnly_frame)

lemma awaits_received: "receivedOnly y y' \<Longrightarrow> awaits P y' x started ms = awaits P y x started ms"
  by (rule awaits_cong) (simp_all add: receivedOnly_frame)

lemma awaits_advanceSend: "awaits P x (advanceSend y) started ms = awaits P x y started ms"
  by (rule awaits_cong) simp_all

lemma steady_send:
  "steady P x y sx sy my mx \<Longrightarrow> nSend x + 1 \<noteq> 0 \<Longrightarrow>
     steady P (advanceSend x) y sx sy (my @ [(sealedNext P x pt ad, pt)]) mx"
  unfolding steady_def by (auto simp: knows_advanceSend intro!: knows_send u32_less_next)

lemma turning_send:
  "turning P x y sx sy my mx \<Longrightarrow> nSend x + 1 \<noteq> 0 \<Longrightarrow>
     turning P (advanceSend x) y sx sy (my @ [(sealedNext P x pt ad, pt)]) mx"
  "turning P x y sx sy my mx \<Longrightarrow> nSend y + 1 \<noteq> 0 \<Longrightarrow>
     turning P x (advanceSend y) sx sy my (mx @ [(sealedNext P y pt ad, pt)])"
  unfolding turning_def
  by (auto simp: knows_advanceSend awaits_advanceSend intro!: knows_send awaits_send u32_less_next)

lemma steady_start:
  assumes laws: "x25519_laws P" and len: "length (dhSelf x) = 32" and st: "steady P x y sx sy my mx"
    and new: "newChainResult P y dhOut ss ck hdr y'" and fresh: "hdrDHPub hdr \<notin> pubsOf sy"
    and ct: "ct = chacha_seal P (messageKey (Some ck)) zeroNonce pt (associatedDataWithHeader hdr ad)"
  shows "turning P y' x (hdr # sy) sx (mx @ [(((hdr, ct), ad), pt)]) my"
proof -
  note s = st [unfolded steady_def] and n = new [unfolded newChainResult_def]
  have kn: "knows P y x sy mx" and root: "RootKey x = RootKey y" and remote: "dhRemote y = Some (ratchetPub P x)"
    and off: "offers P (peerAdvertisedKEMPub y) (selfPendingKEMPriv x)" and kx: "knows P x y sx my"
    using s by (simp_all add: knows_def)
  have "awaits P y' x (hdr # sy) (mx @ [(((hdr, ct), ad), pt)])"
    by (rule knows_start [OF laws kn len root remote off new fresh ct])
  moreover have "knows P x y' sx my = knows P x y sx my" by (rule knows_cong) (use n in simp_all)
  ultimately show ?thesis using s n kx by (simp add: turning_def)
qed

lemma steady_deliver:
  assumes al: "aead_laws P"
  shows "steady P x y sx sy (ms @ (((hdr, ct), ad), pt) # ns) mx \<Longrightarrow> deliverable y sx hdr \<Longrightarrow>
      \<exists>y'. DecryptMessage P hdr ct ad y = (Inr pt, y') \<and> receivedOnly y y' \<and> steady P x y' sx sy (ms @ ns) mx"
    and "steady P x y sx sy my (ms @ (((hdr, ct), ad), pt) # ns) \<Longrightarrow> deliverable x sy hdr \<Longrightarrow>
      \<exists>x'. DecryptMessage P hdr ct ad x = (Inr pt, x') \<and> receivedOnly x x' \<and> steady P x' y sx sy my (ms @ ns)"
proof -
  assume st: "steady P x y sx sy (ms @ (((hdr, ct), ad), pt) # ns) mx" and del: "deliverable y sx hdr"
  then have "knows P x y sx (ms @ (((hdr, ct), ad), pt) # ns)" by (simp add: steady_def)
  then obtain y' where y': "DecryptMessage P hdr ct ad y = (Inr pt, y')" "receivedOnly y y'"
    "knows P x y' sx (ms @ ns)" "chainRecv y' = None \<longrightarrow> chainRecv y = None"
    using knows_deliver [OF al _ del] by blast
  then have "steady P x y' sx sy (ms @ ns) mx"
    using st by (auto simp: steady_def knows_received receivedOnly_frame)
  with y' show "\<exists>y'. DecryptMessage P hdr ct ad y = (Inr pt, y') \<and> receivedOnly y y' \<and>
      steady P x y' sx sy (ms @ ns) mx" by blast
next
  assume st: "steady P x y sx sy my (ms @ (((hdr, ct), ad), pt) # ns)" and del: "deliverable x sy hdr"
  then have "knows P y x sy (ms @ (((hdr, ct), ad), pt) # ns)" by (simp add: steady_def)
  then obtain x' where x': "DecryptMessage P hdr ct ad x = (Inr pt, x')" "receivedOnly x x'"
    "knows P y x' sy (ms @ ns)" "chainRecv x' = None \<longrightarrow> chainRecv x = None"
    using knows_deliver [OF al _ del] by blast
  then have "steady P x' y sx sy my (ms @ ns)"
    using st by (auto simp: steady_def knows_received receivedOnly_frame)
  with x' show "\<exists>x'. DecryptMessage P hdr ct ad x = (Inr pt, x') \<and> receivedOnly x x' \<and>
      steady P x' y sx sy my (ms @ ns)" by blast
qed

lemma turning_deliver_known:
  assumes al: "aead_laws P" and tr: "turning P x y sx sy my (ms @ (((hdr, ct), ad), pt) # ns)"
    and del: "deliverable x sy hdr"
  shows "\<exists>x'. DecryptMessage P hdr ct ad x = (Inr pt, x') \<and> receivedOnly x x' \<and> turning P x' y sx sy my (ms @ ns)"
proof -
  have "knows P y x sy (ms @ (((hdr, ct), ad), pt) # ns)" using tr by (simp add: turning_def)
  then obtain x' where x': "DecryptMessage P hdr ct ad x = (Inr pt, x')" "receivedOnly x x'"
    "knows P y x' sy (ms @ ns)" "chainRecv x' = None \<longrightarrow> chainRecv x = None"
    using knows_deliver [OF al _ del] by blast
  then have "turning P x' y sx sy my (ms @ ns)"
    using tr by (auto simp: turning_def awaits_received receivedOnly_frame)
  with x' show ?thesis by blast
qed

lemma turning_deliver:
  assumes laws: "lawful P" and len: "length (dhSelf x) = 32"
    and tr: "turning P x y sx sy (ms @ (((hdr, ct), ad), pt) # ns) mx" and del: "deliverable y sx hdr"
  shows "\<exists>y'. DecryptMessage P hdr ct ad y = (Inr pt, y') \<and> dhSelf y' = dhSelf y \<and>
    (turning P x y' sx sy (ms @ ns) mx \<or> steady P x y' sx sy (ms @ ns) mx)"
proof -
  have al: "aead_laws P" and ml: "mlkem_laws P" and xl: "x25519_laws P"
    using laws by (simp_all add: lawful_def)
  note t = tr [unfolded turning_def]
  then have aw: "awaits P x y sx (ms @ (((hdr, ct), ad), pt) # ns)" by blast
  show ?thesis
  proof (cases "held P y (pn x) (((hdr, ct), ad), pt)")
    case True
    obtain y' where "DecryptMessage P hdr ct ad y = (Inr pt, y')" "receivedOnly y y'"
      "awaits P x y' sx (ms @ ns)"
      by (rule awaits_deliver [OF al aw True del])
    moreover from this have "turning P x y' sx sy (ms @ ns) mx"
      using t by (simp add: turning_def knows_received receivedOnly_frame)
    ultimately show ?thesis by (auto simp: receivedOnly_frame)
  next
    case False
    obtain v ck where v: "receivedOnly y v"
      "DecryptMessage P hdr ct ad y = DecryptMessage P hdr ct ad (enterChain hdr (RootKey x) ck v)"
      "knows P x (enterChain hdr (RootKey x) ck v) sx (ms @ (((hdr, ct), ad), pt) # ns)"
      "deliverable (enterChain hdr (RootKey x) ck v) sx hdr"
      "offers P (hdrMLKEMPub hdr) (selfPendingKEMPriv x)"
      by (rule awaits_enter [OF ml xl len aw _ False del]) simp
    let ?u = "enterChain hdr (RootKey x) ck v"
    obtain y' where y': "DecryptMessage P hdr ct ad ?u = (Inr pt, y')" "receivedOnly ?u y'"
      "knows P x y' sx (ms @ ns)" "chainRecv y' = None \<longrightarrow> chainRecv ?u = None"
      by (rule knows_deliver [OF al v(3,4)])
    note fr = receivedOnly_frame [OF v(1)] receivedOnly_frame [OF y'(2)]
    have u: "dhSelf ?u = dhSelf v" "nSend ?u = nSend v" "chainSend ?u = chainSend v" "RootKey ?u = RootKey x"
      "needsNewSendingChain ?u" "chainRecv ?u = Some ck" "peerAdvertisedKEMPub ?u = hdrMLKEMPub hdr"
      using t fr by (simp_all add: enterChain_def split: option.split)
    have "knows P y' x sy mx = knows P y x sy mx"
      by (rule knows_cong) (simp_all add: fr u)
    then have "steady P x y' sx sy (ms @ ns) mx"
      using t v(5) y'(3,4) by (simp add: steady_def fr u)
    with y'(1) v(2) show ?thesis by (auto simp: fr u)
  qed
qed

section \<open>The specification: an unordered lossy channel\<close>

datatype channelEvent = Sends party bytes | Gets party "fault + bytes" | Loses party bytes

text \<open>The plaintexts on their way to each party.\<close>

inductive lossyStep ::
  "(party \<Rightarrow> bytes multiset) \<Rightarrow> channelEvent \<Rightarrow> (party \<Rightarrow> bytes multiset) \<Rightarrow> bool" where
  lossySends: "lossyStep q (Sends p pt) (q(peer p := add_mset pt (q (peer p))))"
| lossyGets: "pt \<in># q p \<Longrightarrow> lossyStep q (Gets p (Inr pt)) (q(p := q p - {#pt#}))"
| lossyLoses: "pt \<in># q p \<Longrightarrow> lossyStep q (Loses p pt) (q(p := q p - {#pt#}))"

section \<open>The implementation: two ratchets and a network\<close>

record async =
  aState :: "party \<Rightarrow> State"
  aNet :: "party \<Rightarrow> message list"
  aStarted :: "party \<Rightarrow> Header list"

text \<open>
  A send that succeeds, with the counter not wrapping and a new chain under a new ratchet key; the
  delivery of any message the skip window allows; a loss.
\<close>

inductive asyncStep :: "primitives \<Rightarrow> async \<Rightarrow> channelEvent \<Rightarrow> async \<Rightarrow> bool" for P where
  asyncSends: "EncryptMessage P pt ad (aState c p, w) = (Inr m, (s, w')) \<Longrightarrow> nSend s \<noteq> 0 \<Longrightarrow>
    (needsNewSendingChain (aState c p) \<longrightarrow> hdrDHPub (fst m) \<notin> pubsOf (aStarted c p)) \<Longrightarrow>
    asyncStep P c (Sends p pt) (c\<lparr>aState := (aState c)(p := s),
      aNet := (aNet c)(peer p := aNet c (peer p) @ [((m, ad), pt)]),
      aStarted := (aStarted c)(p := (if needsNewSendingChain (aState c p) then [fst m] else []) @ aStarted c p)\<rparr>)"
| asyncGets: "aNet c p = ms @ ((m, ad), pt) # ns \<Longrightarrow>
    deliverable (aState c p) (aStarted c (peer p)) (fst m) \<Longrightarrow>
    receivePacket P m ad (aState c p) = (r, s) \<Longrightarrow>
    asyncStep P c (Gets p r) (c\<lparr>aState := (aState c)(p := s), aNet := (aNet c)(p := ms @ ns)\<rparr>)"
| asyncLoses: "aNet c p = ms @ ((m, ad), pt) # ns \<Longrightarrow>
    asyncStep P c (Loses p pt) (c\<lparr>aNet := (aNet c)(p := ms @ ns)\<rparr>)"

definition startAsync :: "primitives \<Rightarrow> State \<Rightarrow> State \<Rightarrow> async" where
  "startAsync P a b = \<lparr>aState = case_party a b, aNet = \<lambda>_. [],
     aStarted = \<lambda>p. [plainHeader P (case_party a b p)]\<rparr>"

definition inTransit :: "async \<Rightarrow> party \<Rightarrow> bytes multiset" where
  "inTransit c p = mset (map snd (aNet c p))"

definition joined :: "primitives \<Rightarrow> party \<Rightarrow> async \<Rightarrow> bool" where
  "joined P p c \<longleftrightarrow>
     steady P (aState c p) (aState c (peer p)) (aStarted c p) (aStarted c (peer p)) (aNet c (peer p)) (aNet c p) \<or>
     turning P (aState c p) (aState c (peer p)) (aStarted c p) (aStarted c (peer p)) (aNet c (peer p)) (aNet c p)"

definition asyncOk :: "primitives \<Rightarrow> async \<Rightarrow> bool" where
  "asyncOk P c \<longleftrightarrow> (\<forall>p. length (dhSelf (aState c p)) = 32) \<and> (\<exists>p. joined P p c)"

section \<open>The refinement\<close>

lemma joined_cases:
  assumes "asyncOk P c"
  obtains (steady_lead) "steady P (aState c p) (aState c (peer p)) (aStarted c p) (aStarted c (peer p))
        (aNet c (peer p)) (aNet c p)"
    | (steady_follow) "steady P (aState c (peer p)) (aState c p) (aStarted c (peer p)) (aStarted c p)
        (aNet c p) (aNet c (peer p))"
    | (turning_lead) "turning P (aState c p) (aState c (peer p)) (aStarted c p) (aStarted c (peer p))
        (aNet c (peer p)) (aNet c p)"
    | (turning_follow) "turning P (aState c (peer p)) (aState c p) (aStarted c (peer p)) (aStarted c p)
        (aNet c p) (aNet c (peer p))"
proof -
  obtain r where "joined P r c" using assms by (auto simp: asyncOk_def)
  moreover have "r = p \<or> r = peer p" using other_party by blast
  ultimately have "joined P p c \<or> joined P (peer p) c" by blast
  then show ?thesis unfolding joined_def peer_peer by (elim disjE) (erule that)+
qed

lemma asyncOkI:
  assumes "length (dhSelf (aState c p)) = 32" and "length (dhSelf (aState c (peer p))) = 32" and "joined P r c"
  shows "asyncOk P c"
proof -
  have "length (dhSelf (aState c q)) = 32" for q
  proof (cases "q = p")
    case False
    then have "q = peer p" by (rule other_party)
    with assms(2) show ?thesis by simp
  qed (simp add: assms(1))
  with assms(3) show ?thesis by (auto simp: asyncOk_def)
qed

lemma async_send:
  assumes laws: "lawful P" and ok: "asyncOk P c"
    and enc: "EncryptMessage P pt ad (aState c p, w) = (Inr m, (s, w'))" and cnt: "nSend s \<noteq> 0"
    and fresh: "needsNewSendingChain (aState c p) \<longrightarrow> hdrDHPub (fst m) \<notin> pubsOf (aStarted c p)"
  shows "asyncOk P (c\<lparr>aState := (aState c)(p := s),
      aNet := (aNet c)(peer p := aNet c (peer p) @ [((m, ad), pt)]),
      aStarted := (aStarted c)(p := (if needsNewSendingChain (aState c p) then [fst m] else []) @ aStarted c p)\<rparr>)"
    (is "asyncOk P ?c")
proof -
  have len: "length (dhSelf (aState c p)) = 32" "length (dhSelf (aState c (peer p))) = 32"
    using ok by (simp_all add: asyncOk_def)
  have cont: "s = advanceSend (aState c p)" "(m, ad) = sealedNext P (aState c p) pt ad"
    if "\<not> needsNewSendingChain (aState c p)"
    using enc EncryptMessage_continue [OF that, of P pt ad w] by (auto simp: sealedNext_def)
  from ok show ?thesis
  proof (cases rule: joined_cases [where p = p])
    case steady_lead
    then have n: "\<not> needsNewSendingChain (aState c p)" by (simp add: steady_def)
    note c = cont [OF n]
    have "joined P p ?c" using steady_send [OF steady_lead, of pt ad] c cnt n by (simp add: joined_def)
    then show ?thesis by (rule asyncOkI [where p = p, rotated 2]) (simp_all add: c len)
  next
    case steady_follow
    then have n: "needsNewSendingChain (aState c p)" by (simp add: steady_def)
    obtain hdr ct where m: "m = (hdr, ct)" by (cases m)
    have ml: "mlkem_laws P" and xl: "x25519_laws P" using laws by (simp_all add: lawful_def)
    obtain dhOut ss ck where r: "newChainResult P (aState c p) dhOut ss ck hdr s"
      "ct = chacha_seal P (messageKey (Some ck)) zeroNonce pt (associatedDataWithHeader hdr ad)"
      using EncryptMessage_newChain [OF ml n enc [unfolded m]] by metis
    have "joined P p ?c"
      using steady_start [OF xl len(2) steady_follow r(1) _ r(2)] fresh n by (simp add: joined_def m)
    moreover have "length (dhSelf s) = 32" using r(1) by (simp add: newChainResult_def)
    ultimately show ?thesis by (intro asyncOkI [where p = p and r = p]) (simp_all add: len)
  next
    case turning_lead
    then have n: "\<not> needsNewSendingChain (aState c p)" by (simp add: turning_def)
    note c = cont [OF n]
    have "joined P p ?c" using turning_send(1) [OF turning_lead, of pt ad] c cnt n by (simp add: joined_def)
    then show ?thesis by (rule asyncOkI [where p = p, rotated 2]) (simp_all add: c len)
  next
    case turning_follow
    then have n: "\<not> needsNewSendingChain (aState c p)" by (simp add: turning_def)
    note c = cont [OF n]
    have "joined P (peer p) ?c" using turning_send(2) [OF turning_follow, of pt ad] c cnt n by (simp add: joined_def)
    then show ?thesis by (rule asyncOkI [where p = p, rotated 2]) (simp_all add: c len)
  qed
qed

lemma async_deliver:
  assumes laws: "lawful P" and ok: "asyncOk P c" and net: "aNet c p = ms @ (((hdr, ct), ad), pt) # ns"
    and del: "deliverable (aState c p) (aStarted c (peer p)) hdr"
  shows "\<exists>s. DecryptMessage P hdr ct ad (aState c p) = (Inr pt, s) \<and>
    asyncOk P (c\<lparr>aState := (aState c)(p := s), aNet := (aNet c)(p := ms @ ns)\<rparr>)"
proof -
  have al: "aead_laws P" using laws by (simp add: lawful_def)
  have len: "length (dhSelf (aState c p)) = 32" "length (dhSelf (aState c (peer p))) = 32"
    using ok by (simp_all add: asyncOk_def)
  let ?c = "\<lambda>s. c\<lparr>aState := (aState c)(p := s), aNet := (aNet c)(p := ms @ ns)\<rparr>"
  have fin: ?thesis if "DecryptMessage P hdr ct ad (aState c p) = (Inr pt, s)"
    "dhSelf s = dhSelf (aState c p)" "joined P r (?c s)" for s r
    using that(1,2) asyncOkI [where p = p, OF _ _ that(3)] len by (intro exI [of _ s]) simp
  from ok show ?thesis
  proof (cases rule: joined_cases [where p = p])
    case steady_lead
    from steady_deliver(2) [OF al steady_lead [unfolded net] del] obtain s where
      "DecryptMessage P hdr ct ad (aState c p) = (Inr pt, s)" "receivedOnly (aState c p) s"
      "steady P s (aState c (peer p)) (aStarted c p) (aStarted c (peer p)) (aNet c (peer p)) (ms @ ns)" by blast
    then show ?thesis by (intro fin [of s p]) (simp_all add: receivedOnly_frame joined_def)
  next
    case steady_follow
    from steady_deliver(1) [OF al steady_follow [unfolded net] del] obtain s where
      "DecryptMessage P hdr ct ad (aState c p) = (Inr pt, s)" "receivedOnly (aState c p) s"
      "steady P (aState c (peer p)) s (aStarted c (peer p)) (aStarted c p) (ms @ ns) (aNet c (peer p))" by blast
    then show ?thesis by (intro fin [of s "peer p"]) (simp_all add: receivedOnly_frame joined_def)
  next
    case turning_lead
    from turning_deliver_known [OF al turning_lead [unfolded net] del] obtain s where
      "DecryptMessage P hdr ct ad (aState c p) = (Inr pt, s)" "receivedOnly (aState c p) s"
      "turning P s (aState c (peer p)) (aStarted c p) (aStarted c (peer p)) (aNet c (peer p)) (ms @ ns)" by blast
    then show ?thesis by (intro fin [of s p]) (simp_all add: receivedOnly_frame joined_def)
  next
    case turning_follow
    from turning_deliver [OF laws len(2) turning_follow [unfolded net] del] obtain s where
      "DecryptMessage P hdr ct ad (aState c p) = (Inr pt, s)" "dhSelf s = dhSelf (aState c p)"
      "turning P (aState c (peer p)) s (aStarted c (peer p)) (aStarted c p) (ms @ ns) (aNet c (peer p)) \<or>
       steady P (aState c (peer p)) s (aStarted c (peer p)) (aStarted c p) (ms @ ns) (aNet c (peer p))" by blast
    then show ?thesis by (intro fin [of s "peer p"]) (auto simp: joined_def)
  qed
qed

lemma steady_drop:
  "steady P x y sx sy (ms @ m # ns) mx \<Longrightarrow> steady P x y sx sy (ms @ ns) mx"
  "steady P x y sx sy my (ms @ m # ns) \<Longrightarrow> steady P x y sx sy my (ms @ ns)"
  by (auto simp: steady_def intro: knows_drop)

lemma turning_drop:
  "turning P x y sx sy (ms @ m # ns) mx \<Longrightarrow> turning P x y sx sy (ms @ ns) mx"
  "turning P x y sx sy my (ms @ m # ns) \<Longrightarrow> turning P x y sx sy my (ms @ ns)"
  by (auto simp: turning_def intro: knows_drop awaits_drop)

lemma async_lose:
  assumes ok: "asyncOk P c" and net: "aNet c p = ms @ m # ns"
  shows "asyncOk P (c\<lparr>aNet := (aNet c)(p := ms @ ns)\<rparr>)"
proof -
  obtain r where r: "joined P r c" using ok by (auto simp: asyncOk_def)
  have "joined P r (c\<lparr>aNet := (aNet c)(p := ms @ ns)\<rparr>)"
  proof (cases "r = p")
    case True
    with r show ?thesis by (auto simp: joined_def net dest: steady_drop(2) turning_drop(2))
  next
    case False
    then have p: "p = peer r" by (intro other_party) simp
    from r show ?thesis unfolding p joined_def
      by (auto simp: net [unfolded p] dest: steady_drop(1) turning_drop(1))
  qed
  with ok show ?thesis by (auto simp: asyncOk_def)
qed

interpretation async: simulation "asyncStep P" lossyStep
  "\<lambda>c q. lawful P \<and> asyncOk P c \<and> q = inTransit c"
  for P
proof unfold_locales
  fix c c' :: async and q l
  assume rel: "lawful P \<and> asyncOk P c \<and> q = inTransit c" and "asyncStep P c l c'"
  from this(2) show "\<exists>q'. lossyStep q l q' \<and> lawful P \<and> asyncOk P c' \<and> q' = inTransit c'"
  proof cases
    case (asyncSends pt ad p w m s w')
    have "asyncOk P c'" unfolding asyncSends by (rule async_send) (use rel asyncSends in auto)
    moreover have "inTransit c' = (inTransit c)(peer p := add_mset pt (inTransit c (peer p)))"
      by (rule ext) (simp add: asyncSends inTransit_def)
    ultimately show ?thesis using rel lossySends [of "inTransit c" p pt] asyncSends(1) by auto
  next
    case (asyncGets p ms m ad pt ns r s)
    obtain hdr ct where m: "m = (hdr, ct)" by (cases m)
    from async_deliver [of P c p ms hdr ct ad pt ns] rel asyncGets m
    have "r = Inr pt" "asyncOk P c'" by (auto simp: receivePacket_def)
    moreover have "pt \<in># inTransit c p" "inTransit c' = (inTransit c)(p := inTransit c p - {#pt#})"
      by (auto simp: asyncGets inTransit_def)
    ultimately show ?thesis using rel lossyGets [of pt "inTransit c" p] asyncGets(1) by auto
  next
    case (asyncLoses p ms m ad pt ns)
    have "asyncOk P c'" unfolding asyncLoses by (rule async_lose) (use rel asyncLoses in auto)
    moreover have "pt \<in># inTransit c p" "inTransit c' = (inTransit c)(p := inTransit c p - {#pt#})"
      by (auto simp: asyncLoses inTransit_def)
    ultimately show ?thesis using rel lossyLoses [of pt "inTransit c" p] asyncLoses(1) by auto
  qed
qed

section \<open>The start\<close>

lemma dhRatchet_turns: "dhRatchetStep P hdr s = (Inr (), s') \<Longrightarrow> needsNewSendingChain s'"
  by (auto simp: dhRatchetStep_def tryS_Inr)

lemma skip_keeps_turn: "skipMessageKeys u s = (r, t) \<Longrightarrow> needsNewSendingChain t = needsNewSendingChain s"
  by (auto simp: skipMessageKeys_def receivedOnly_frame(7) [OF receivedOnly_skipLoop] split: if_splits option.splits)

lemma first_message_turns:
  assumes b: "InitBob key priv wB = (Inr b0, wB')" and d: "DecryptMessage P hdr ct ad b0 = (Inr pt, b)"
  shows "needsNewSendingChain b"
proof -
  note b0 = InitBob_Inr [OF b]
  obtain mk where "receivingKey P hdr b0 = (Inr mk, b)"
    using d b0 by (auto simp: DecryptMessage_cases split: prod.splits sum.splits)
  then obtain t u where "dhRatchetStep P hdr b0 = (Inr (), t)" "skipMessageKeys (hdrN hdr) t = (Inr (), u)"
    "b = advanceRecv u"
    using b0 by (auto simp: receivingKey_def enterNewKey_run tryS_Inr nextRecvKey_run)
  with skip_keeps_turn dhRatchet_turns show ?thesis by simp
qed

lemma balanced_steady:
  assumes "balanced P a b [] [] [] []" and "wellKeyed a" "wellKeyed b" and "chainSend a \<noteq> None"
  shows "asyncOk P (startAsync P a b)"
proof -
  have "knows P x y [plainHeader P x] []" if "synced P x y [] []" "wellKeyed y" for x y
    using that by (simp add: knows_def synced_def network_def pubsOf_def plainHeader_def ratchetPub_def
        storeOk_def wellKeyed_def ahead_by_def)
  then have "steady P a b [plainHeader P a] [plainHeader P b] [] []"
    using assms by (auto simp: steady_def balanced_def synced_def advertises_def offers_def)
  then have "joined P Initiator (startAsync P a b)" by (simp add: joined_def startAsync_def)
  then show ?thesis
    using assms(2,3) by (intro asyncOkI [where p = Initiator]) (simp_all add: startAsync_def wellKeyed_def)
qed

lemma established_balanced:
  assumes laws: "lawful P" and bob: "identity_Generate P w0 = (Inr bob, w1)"
    and batch: "GenerateBatch P bob sz w2 = (Inr batch, w3)"
    and bd: "batch_Bundle batch i = Inr bundle" and priv: "batch_PrivateKey batch i = Inr priv"
    and alice: "EstablishAsInitiator P alice (identity_Public bob) bundle pt w = (Inr (a, msg), w')"
    and resp: "EstablishAsResponder P bob bundle priv msg wB = (Inr (b, pt'), wB')"
  shows "balanced P a b [] [] [] []" and "wellKeyed a" and "wellKeyed b"
proof -
  have pr: "paired P (case_party a b) (\<lambda>_. []) (\<lambda>_. [])"
    using established_paired [OF laws bob batch bd priv alice resp] by blast
  obtain k b0 v v' where "InitBob k (privX25519 priv) v = (Inr b0, v')"
    "DecryptMessage P (imHeader msg) (imCiphertext msg) [] b0 = (Inr pt', b)"
    using resp by (auto simp: EstablishAsResponder_def tryS_Inr onNew_Inr liftT_Inr)
  then have nb: "needsNewSendingChain b" by (rule first_message_turns)
  note na = initiator_keeps_chain [OF alice]
  from pr show "balanced P a b [] [] [] []"
    by (cases rule: paired_cases [where p = Initiator]) (use na nb in \<open>simp_all add: balanced_def ahead_def\<close>)
  show "wellKeyed a" "wellKeyed b" using pr by (auto simp: paired_def split: party.splits)
qed

section \<open>Properties\<close>

text \<open>
  C5: the ratchet is an unordered lossy channel. After Bob has accepted the message with which Alice
  established a session on one of his bundles, let both send any number of messages, turn after turn,
  while the network reorders, delays and loses them at will in both directions. As long as
  no message arrives further ahead than \<open>MaxSkip\<close>, no counter wraps, ratchet keys are not repeated, and
  a chain that answers an ML-KEM injection is opened by its first message, every run is a run of the
  channel that keeps a multiset of plaintexts per party: \<open>DecryptMessage\<close> returns each delivered
  message's plaintext, never an error, and what is left is what was sent and neither received nor lost.
\<close>

theorem ratchet_refines_lossy_channel:
  assumes "lawful P" and "identity_Generate P w0 = (Inr bob, w1)"
    and "GenerateBatch P bob sz w2 = (Inr batch, w3)"
    and "batch_Bundle batch i = Inr bundle" and "batch_PrivateKey batch i = Inr priv"
    and "EstablishAsInitiator P alice (identity_Public bob) bundle pt w = (Inr (a, msg), w')"
    and "EstablishAsResponder P bob bundle priv msg wB = (Inr (b, pt'), wB')"
    and "trace (asyncStep P) (startAsync P a b) events c"
  shows "trace lossyStep (\<lambda>_. {#}) events (inTransit c)"
proof -
  have "inTransit (startAsync P a b) = (\<lambda>_. {#})"
    by (rule ext) (simp add: inTransit_def startAsync_def)
  then have "lawful P \<and> asyncOk P (startAsync P a b) \<and> (\<lambda>_. {#}) = inTransit (startAsync P a b)"
    using balanced_steady [OF established_balanced [OF assms(1-7)] initiator_keeps_chain(2) [OF assms(6)]]
      assms(1) by simp
  from async.trace_simulated [OF assms(8) this] show ?thesis by blast
qed

lemma asyncSends_continue:
  assumes n: "\<not> needsNewSendingChain (aState c p)" and cnt: "nSend (aState c p) + 1 \<noteq> 0"
  shows "asyncStep P c (Sends p pt) (c\<lparr>aState := (aState c)(p := advanceSend (aState c p)),
    aNet := (aNet c)(peer p := aNet c (peer p) @ [(sealedNext P (aState c p) pt ad, pt)])\<rparr>)"
proof -
  obtain m where m: "sealedNext P (aState c p) pt ad = (m, ad)"
    "EncryptMessage P pt ad (aState c p, w) = (Inr m, (advanceSend (aState c p), w))" for w
    using EncryptMessage_continue [OF n] by (simp add: sealedNext_def)
  from asyncSends [OF m(2)] n cnt show ?thesis by (fastforce simp: m(1))
qed

lemma ratchet_refines_lossy_channel_witness:
  "\<exists>a b c. trace (asyncStep demoPrimitives) (startAsync demoPrimitives a b)
     [Sends Initiator [7], Sends Initiator [8], Gets Responder (Inr [8])] c \<and>
     inTransit c Responder = {#[7]#}"
proof (rule demo_established, goal_cases)
  case (1 bob w1 batch w3 bd a msg w' b wB')
  let ?P = demoPrimitives
  note bal = established_balanced [OF demo_lawful 1] and n = initiator_keeps_chain [OF 1(5)]
  have pub: "dhRemote b = Some (ratchetPub ?P a)" "nRecv b = 1"
    using bal(1) n(3) by (simp_all add: balanced_def synced_def)
  let ?m1 = "sealedNext ?P a [7] []" and ?m2 = "sealedNext ?P (advanceSend a) [8] []"
  define start where "start = startAsync ?P a b"
  define one where "one = start\<lparr>aState := (aState start)(Initiator := advanceSend a),
    aNet := (aNet start)(Responder := [(?m1, [7])])\<rparr>"
  define two where "two = one\<lparr>aState := (aState one)(Initiator := advanceSend (advanceSend a)),
    aNet := (aNet one)(Responder := [(?m1, [7]), (?m2, [8])])\<rparr>"
  obtain r s where rec: "receivePacket ?P (fst ?m2) [] b = (r, s)" by (metis prod.exhaust)
  define three where "three = two\<lparr>aState := (aState two)(Responder := s), aNet := (aNet two)(Responder := [(?m1, [7])])\<rparr>"
  have "asyncStep ?P start (Sends Initiator [7]) one"
    using asyncSends_continue [of start Initiator ?P "[7]" "[]"] n by (simp add: start_def one_def startAsync_def)
  moreover have "asyncStep ?P one (Sends Initiator [8]) two"
    using asyncSends_continue [of one Initiator ?P "[8]" "[]"] n
    by (simp add: start_def one_def two_def startAsync_def)
  moreover have "asyncStep ?P two (Gets Responder r) three"
  proof -
    have "?m2 = (fst ?m2, [])" by (simp add: sealedNext_def)
    then have "aNet two Responder = [(?m1, [7])] @ ((fst ?m2, []), [8]) # []" by (simp add: two_def)
    moreover have "deliverable (aState two Responder) (aStarted two (peer Responder)) (fst (fst ?m2))"
      using pub n by (simp add: two_def one_def start_def startAsync_def deliverable_def sealedNext_def
          plainHeader_def ratchetPub_def)
    moreover have "receivePacket ?P (fst ?m2) [] (aState two Responder) = (r, s)"
      using rec by (simp add: two_def one_def start_def startAsync_def)
    ultimately have "asyncStep ?P two (Gets Responder r)
        (two\<lparr>aState := (aState two)(Responder := s), aNet := (aNet two)(Responder := [(?m1, [7])] @ [])\<rparr>)"
      by (rule asyncGets)
    then show ?thesis by (simp add: three_def)
  qed
  ultimately have run: "trace (asyncStep ?P) (startAsync ?P a b)
      [Sends Initiator [7], Sends Initiator [8], Gets Responder r] three"
    unfolding start_def by (blast intro: trace.intros)
  have left: "inTransit three Responder = {#[7]#}" by (simp add: inTransit_def three_def)
  have "trace lossyStep (\<lambda>_. {#}) [Sends Initiator [7], Sends Initiator [8], Gets Responder r] (inTransit three)"
    by (rule ratchet_refines_lossy_channel [OF demo_lawful 1 run])
  then have "r = Inr [8]" using left
    by (auto simp: trace_Cons_iff lossyStep.simps)
  with run left show ?case by blast
qed

end
