(* ===== verification/RelayedLoss.thy ===== *)
theory RelayedLoss
  imports LossyChannel "HOL-Library.Sublist"
begin

text \<open>
  Two established clients that converse through the relay while the relay purges messages that
  waited too long: ratchet, wire format, queues and \<open>PurgeExpired\<close> together.
\<close>

section \<open>Clients, relay and purges\<close>

record mailed = relayed +
  rcStarted :: "party \<Rightarrow> Header list"

text \<open>What a poll returns is deliverable, each message when its turn comes.\<close>

fun openable :: "primitives \<Rightarrow> Header list \<Rightarrow> QueuedMessage list \<Rightarrow> State \<Rightarrow> bool" where
  "openable P started [] s = True"
| "openable P started (m # ms) s =
     (case UnmarshalEnvelope (Envelope m) of
        Inr (SubsequentEnvelope sm) \<Rightarrow> deliverable s started (smHeader sm) \<and>
          openable P started ms (snd (DecryptMessage P (smHeader sm) (smCiphertext sm) [] s))
      | _ \<Rightarrow> openable P started ms s)"

datatype mailedEvent =
    MSend party bytes
  | MPoll party
  | MCall "relayOp \<times> reply"

text \<open>
  As in \<open>relayedStep\<close>, but the other calls now include every purge; they leave out
  messages from elsewhere to the two users, and polls in their name.
\<close>

inductive mailedStep ::
  "primitives \<Rightarrow> (party \<Rightarrow> gostring) \<Rightarrow> mailed \<Rightarrow> mailedEvent \<Rightarrow> mailed \<Rightarrow> bool" for P name where
  mailedSend: "EncryptMessage P pt [] (rcState c p, rcWorld c p) = (Inr (hdr, ct), (s, w)) \<Longrightarrow>
    nSend s \<noteq> 0 \<Longrightarrow> fitsField ct \<Longrightarrow>
    (needsNewSendingChain (rcState c p) \<longrightarrow> hdrDHPub hdr \<notin> pubsOf (rcStarted c p)) \<Longrightarrow>
    relayStep (rcRelay c) (DoSend (name (peer p)) (name p) (envelopeOf hdr ct), Done) r \<Longrightarrow>
    mailedStep P name c (MSend p pt)
      (c\<lparr>rcState := (rcState c)(p := s), rcWorld := (rcWorld c)(p := w), rcRelay := r,
         rcSent := (rcSent c)(p := rcSent c p @ [pt]),
         rcStarted := (rcStarted c)(p := (if needsNewSendingChain (rcState c p) then [hdr] else []) @ rcStarted c p)\<rparr>)"
| mailedPoll: "relayStep (rcRelay c) (DoPoll (name p), GotMessages msgs) r \<Longrightarrow>
    openable P (rcStarted c (peer p)) msgs (rcState c p) \<Longrightarrow>
    openAll P msgs (rcState c p) = (results, s) \<Longrightarrow>
    mailedStep P name c (MPoll p)
      (c\<lparr>rcState := (rcState c)(p := s), rcRelay := r, rcGot := (rcGot c)(p := rcGot c p @ results)\<rparr>)"
| mailedCall: "relayStep (rcRelay c) l r \<Longrightarrow>
    \<forall>p. concernsMail (name p) l \<longrightarrow> (\<exists>now ttl n. l = (DoPurge now ttl, Purged n)) \<Longrightarrow>
    mailedStep P name c (MCall l) (c\<lparr>rcRelay := r\<rparr>)"

definition startMailed :: "primitives \<Rightarrow> State \<Rightarrow> State \<Rightarrow> (party \<Rightarrow> world) \<Rightarrow> Server \<times> world \<Rightarrow> mailed" where
  "startMailed P a b ws r = \<lparr>rcState = case_party a b, rcWorld = ws, rcRelay = r,
     rcSent = (\<lambda>_. []), rcGot = (\<lambda>_. []), rcStarted = \<lambda>p. [plainHeader P (case_party a b p)]\<rparr>"

section \<open>Lemmas\<close>

text \<open>Encrypted messages have encodings.\<close>

lemma async_header_ok:
  assumes laws: "lawful P" and ok: "asyncOk P c"
    and enc: "EncryptMessage P pt ad (aState c p, w) = (Inr (hdr, ct), (s, w'))"
  shows "headerOk hdr"
proof (rule sent_header_ok [OF laws enc])
  assume n: "needsNewSendingChain (aState c p)"
  from ok n show "offers P (peerAdvertisedKEMPub (aState c p)) (selfPendingKEMPriv (aState c (peer p)))"
    by (cases rule: joined_cases [where p = p]) (auto simp: steady_def turning_def)
qed

text \<open>Any of the messages on their way may get lost.\<close>

lemma async_lose_some:
  "asyncOk P c \<Longrightarrow> aNet c p = pre @ xs \<Longrightarrow> subseq ys xs \<Longrightarrow> asyncOk P (c\<lparr>aNet := (aNet c)(p := pre @ ys)\<rparr>)"
proof (induction xs arbitrary: ys pre c)
  case Nil
  then have "(aNet c)(p := pre @ ys) = aNet c" by auto
  with Nil show ?case by (simp del: fun_upd_apply)
next
  case (Cons x xs)
  show ?case
  proof (cases "\<exists>zs. ys = x # zs \<and> subseq zs xs")
    case True
    then obtain zs where z: "ys = x # zs" "subseq zs xs" by blast
    from Cons.IH [OF Cons.prems(1) _ z(2), of "pre @ [x]"] Cons.prems(2) z(1) show ?thesis by simp
  next
    case False
    with Cons.prems(3) have "subseq ys xs" by (cases ys) (auto split: if_splits elim: list_emb.cases)
    moreover have "asyncOk P (c\<lparr>aNet := (aNet c)(p := pre @ xs)\<rparr>)"
      by (rule async_lose [OF Cons.prems(1,2)])
    ultimately show ?thesis using Cons.IH [of "c\<lparr>aNet := (aNet c)(p := pre @ xs)\<rparr>" pre ys]
      by (simp add: fun_upd_same del: fun_upd_apply)
  qed
qed

section \<open>The network behind the queues\<close>

definition asyncOf :: "mailed \<Rightarrow> (party \<Rightarrow> message list) \<Rightarrow> async" where
  "asyncOf c net = \<lparr>aState = rcState c, aNet = net, aStarted = rcStarted c\<rparr>"

definition queuedAs :: "QueuedMessage \<Rightarrow> message \<Rightarrow> bool" where
  "queuedAs m n \<longleftrightarrow> carriesPacket m (fst n)"

text \<open>
  One direction: what a party got and, in the queue \<open>q\<close>, has yet to poll, against what its peer sent.
\<close>

definition logged ::
  "(fault + bytes) list \<Rightarrow> QueuedMessage list \<Rightarrow> message list \<Rightarrow> bytes list \<Rightarrow> bool" where
  "logged rs q ms pts \<longleftrightarrow> list_all2 queuedAs q ms \<and>
     (\<exists>texts. rs = map Inr texts \<and> subseq (texts @ map snd ms) pts)"

lemma logged_send: "logged rs q ms pts \<Longrightarrow> queuedAs m n \<Longrightarrow> logged rs (q @ [m]) (ms @ [n]) (pts @ [snd n])"
  by (auto simp: logged_def list_all2_appendI simp flip: append_assoc)

lemma logged_poll:
  assumes "logged rs q ms pts"
  shows "logged (rs @ map (\<lambda>n. Inr (snd n)) ms) [] [] pts"
proof -
  obtain texts where "rs = map Inr texts" "subseq (texts @ map snd ms) pts" using assms by (auto simp: logged_def)
  then show ?thesis unfolding logged_def by (intro conjI exI [of _ "texts @ map snd ms"]) simp_all
qed

lemma logged_lose:
  assumes "logged rs q ms pts" and "subseq ms' ms" and "list_all2 queuedAs q' ms'"
  shows "logged rs q' ms' pts"
proof -
  obtain texts where t: "rs = map Inr texts" "subseq (texts @ map snd ms) pts" using assms(1) by (auto simp: logged_def)
  have "subseq (texts @ map snd ms') (texts @ map snd ms)"
    using subseq_map [OF assms(2), of snd] by (intro list_emb_append_mono) simp_all
  with t assms(3) show ?thesis unfolding logged_def using subseq_order.trans by blast
qed

definition mailedInv :: "primitives \<Rightarrow> (party \<Rightarrow> gostring) \<Rightarrow> mailed \<Rightarrow> bool" where
  "mailedInv P name c \<longleftrightarrow> (\<exists>net. asyncOk P (asyncOf c net) \<and>
     (\<forall>p. logged (rcGot c p) (queueOf (fst (rcRelay c)) (name p)) (net p) (rcSent c (peer p))))"

lemma mailedI:
  "asyncOk P (asyncOf c net) \<Longrightarrow>
     (\<And>p. logged (rcGot c p) (queueOf (fst (rcRelay c)) (name p)) (net p) (rcSent c (peer p))) \<Longrightarrow>
     mailedInv P name c"
  by (auto simp: mailedInv_def)

lemma openAll_async:
  assumes laws: "lawful P"
  shows "asyncOk P \<lparr>aState = st, aNet = net, aStarted = sd\<rparr> \<Longrightarrow> list_all2 queuedAs msgs (net p) \<Longrightarrow>
    openable P (sd (peer p)) msgs (st p) \<Longrightarrow>
    \<exists>s. openAll P msgs (st p) = (map (\<lambda>n. Inr (snd n)) (net p), s) \<and>
      asyncOk P \<lparr>aState = st(p := s), aNet = net(p := []), aStarted = sd\<rparr>"
proof (induction msgs arbitrary: st net)
  case Nil
  then have "st(p := st p) = st" "net(p := []) = net" by (simp_all add: fun_upd_idem)
  with Nil show ?case by (simp del: fun_upd_apply)
next
  case (Cons m msgs)
  then obtain n ns where "net p = n # ns" "queuedAs m n" and all: "list_all2 queuedAs msgs ns"
    by (auto simp: list_all2_Cons1)
  then obtain hdr ct pt where q: "net p = [] @ (((hdr, ct), []), pt) # ns"
    "UnmarshalEnvelope (Envelope m) = Inr (SubsequentEnvelope \<lparr>smHeader = hdr, smCiphertext = ct\<rparr>)"
    by (cases n) (auto simp: queuedAs_def carriesPacket_def)
  let ?c = "\<lparr>aState = st, aNet = net, aStarted = sd\<rparr>"
  have del: "deliverable (aState ?c p) (aStarted ?c (peer p)) hdr" using Cons.prems(3) q(2) by simp
  from async_deliver [OF laws Cons.prems(1) _ del] q(1) obtain s where
    s: "DecryptMessage P hdr ct [] (st p) = (Inr pt, s)"
    "asyncOk P \<lparr>aState = st(p := s), aNet = net(p := ns), aStarted = sd\<rparr>" by force
  have "openable P (sd (peer p)) msgs s" using Cons.prems(3) q(2) s(1) by simp
  then have "\<exists>t. openAll P msgs s = (map (\<lambda>n. Inr (snd n)) ns, t) \<and>
      asyncOk P \<lparr>aState = st(p := t), aNet = net(p := []), aStarted = sd\<rparr>"
    using Cons.IH [OF s(2)] all by (simp add: fun_upd_same del: fun_upd_apply)
  with q s(1) show ?case by (auto simp del: fun_upd_apply)
qed

lemma list_all2_filter_subseq:
  "list_all2 R xs ys \<Longrightarrow> \<exists>zs. list_all2 R (filter Q xs) zs \<and> subseq zs ys"
proof (induction rule: list_all2_induct)
  case (Cons x xs y ys)
  then obtain zs where "list_all2 R (filter Q xs) zs" "subseq zs ys" by blast
  with Cons(1) have "list_all2 R (filter Q (x # xs)) (if Q x then y # zs else zs)"
    "subseq (if Q x then y # zs else zs) (y # ys)" by (simp_all add: list_emb_Cons)
  then show ?case by blast
qed simp

text \<open>A purge loses some messages of either queue.\<close>

lemma mailed_purge:
  assumes ok: "asyncOk P (asyncOf c net)"
    and q: "\<And>p. list_all2 queuedAs (queueOf (fst (rcRelay c)) (name p)) (net p)"
    and r: "\<And>p. \<exists>Q. queueOf (fst r) (name p) = filter Q (queueOf (fst (rcRelay c)) (name p))"
  obtains net' where "asyncOk P (asyncOf c net')" and "\<And>p. subseq (net' p) (net p)"
    and "\<And>p. list_all2 queuedAs (queueOf (fst r) (name p)) (net' p)"
proof -
  have "\<exists>zs. list_all2 queuedAs (queueOf (fst r) (name p)) zs \<and> subseq zs (net p)" for p
    using r [of p] list_all2_filter_subseq [OF q [of p]] by metis
  then obtain net' where n: "\<And>p. list_all2 queuedAs (queueOf (fst r) (name p)) (net' p)"
    "\<And>p. subseq (net' p) (net p)" by metis
  have "asyncOk P (asyncOf c (net(Initiator := net' Initiator)))"
    using async_lose_some [OF ok, of Initiator "[]"] n(2) [of Initiator] by (simp add: asyncOf_def)
  from async_lose_some [OF this, of Responder "[]" "net Responder" "net' Responder"] n(2) [of Responder]
  have "asyncOk P (asyncOf c (net(Initiator := net' Initiator, Responder := net' Responder)))"
    by (simp add: asyncOf_def)
  moreover have "net(Initiator := net' Initiator, Responder := net' Responder) = net'"
    by (rule ext) (auto intro: party.exhaust)
  ultimately show ?thesis using that n by metis
qed

lemma call_filters:
  assumes step: "relayStep sw l sw'" and l: "concernsMail u l \<longrightarrow> (\<exists>now ttl n. l = (DoPurge now ttl, Purged n))"
  shows "\<exists>Q. queueOf (fst sw') u = filter Q (queueOf (fst sw) u)"
proof (cases "concernsMail u l")
  case True
  with l relayStep_mail [OF step, of u] show ?thesis by (auto elim: mailStepE)
next
  case False
  with relayStep_mail [OF step, of u] have "queueOf (fst sw') u = filter (\<lambda>_. True) (queueOf (fst sw) u)"
    by (auto elim: mailStepE)
  then show ?thesis by blast
qed

lemma mailedInv_step:
  assumes laws: "lawful P" and names: "name Initiator \<noteq> name Responder"
    and inv: "mailedInv P name c" and step: "mailedStep P name c ev c'"
  shows "mailedInv P name c'"
proof -
  have neq: "name r \<noteq> name (peer r)" "name (peer r) \<noteq> name r" for r using names by (cases r; simp)+
  obtain net where ok: "asyncOk P (asyncOf c net)"
    and log: "\<And>p. logged (rcGot c p) (queueOf (fst (rcRelay c)) (name p)) (net p) (rcSent c (peer p))"
    using inv by (auto simp: mailedInv_def)
  from step show ?thesis
  proof cases
    case (mailedSend pt p hdr ct s w r)
    let ?n = "(((hdr, ct), []), pt)"
    have enc: "EncryptMessage P pt [] (aState (asyncOf c net) p, rcWorld c p) = (Inr (hdr, ct), (s, w))"
      using mailedSend by (simp add: asyncOf_def)
    have ok': "asyncOk P (asyncOf c' (net(peer p := net (peer p) @ [?n])))"
      using async_send [OF laws ok enc mailedSend(4)] mailedSend(6)
      by (cases "needsNewSendingChain (rcState c p)") (simp_all add: asyncOf_def mailedSend(2))
    have "headerOk hdr" by (rule async_header_ok [OF laws ok enc])
    then have dec: "UnmarshalEnvelope (envelopeOf hdr ct) =
        Inr (SubsequentEnvelope \<lparr>smHeader = hdr, smCiphertext = ct\<rparr>)"
      using mailedSend(5) by (simp add: Unmarshal_SubsequentEnvelope_iff envelopeOf_def)
    obtain m where m: "queueOf (fst r) (name (peer p)) = queueOf (fst (rcRelay c)) (name (peer p)) @ [m]"
      "Envelope m = envelopeOf hdr ct"
      using mail_sent(1) [OF mailedSend(7)] by blast
    have "queuedAs m ?n" using dec m(2) by (simp add: carriesPacket_def queuedAs_def)
    from logged_send [OF log [of "peer p"] this] have
      "logged (rcGot c' d) (queueOf (fst r) (name d)) ((net(peer p := net (peer p) @ [?n])) d) (rcSent c' (peer d))" for d
      using log [of p] m(1) mail_sent(2) [OF mailedSend(7)] neq
      by (cases "d = p") (auto simp: mailedSend(2) dest!: other_party)
    with ok' show ?thesis by (intro mailedI) (simp_all add: mailedSend(2) del: fun_upd_apply)
  next
    case (mailedPoll p msgs r results s)
    note polled = mail_polled [OF mailedPoll(3)]
    have "list_all2 queuedAs msgs (net p)" using log [of p] polled(1) by (simp add: logged_def)
    from openAll_async [OF laws ok [unfolded asyncOf_def] this mailedPoll(4)] mailedPoll(5) have
      res: "results = map (\<lambda>n. Inr (snd n)) (net p)" and
      ok': "asyncOk P (asyncOf c' (net(p := [])))" by (auto simp: mailedPoll(2) asyncOf_def)
    have "logged (rcGot c' d) (queueOf (fst r) (name d)) ((net(p := [])) d) (rcSent c' (peer d))" for d
      using log [of d] logged_poll [OF log [of p]] polled(2,3) neq
      by (cases "d = p") (auto simp: mailedPoll(2) res dest!: other_party)
    with ok' show ?thesis by (intro mailedI) (simp_all add: mailedPoll(2) del: fun_upd_apply)
  next
    case (mailedCall l r)
    have "\<exists>Q. queueOf (fst r) (name p) = filter Q (queueOf (fst (rcRelay c)) (name p))" for p
      using call_filters [OF mailedCall(3)] mailedCall(4) by blast
    from mailed_purge [where c = c and net = net and name = name and r = r, OF ok _ this] log obtain net' where
      n: "asyncOk P (asyncOf c net')" "\<And>p. subseq (net' p) (net p)"
      "\<And>p. list_all2 queuedAs (queueOf (fst r) (name p)) (net' p)" unfolding logged_def by blast
    show ?thesis
      using n(1) logged_lose [OF log n(2,3)]
      by (intro mailedI [where net = net']) (simp_all add: mailedCall(2) asyncOf_def)
  qed
qed

text \<open>How many messages a call purged, and that no others disappear.\<close>

fun purgedBy :: "mailedEvent \<Rightarrow> int" where
  "purgedBy (MCall (DoPurge now ttl, Purged n)) = n"
| "purgedBy ev = 0"

definition accounted :: "(party \<Rightarrow> gostring) \<Rightarrow> mailed \<Rightarrow> int \<Rightarrow> bool" where
  "accounted name c n \<longleftrightarrow> (\<forall>p. int (length (rcSent c (peer p))) \<le>
     int (length (rcGot c p)) + int (length (queueOf (fst (rcRelay c)) (name p))) + n)"

lemma length_openAll: "openAll P msgs s = (rs, t) \<Longrightarrow> length rs = length msgs"
  by (induction msgs arbitrary: s rs t) (auto split: sum.splits envelope.splits prod.splits)

lemma purge_count:
  assumes "relayStep sw (DoPurge now ttl, Purged n) sw'"
  shows "int (length (queueOf (fst sw) u)) \<le> int (length (queueOf (fst sw') u)) + n"
  using assms
proof cases
  case (stepPurge order s s' w)
  have fin: "finite (dom (queues s))" using stepPurge(4) by (metis List.finite_set)
  have "queueOf s u = []" if "u \<notin> dom (queues s)" using that by (simp add: queueOf_def domIff)
  then have "int (length (filter (expired now ttl) (queueOf s u))) \<le>
      (\<Sum>v \<in> dom (queues s). int (length (filter (expired now ttl) (queueOf s v))))"
    using member_le_sum [OF _ _ fin, of u "\<lambda>v. int (length (filter (expired now ttl) (queueOf s v)))"]
    by (cases "u \<in> dom (queues s)") (simp_all add: sum_nonneg)
  moreover have "length (queueOf s u) = length (filter (\<lambda>m. \<not> expired now ttl m) (queueOf s u)) +
      length (filter (expired now ttl) (queueOf s u))"
    using sum_length_filter_compl [of "expired now ttl" "queueOf s u"] by simp
  ultimately show ?thesis
    using stepPurge(5) PurgeExpired_eq [OF stepPurge(3,4), of now ttl]
    by (auto simp: stepPurge(1,2) queueOf_purged)
qed

lemma purgedBy_other: "\<not> concernsMail u l \<Longrightarrow> purgedBy (MCall l) = 0"
  by (cases "MCall l" rule: purgedBy.cases) auto

lemma accounted_step:
  assumes names: "name Initiator \<noteq> name Responder" and acc: "accounted name c n"
    and step: "mailedStep P name c ev c'"
  shows "accounted name c' (n + purgedBy ev)"
proof -
  have neq: "name r \<noteq> name (peer r)" "name (peer r) \<noteq> name r" for r using names by (cases r; simp)+
  note a = acc [unfolded accounted_def, rule_format]
  have "int (length (rcSent c' (peer d))) \<le> int (length (rcGot c' d)) +
      int (length (queueOf (fst (rcRelay c')) (name d))) + (n + purgedBy ev)" for d
    using step
  proof cases
    case (mailedSend pt p hdr ct s w r)
    show ?thesis
    proof (cases "d = p")
      case True
      then show ?thesis using a [of d] mail_sent(2) [OF mailedSend(7)] neq by (simp add: mailedSend)
    next
      case False
      then have "d = peer p" by (rule other_party)
      then show ?thesis using a [of d] mail_sent(1) [OF mailedSend(7)] by (auto simp: mailedSend)
    qed
  next
    case (mailedPoll p msgs r results s)
    note polled = mail_polled [OF mailedPoll(3)]
    show ?thesis
    proof (cases "d = p")
      case True
      then show ?thesis using a [of d] polled length_openAll [OF mailedPoll(5)] by (simp add: mailedPoll)
    next
      case False
      then have "d = peer p" by (rule other_party)
      then show ?thesis using a [of d] polled(3) neq by (simp add: mailedPoll)
    qed
  next
    case (mailedCall l r)
    have "int (length (queueOf (fst (rcRelay c)) (name d))) \<le> int (length (queueOf (fst r) (name d))) + purgedBy ev"
    proof (cases "concernsMail (name d) l")
      case True
      with mailedCall(4) obtain now ttl k where l: "l = (DoPurge now ttl, Purged k)" by blast
      with purge_count [OF mailedCall(3) [unfolded l]] show ?thesis by (simp add: mailedCall(1))
    next
      case False
      with relayStep_mail [OF mailedCall(3), of "name d"] have "queueOf (fst r) (name d) = queueOf (fst (rcRelay c)) (name d)"
        by (auto elim: mailStepE)
      with purgedBy_other [OF False] show ?thesis by (simp add: mailedCall(1))
    qed
    with a [of d] show ?thesis by (simp add: mailedCall(2))
  qed
  then show ?thesis by (simp add: accounted_def)
qed

text \<open>The invariant, with the purges counted.\<close>

interpretation mailed_run: simulation "mailedStep P name" "\<lambda>n ev n'. n' = n + purgedBy ev"
  "\<lambda>c n. lawful P \<and> name Initiator \<noteq> name Responder \<and> mailedInv P name c \<and> accounted name c n"
  for P name
  by unfold_locales (blast intro: mailedInv_step accounted_step)

lemma trace_count: "trace (\<lambda>n ev n'. n' = n + purgedBy ev) n evs n' \<Longrightarrow> n' = n + sum_list (map purgedBy evs)"
  by (induction rule: trace.induct) simp_all

section \<open>Properties\<close>

text \<open>
  C4: a conversation survives what the relay purges. Let two established clients send and poll in any
  order while the relay serves others and purges its queues at any time with any time to live. As long as
  each message polled is deliverable (in the skip window, and the first of its chain if that
  answers an ML-KEM injection), no counter wraps and no ratchet key repeats, \<open>DecryptMessage\<close> never
  fails: what a party got, followed by what waits for it, are messages its peer sent, unaltered, each
  at most once and in the order sent, and no more are missing than the relay purged.
\<close>

theorem conversation_survives_purges:
  assumes "lawful P" and "identity_Generate P w0 = (Inr bob, w1)"
    and "GenerateBatch P bob sz w2 = (Inr batch, w3)"
    and "batch_Bundle batch i = Inr bundle" and "batch_PrivateKey batch i = Inr priv"
    and "EstablishAsInitiator P alice (identity_Public bob) bundle pt w = (Inr (a, msg), w')"
    and "EstablishAsResponder P bob bundle priv msg wB = (Inr (b, pt'), wB')"
    and "name Initiator \<noteq> name Responder" and "\<forall>p. queueOf s (name p) = []"
    and "trace (mailedStep P name) (startMailed P a b worlds (s, r)) events c"
  shows "\<exists>texts waiting. rcGot c p = map Inr texts \<and>
    length waiting = length (queueOf (fst (rcRelay c)) (name p)) \<and>
    subseq (texts @ waiting) (rcSent c (peer p)) \<and>
    int (length (rcSent c (peer p))) \<le> int (length (texts @ waiting)) + sum_list (map purgedBy events)"
proof -
  have "asyncOk P (startAsync P a b)"
    by (rule balanced_steady [OF established_balanced [OF assms(1-7)] initiator_keeps_chain(2) [OF assms(6)]])
  then have "mailedInv P name (startMailed P a b worlds (s, r))"
    using assms(9)
    by (intro mailedI [where net = "\<lambda>_. []"]) (simp_all add: asyncOf_def startMailed_def startAsync_def logged_def)
  moreover have "accounted name (startMailed P a b worlds (s, r)) 0" by (simp add: accounted_def startMailed_def)
  ultimately obtain n where n: "trace (\<lambda>n ev n'. n' = n + purgedBy ev) 0 events n" "mailedInv P name c"
    "accounted name c n"
    using mailed_run.trace_simulated [OF assms(10)] assms(1,8) by blast
  then obtain net xs where x: "list_all2 queuedAs (queueOf (fst (rcRelay c)) (name p)) (net p)"
    "rcGot c p = map Inr xs" "subseq (xs @ map snd (net p)) (rcSent c (peer p))"
    unfolding mailedInv_def logged_def by blast
  have "n = sum_list (map purgedBy events)" using trace_count [OF n(1)] by simp
  moreover have "length (net p) = length (queueOf (fst (rcRelay c)) (name p))"
    using list_all2_lengthD [OF x(1)] by simp
  ultimately have "length (map snd (net p)) = length (queueOf (fst (rcRelay c)) (name p))"
    "int (length (rcSent c (peer p))) \<le> int (length (xs @ map snd (net p))) + sum_list (map purgedBy events)"
    using n(3) [unfolded accounted_def, rule_format, of p] x(2) by simp_all
  with x(2,3) show ?thesis by blast
qed

lemma mailedSend_continue:
  assumes n: "\<not> needsNewSendingChain (rcState c p)" and cnt: "nSend (rcState c p) + 1 \<noteq> 0"
    and len: "fitsField (snd (fst (sealedNext P (rcState c p) pt [])))"
    and r: "relayStep (rcRelay c) (DoSend (name (peer p)) (name p)
      (envelopeOf (plainHeader P (rcState c p)) (snd (fst (sealedNext P (rcState c p) pt [])))), Done) r"
  shows "mailedStep P name c (MSend p pt)
    (c\<lparr>rcState := (rcState c)(p := advanceSend (rcState c p)), rcRelay := r,
       rcSent := (rcSent c)(p := rcSent c p @ [pt])\<rparr>)"
proof -
  have e: "EncryptMessage P pt [] (rcState c p, rcWorld c p) = (Inr (plainHeader P (rcState c p),
      snd (fst (sealedNext P (rcState c p) pt []))), (advanceSend (rcState c p), rcWorld c p))"
    using EncryptMessage_continue [OF n] by (simp add: sealedNext_def)
  from mailedSend [OF e _ len _ r] n cnt show ?thesis by (simp add: fun_upd_idem)
qed

lemma demo_send:
  assumes "identities s u \<noteq> None" and "finite (dom (queues s))"
  obtains s' w' where "relayStep (s, w) (DoSend u f env, Done) (s', w')" and "identities s' u \<noteq> None"
    and "finite (dom (queues s'))"
    and "queueOf s' u = queueOf s u @ [\<lparr>From = f, Envelope = env, QueuedAt = clock w (ticks w)\<rparr>]"
proof -
  let ?s = "s\<lparr>queues := (queues s)(u \<mapsto> queueOf s u @ [\<lparr>From = f, Envelope = env, QueuedAt = clock w (ticks w)\<rparr>])\<rparr>"
  have run: "SendMessage u f env (s, w) = (Inr (), (?s, w\<lparr>ticks := Suc (ticks w)\<rparr>))"
    using assms(1) by (auto simp: SendMessage_eq)
  from stepSend [OF run] have "relayStep (s, w) (DoSend u f env, Done) (?s, w\<lparr>ticks := Suc (ticks w)\<rparr>)" by simp
  then show ?thesis by (rule that) (use assms in simp_all)
qed

lemma demo_purge:
  assumes "finite (dom (queues s))"
  obtains s' n where "relayStep (s, w) (DoPurge now ttl, Purged n) (s', w)"
    and "identities s' = identities s" and "finite (dom (queues s'))"
    and "\<And>u. queueOf s' u = filter (\<lambda>m. \<not> expired now ttl m) (queueOf s u)"
proof -
  obtain order where o: "set order = dom (queues s)" "distinct order"
    using finite_distinct_list [OF assms] by blast
  note run = PurgeExpired_eq [OF o(2,1), of now ttl]
  have "dom (purgedQueues now ttl (dom (queues s)) s) \<subseteq> dom (queues s)"
    by (auto simp: purgedQueues_def domIff split: if_splits)
  then have "finite (dom (purgedQueues now ttl (dom (queues s)) s))" using assms by (rule finite_subset)
  then show ?thesis
    by (intro that [OF stepPurge [OF o(2,1) run, of w]]) (simp_all add: queueOf_purged)
qed

lemma conversation_survives_purges_witness:
  "\<exists>a b c s n. queueOf s [66] = [] \<and>
     trace (mailedStep demoPrimitives demoName) (startMailed demoPrimitives a b (\<lambda>_. demoWorld 0) (s, demoWorld 0))
       [MSend Initiator [7], MCall (DoPurge 1 0, Purged n), MSend Initiator [8], MPoll Responder] c \<and>
     (rcGot c Responder = [Inr [7]] \<or> rcGot c Responder = [Inr [8]])"
proof (rule demo_established, goal_cases)
  case (1 bob w1 batch w3 bd a msg w' b wB')
  let ?P = demoPrimitives
  note bal = established_balanced [OF demo_lawful 1] and n = initiator_keeps_chain [OF 1(5)]
  have pub: "dhRemote b = Some (ratchetPub ?P a)" "nRecv b = 1"
    using bal(1) n(3) by (simp_all add: balanced_def synced_def)
  define s0 where "s0 = PublishIdentity [66] (identity_Public bob) NewServer"
  have names: "demoName Initiator = [65]" "demoName Responder = [66]" by (simp_all add: demoName_def)
  have s0: "queueOf s0 u = []" "identities s0 [66] \<noteq> None" "dom (queues s0) = {}" for u
    by (simp_all add: s0_def PublishIdentity_def NewServer_def queueOf_def)
  define c0 where "c0 = startMailed ?P a b (\<lambda>_. demoWorld 0) (s0, demoWorld 0)"
  have short: "fitsField (snd (fst (sealedNext ?P s pt [])))" if "length pt = 1" for s pt
    using that by (simp add: sealedNext_def demoPrimitives_def fitsField_def)
  let ?m = "\<lambda>s pt. snd (fst (sealedNext ?P s pt []))"
  let ?env = "\<lambda>s pt. envelopeOf (plainHeader ?P s) (?m s pt)"
  have fin: "finite (dom (queues s0))" using s0(3) by simp
  obtain s1 w1' where r1: "relayStep (s0, demoWorld 0) (DoSend [66] [65] (?env a [7]), Done) (s1, w1')"
    "identities s1 [66] \<noteq> None" "finite (dom (queues s1))" "\<exists>m. queueOf s1 [66] = [m] \<and> QueuedAt m = 0"
    by (rule demo_send [OF s0(2) fin, of "demoWorld 0" "[65]" "?env a [7]"]) (simp add: s0(1) demoWorld_def)
  obtain s2 k where r2: "relayStep (s1, w1') (DoPurge 1 0, Purged k) (s2, w1')" "identities s2 = identities s1"
    "finite (dom (queues s2))" "queueOf s2 [66] = []"
  proof (rule demo_purge [OF r1(3), where w = w1' and now = 1 and ttl = 0], goal_cases)
    case (1 s' n)
    have "queueOf s' [66] = filter (\<lambda>m. \<not> expired 1 0 m) (queueOf s1 [66])" by (rule 1(5))
    with r1(4) have "queueOf s' [66] = []" by (auto simp: expired_def timeSub_def)
    with 1(2-4) show ?case by (rule 1(1))
  qed
  let ?a' = "advanceSend a"
  have known: "identities s2 [66] \<noteq> None" using r1(2) r2(2) by simp
  obtain s3 w3' where r3: "relayStep (s2, w1') (DoSend [66] [65] (?env ?a' [8]), Done) (s3, w3')"
    "\<exists>m. queueOf s3 [66] = [m] \<and> Envelope m = ?env ?a' [8]"
    by (rule demo_send [OF known r2(3), of w1' "[65]" "?env ?a' [8]"]) (simp add: r2(4))
  define c1 where "c1 = c0\<lparr>rcState := (rcState c0)(Initiator := ?a'), rcRelay := (s1, w1'),
    rcSent := (rcSent c0)(Initiator := [[7]])\<rparr>"
  define c2 where "c2 = c1\<lparr>rcRelay := (s2, w1')\<rparr>"
  define c3 where "c3 = c2\<lparr>rcState := (rcState c2)(Initiator := advanceSend ?a'), rcRelay := (s3, w3'),
    rcSent := (rcSent c2)(Initiator := [[7], [8]])\<rparr>"
  have st: "rcState c0 = case_party a b" "rcRelay c0 = (s0, demoWorld 0)" "rcSent c0 = (\<lambda>_. [])"
    "rcGot c0 = (\<lambda>_. [])" "rcStarted c0 = (\<lambda>p. [plainHeader ?P (case_party a b p)])"
    by (simp_all add: c0_def startMailed_def)
  have "mailedStep ?P demoName c0 (MSend Initiator [7]) c1"
    using mailedSend_continue [of c0 Initiator ?P "[7]" demoName "(s1, w1')"] n r1(1) short
    by (simp add: st names c1_def)
  moreover have "mailedStep ?P demoName c1 (MCall (DoPurge 1 0, Purged k)) c2"
    unfolding c2_def by (rule mailedCall) (use r2(1) in \<open>simp_all add: c1_def\<close>)
  moreover have "mailedStep ?P demoName c2 (MSend Initiator [8]) c3"
    using mailedSend_continue [of c2 Initiator ?P "[8]" demoName "(s3, w3')"] n r3(1) short
    by (simp add: st names c1_def c2_def c3_def)
  moreover obtain m where m: "queueOf s3 [66] = [m]" "Envelope m = ?env ?a' [8]" using r3(2) by blast
  obtain s4 where poll: "PollMessages [66] s3 = ([m], s4)" "queueOf s4 [66] = []"
    using m(1) by (simp add: PollMessages_def queueOf_def split: option.splits)
  obtain results b' where op: "openAll ?P [m] b = (results, b')" by (metis prod.exhaust)
  have "\<not> needsNewSendingChain ?a'" using n by simp
  from sent_header_ok [OF demo_lawful EncryptMessage_continue [OF this]] this have "headerOk (plainHeader ?P ?a')"
    by blast
  then have dec: "UnmarshalEnvelope (Envelope m) = Inr (SubsequentEnvelope
      \<lparr>smHeader = plainHeader ?P ?a', smCiphertext = ?m ?a' [8]\<rparr>)"
    using short [of "[8]" ?a'] by (simp add: m(2) Unmarshal_SubsequentEnvelope_iff envelopeOf_def)
  define c4 where "c4 = c3\<lparr>rcState := (rcState c3)(Responder := b'), rcRelay := (s4, w3'),
    rcGot := (rcGot c3)(Responder := results)\<rparr>"
  have "deliverable b [plainHeader ?P a] (plainHeader ?P ?a')"
    using pub n by (simp add: deliverable_def plainHeader_def ratchetPub_def)
  then have "openable ?P [plainHeader ?P a] [m] b" by (simp add: dec)
  then have "mailedStep ?P demoName c3 (MPoll Responder) c4"
    using mailedPoll [of c3 demoName Responder "[m]" "(s4, w3')" ?P results b'] stepPoll [OF poll(1), of w3'] op
    by (simp add: c3_def c2_def c1_def st names c4_def)
  ultimately have run: "trace (mailedStep ?P demoName) (startMailed ?P a b (\<lambda>_. demoWorld 0) (s0, demoWorld 0))
      [MSend Initiator [7], MCall (DoPurge 1 0, Purged k), MSend Initiator [8], MPoll Responder] c4"
    unfolding c0_def [symmetric] by (blast intro: trace.intros)
  have fin4: "rcSent c4 Initiator = [[7], [8]]" "rcGot c4 Responder = results"
    "queueOf (fst (rcRelay c4)) (demoName Responder) = []"
    by (simp_all add: c4_def c3_def st names poll(2))
  have len: "length results = 1" using length_openAll [OF op] by simp
  have "\<exists>texts waiting. rcGot c4 Responder = map Inr texts \<and>
    length waiting = length (queueOf (fst (rcRelay c4)) (demoName Responder)) \<and>
    subseq (texts @ waiting) (rcSent c4 (peer Responder)) \<and>
    int (length (rcSent c4 (peer Responder))) \<le> int (length (texts @ waiting)) + sum_list (map purgedBy
      [MSend Initiator [7], MCall (DoPurge 1 0, Purged k), MSend Initiator [8], MPoll Responder])"
    by (rule conversation_survives_purges [OF demo_lawful 1 _ _ run]) (use s0(1) in \<open>simp_all add: names\<close>)
  then obtain texts where "results = map Inr texts" "subseq texts [[7], [8]]"
    by (auto simp: fin4)
  with len have "results = [Inr [7]] \<or> results = [Inr [8]]"
    by (cases texts) (auto split: if_splits)
  with run s0(1) fin4 show ?case by blast
qed

end
