(* ===== verification/RelayBlind.thy ===== *)
theory RelayBlind
  imports Relay
begin

text \<open>
  The relay is content-blind (\<open>relay/relay.go\<close>, "opaque to the server"): renaming the envelopes of a
  run by any function gives a run. Nothing the server answers, keeps or drops depends on what the
  envelopes hold.
\<close>

section \<open>Renaming envelopes\<close>

definition renameMessage :: "(bytes \<Rightarrow> bytes) \<Rightarrow> QueuedMessage \<Rightarrow> QueuedMessage" where
  "renameMessage f m = m\<lparr>Envelope := f (Envelope m)\<rparr>"

fun renameOp :: "(bytes \<Rightarrow> bytes) \<Rightarrow> relayOp \<Rightarrow> relayOp" where
  "renameOp f (DoSend u from env) = DoSend u from (f env)"
| "renameOp f op = op"

fun renameReply :: "(bytes \<Rightarrow> bytes) \<Rightarrow> reply \<Rightarrow> reply" where
  "renameReply f (GotMessages ms) = GotMessages (map (renameMessage f) ms)"
| "renameReply f r = r"

definition renameCall :: "(bytes \<Rightarrow> bytes) \<Rightarrow> relayOp \<times> reply \<Rightarrow> relayOp \<times> reply" where
  "renameCall f = map_prod (renameOp f) (renameReply f)"

definition renameServer :: "(bytes \<Rightarrow> bytes) \<Rightarrow> Server \<Rightarrow> Server" where
  "renameServer f s = s\<lparr>queues := map_option (map (renameMessage f)) \<circ> queues s\<rparr>"

lemma renameServer_simps [simp]:
  "identities (renameServer f s) = identities s"
  "prekeys (renameServer f s) = prekeys s"
  "queues (renameServer f s) u = map_option (map (renameMessage f)) (queues s u)"
  "dom (queues (renameServer f s)) = dom (queues s)"
  "queueOf (renameServer f s) u = map (renameMessage f) (queueOf s u)"
  by (auto simp: renameServer_def queueOf_def split: option.split)

lemma renameServer_eqI:
  "identities t = identities s \<Longrightarrow> prekeys t = prekeys s \<Longrightarrow>
   (\<And>u. queues t u = map_option (map (renameMessage f)) (queues s u)) \<Longrightarrow> renameServer f s = t"
  by (cases s; cases t) (auto simp: renameServer_def fun_eq_iff)

lemma renameReply_reply [simp]:
  "(\<And>x. renameReply f (g x) = g x) \<Longrightarrow> renameReply f (reply g r) = reply g r"
  by (cases r) simp_all

lemma renameCall_eq: "renameCall f (op, r) = (renameOp f op, renameReply f r)"
  by (simp add: renameCall_def)

lemma FetchPrekeyBundle_rename:
  "FetchPrekeyBundle u (renameServer f s) = map_prod id (renameServer f) (FetchPrekeyBundle u s)"
  by (auto simp: FetchPrekeyBundle_def Let_def intro!: renameServer_eqI [symmetric]
      split: option.split sum.split)

lemma expired_rename [simp]: "expired now ttl (renameMessage f m) = expired now ttl m"
  by (simp add: expired_def renameMessage_def)

lemma filter_rename:
  "filter (expired now ttl) (map (renameMessage f) q) = map (renameMessage f) (filter (expired now ttl) q)"
  "filter (\<lambda>m. \<not> expired now ttl m) (map (renameMessage f) q) =
     map (renameMessage f) (filter (\<lambda>m. \<not> expired now ttl m) q)"
  by (induction q) simp_all

lemma relayStep_rename:
  assumes "relayStep sw l sw'"
  shows "relayStep (map_prod (renameServer f) id sw) (renameCall f l) (map_prod (renameServer f) id sw')"
  using assms
proof cases
  case (stepPublishIdentity s w u pub)
  have "renameServer f (PublishIdentity u pub s) = PublishIdentity u pub (renameServer f s)"
    by (rule renameServer_eqI) (simp_all add: PublishIdentity_def)
  then show ?thesis by (simp add: stepPublishIdentity renameCall_eq relayStep.stepPublishIdentity)
next
  case (stepFetchIdentity u s r s' w)
  then have "FetchIdentity u (renameServer f s) = (r, renameServer f s')"
    by (auto simp: FetchIdentity_def split: option.splits)
  then show ?thesis by (simp add: stepFetchIdentity(1-3) renameCall_eq relayStep.stepFetchIdentity)
next
  case (stepPublishPrekeys s w u bs lr)
  have "renameServer f (PublishPrekeys u bs lr s) = PublishPrekeys u bs lr (renameServer f s)"
    by (rule renameServer_eqI) (simp_all add: PublishPrekeys_def)
  then show ?thesis by (simp add: stepPublishPrekeys renameCall_eq relayStep.stepPublishPrekeys)
next
  case (stepFetchBundle u s r s' w)
  then have "FetchPrekeyBundle u (renameServer f s) = (r, renameServer f s')"
    by (simp add: FetchPrekeyBundle_rename)
  moreover have "renameReply f (reply (\<lambda>(b, l). GotBundle b l) r) = reply (\<lambda>(b, l). GotBundle b l) r"
    by (auto split: prod.split)
  ultimately show ?thesis by (simp add: stepFetchBundle(1-3) renameCall_eq relayStep.stepFetchBundle)
next
  case (stepLastResort u s r s' w)
  then have "LastResortPrekey u (renameServer f s) = (r, renameServer f s')"
    by (auto simp: LastResortPrekey_def split: option.splits)
  then show ?thesis by (simp add: stepLastResort(1-3) renameCall_eq relayStep.stepLastResort)
next
  case (stepTelemetry u s r s' w)
  then have "server_PrekeyTelemetry u (renameServer f s) = (r, renameServer f s')"
    by (auto simp: server_PrekeyTelemetry_def split: option.splits)
  then show ?thesis by (simp add: stepTelemetry(1-3) renameCall_eq relayStep.stepTelemetry)
next
  case (stepSend u sender env s w r s' w')
  have "renameServer f (s\<lparr>queues := (queues s)(u \<mapsto> q)\<rparr>) =
      (renameServer f s)\<lparr>queues := (queues (renameServer f s))(u \<mapsto> map (renameMessage f) q)\<rparr>" for q
    by (rule renameServer_eqI) simp_all
  then have "SendMessage u sender (f env) (renameServer f s, w) = (r, (renameServer f s', w'))"
    using stepSend(4) by (auto simp: SendMessage_eq renameMessage_def split: if_splits)
  then show ?thesis by (simp add: stepSend(1-3) renameCall_eq relayStep.stepSend)
next
  case (stepPoll u s msgs s' w)
  have "renameServer f (s\<lparr>queues := (queues s)(u := None)\<rparr>) =
      (renameServer f s)\<lparr>queues := (queues (renameServer f s))(u := None)\<rparr>"
    by (rule renameServer_eqI) simp_all
  then have "PollMessages u (renameServer f s) = (map (renameMessage f) msgs, renameServer f s')"
    using stepPoll(4) by (auto simp: PollMessages_def)
  then show ?thesis by (simp add: stepPoll(1-3) renameCall_eq relayStep.stepPoll)
next
  case (stepPurge order s now ttl n s' w)
  let ?t = "renameServer f s"
  have "renameServer f (s\<lparr>queues := purgedQueues now ttl (dom (queues s)) s\<rparr>) =
      ?t\<lparr>queues := purgedQueues now ttl (dom (queues ?t)) ?t\<rparr>"
    by (rule renameServer_eqI) (simp_all add: purgedQueues_def filter_rename Let_def)
  then have "PurgeExpired order now ttl ?t = (n, renameServer f s')"
    using stepPurge(4-6) by (auto simp: PurgeExpired_eq filter_rename)
  from relayStep.stepPurge [OF stepPurge(4) _ this] stepPurge(5) show ?thesis
    by (simp add: stepPurge(1-3) renameCall_eq)
qed

text \<open>So renaming is a simulation of the relay by itself, and the relay is deterministic.\<close>

interpretation renamed: simulation relayStep "\<lambda>a l b. relayStep a (renameCall f l) b"
  "\<lambda>sw a. a = map_prod (renameServer f) id sw" for f
  by unfold_locales (metis relayStep_rename)

lemma trace_relabel: "trace (\<lambda>a l b. step a (g l) b) s ls t \<longleftrightarrow> trace step s (map g ls) t"
  by (induction ls arbitrary: s) (simp_all add: trace_Cons_iff)

lemma trace_rename:
  assumes "trace relayStep (s, w) calls (s', w')"
  shows "trace relayStep (renameServer f s, w) (map (renameCall f) calls) (renameServer f s', w')"
  using renamed.trace_simulated [OF assms refl, of f] by (simp add: trace_relabel)

lemma relayStep_deterministic:
  assumes "relayStep sw (op, r1) sw1" and "relayStep sw (op, r2) sw2"
  shows "r1 = r2 \<and> sw1 = sw2"
  using assms(1)
proof cases
  case (stepPurge order s now ttl n s' w)
  from assms(2) [unfolded stepPurge(1,2)] show ?thesis
    by cases (use stepPurge in \<open>auto simp: PurgeExpired_eq\<close>)
qed (use assms(2) in \<open>auto simp: relayStep_ops\<close>)

lemma trace_deterministic:
  "trace relayStep sw ls sw1 \<Longrightarrow> trace relayStep sw ls' sw2 \<Longrightarrow> map fst ls = map fst ls' \<Longrightarrow>
     map snd ls = map snd ls' \<and> sw1 = sw2"
proof (induction arbitrary: ls' rule: trace.induct)
  case (trace_Cons s l t ls u)
  from trace_Cons.prems obtain l' ls'' where l': "ls' = l' # ls''" "fst l' = fst l" "map fst ls = map fst ls''"
    by (cases ls') auto
  with trace_Cons.prems obtain t' where t': "relayStep s l' t'" "trace relayStep t' ls'' sw2"
    by (auto simp: trace_Cons_iff)
  have "snd l = snd l' \<and> t = t'"
    using relayStep_deterministic [of s "fst l" "snd l" t "snd l'" t'] trace_Cons.hyps(1) t'(1) l'(2)
    by (metis prod.collapse)
  with trace_Cons.IH [of ls''] t'(2) l' show ?case by simp
qed simp

section \<open>Property\<close>

text \<open>
  C15: the relay is blind to content. Take two runs of the relay, of any calls by any clients, from
  states that agree when every envelope is erased, in which the same methods are called with the
  same arguments, envelopes apart. Then every answer, error and final state agrees when envelopes
  are erased. And the envelopes are moved as they are: renaming those of a run by any function, in
  the queues, the calls and the answers, gives a run.
\<close>

theorem relay_content_blind:
  assumes "trace relayStep (s, w) calls (s1, w1)" and "trace relayStep (t, w) calls' (t1, w2)"
    and "renameServer (\<lambda>_. []) s = renameServer (\<lambda>_. []) t"
    and "map (renameOp (\<lambda>_. []) \<circ> fst) calls = map (renameOp (\<lambda>_. []) \<circ> fst) calls'"
  shows "map (renameReply (\<lambda>_. []) \<circ> snd) calls = map (renameReply (\<lambda>_. []) \<circ> snd) calls' \<and>
    renameServer (\<lambda>_. []) s1 = renameServer (\<lambda>_. []) t1 \<and> w1 = w2 \<and>
    trace relayStep (renameServer f s, w) (map (renameCall f) calls) (renameServer f s1, w1)"
proof -
  let ?e = "\<lambda>_ :: bytes. [] :: bytes"
  have "map fst (map (renameCall ?e) calls) = map fst (map (renameCall ?e) calls')"
    using assms(4) by (simp add: renameCall_def o_def)
  with trace_deterministic trace_rename [OF assms(1)] trace_rename [OF assms(2)] assms(3)
  have "map snd (map (renameCall ?e) calls) = map snd (map (renameCall ?e) calls') \<and>
      (renameServer ?e s1, w1) = (renameServer ?e t1, w2)" by metis
  with trace_rename [OF assms(1), of f] show ?thesis by (simp add: renameCall_def o_def)
qed

lemma relay_content_blind_witness:
  "\<exists>s1 t1 w1 a b. trace relayStep (PublishIdentity [66] \<lparr>idEd25519 = [], idMLDSA = []\<rparr> NewServer, demoWorld 0)
      [(DoSend [66] [65] [1], Done), (DoPoll [66], GotMessages [a])] (s1, w1) \<and> Envelope a = [1] \<and>
    trace relayStep (PublishIdentity [66] \<lparr>idEd25519 = [], idMLDSA = []\<rparr> NewServer, demoWorld 0)
      [(DoSend [66] [65] [2, 3], Done), (DoPoll [66], GotMessages [b])] (t1, w1) \<and> Envelope b = [2, 3] \<and>
    renameMessage (\<lambda>_. []) a = renameMessage (\<lambda>_. []) b \<and> renameServer (\<lambda>_. []) s1 = renameServer (\<lambda>_. []) t1"
proof -
  let ?s = "PublishIdentity [66] \<lparr>idEd25519 = [], idMLDSA = []\<rparr> NewServer"
  have "\<exists>s1 w1 m. trace relayStep (?s, demoWorld 0)
      [(DoSend [66] [65] env, Done), (DoPoll [66], GotMessages [m])] (s1, w1) \<and> Envelope m = env" for env
    by (rule exI)+ (auto simp: trace_Cons_iff relayStep_ops SendMessage_eq PollMessages_def
        PublishIdentity_def NewServer_def queueOf_def)
  then obtain s1 w1 a t1 w2 b where
    a: "trace relayStep (?s, demoWorld 0) [(DoSend [66] [65] [1], Done), (DoPoll [66], GotMessages [a])] (s1, w1)"
      "Envelope a = [1]" and
    b: "trace relayStep (?s, demoWorld 0) [(DoSend [66] [65] [2, 3], Done), (DoPoll [66], GotMessages [b])] (t1, w2)"
      "Envelope b = [2, 3]" by metis
  have "map (renameOp (\<lambda>_. []) \<circ> fst) [(DoSend [66] [65] [1], Done), (DoPoll [66], GotMessages [a])] =
      map (renameOp (\<lambda>_. []) \<circ> fst) [(DoSend [66] [65] [2, 3], Done), (DoPoll [66], GotMessages [b])]" by simp
  from relay_content_blind [OF a(1) b(1) refl this, of id]
  have "renameMessage (\<lambda>_. []) a = renameMessage (\<lambda>_. []) b"
    "renameServer (\<lambda>_. []) s1 = renameServer (\<lambda>_. []) t1" "w1 = w2" by simp_all
  with a b show ?thesis by blast
qed

end
