(* ===== verification/MessageTypes.thy ===== *)
theory MessageTypes
  imports Relayed RatchetLimits
begin

text \<open>
  What \<open>EncryptMessage\<close> of \<open>crypto/ratchet\<close> hands to the wire format of \<open>crypto/session\<close>: the sizes
  of every field, in every state of the ratchet.
\<close>

section \<open>Sizes\<close>

text \<open>The sizes of what a header carries, whatever the state of the sender.\<close>

definition sizedHeader :: "Header \<Rightarrow> bool" where
  "sizedHeader h \<longleftrightarrow> (\<forall>k. hdrMLKEMPub h = Some k \<longrightarrow> length k = mlkem_PublicKeySize) \<and>
     (\<forall>c. hdrMLKEMCiphertext h = Some c \<longrightarrow> length c = mlkem_CiphertextSize)"

lemma obeys_True: "(\<And>s x s'. m s = (Inr x, s') \<Longrightarrow> Q x) \<Longrightarrow> obeys (\<lambda>_. True) m Q"
  by (auto simp: obeys_def) (metis prod.collapse)

lemma respond_sized:
  assumes "\<forall>pk r. length r = 32 \<longrightarrow> length (fst (mlkem_encaps P pk r)) = mlkem_CiphertextSize"
    and "sizedHeader hdr"
  shows "obeys (\<lambda>_. True) (respondToInjection P hdr) (\<lambda>(h, _). sizedHeader h)"
proof (rule obeys_True)
  fix sw x sw' assume r: "respondToInjection P hdr sw = (Inr x, sw')"
  have "length ct = mlkem_CiphertextSize" if "mlkem_EncapsulateTo P pk w = (Inr (ct, ss), w')" for pk w ct ss w'
    using that assms(1) by (auto simp: mlkem_EncapsulateTo_def readRand_Inr split: prod.splits sum.splits)
      (metis fst_conv length_take min.absorb2)
  with r assms(2) show "case x of (h, _) \<Rightarrow> sizedHeader h"
    by (cases sw) (auto simp: respondToInjection_def tryS_Inr liftW_Inr sizedHeader_def split: option.splits)
qed

lemma initiate_sized:
  assumes "mlkem_laws P" and "sizedHeader hdr"
  shows "obeys (\<lambda>_. True) (initiateInjection P hdr) sizedHeader"
proof (rule obeys_True)
  fix sw x sw' assume r: "initiateInjection P hdr sw = (Inr x, sw')"
  obtain s w where sw: "sw = (s, w)" by (cases sw)
  obtain s' w' where sw': "sw' = (s', w')" by (cases sw')
  from initiateInjection_Inr [OF assms(1) r [unfolded sw sw']] obtain pk sk where
    "mlkem_pair P pk sk" "x = hdr\<lparr>hdrMLKEMPub := Some pk\<rparr>" by metis
  with mlkem_pair_facts(1) [OF assms(1)] assms(2) show "sizedHeader x" by (simp add: sizedHeader_def)
qed

lemma start_sized:
  assumes "mlkem_laws P" and "\<forall>pk r. length r = 32 \<longrightarrow> length (fst (mlkem_encaps P pk r)) = mlkem_CiphertextSize"
    and "sizedHeader hdr"
  shows "obeys (\<lambda>_. True) (startSendingChain P hdr) sizedHeader"
proof -
  have any: "obeys (\<lambda>_. True) m (\<lambda>_. True)" for m :: "(State \<times> world, 'a) action"
    by (simp add: obeys_def)
  show ?thesis
    unfolding startSendingChain_def
    by (intro obeys_tryS_any any obeys_tryS [OF respond_sized [OF assms(2,3)]] obeys_cases
        obeys_ret initiate_sized [OF assms(1)]; simp add: sizedHeader_def)
qed

lemma encrypt_sized:
  assumes "mlkem_laws P" and "\<forall>pk r. length r = 32 \<longrightarrow> length (fst (mlkem_encaps P pk r)) = mlkem_CiphertextSize"
    and "x25519_laws P"
  shows "obeys (\<lambda>_. True) (EncryptMessage P pt ad) (\<lambda>(h, _). sizedHeader h \<and> length (hdrDHPub h) = 32)"
proof -
  have any: "obeys (\<lambda>_. True) m (\<lambda>_. True)" for m :: "(State \<times> world, 'a) action"
    by (simp add: obeys_def)
  have "obeys (\<lambda>_. True) (if b then startSendingChain P hdr else ret hdr) sizedHeader" if "sizedHeader hdr" for b hdr
    using start_sized [OF assms(1,2) that] that by (simp add: obeys_ret)
  then have "obeys (\<lambda>_. True) (prepareSendingChain P) (\<lambda>h. sizedHeader h \<and> length (hdrDHPub h) = 32)"
    unfolding prepareSendingChain_def Let_def
    by (intro obeys_tryS_any any obeys_tryS [where Q = sizedHeader] obeys_ret)
      (simp_all add: sizedHeader_def length_ecdh_PublicKey [OF assms(3)])
  then show ?thesis
    unfolding EncryptMessage_def Let_def
    by (intro obeys_tryS [where m = "prepareSendingChain P"] obeys_tryS_any any obeys_ret)
      (simp_all add: sizedHeader_def)
qed

text \<open>
  C22: messages have the types the wire expects. Whatever the state of the ratchet, honest or driven
  there by forged messages, a message that \<open>EncryptMessage\<close> returns has a 32-byte ratchet key, an
  ML-KEM public key of 1184 bytes or none, an ML-KEM ciphertext of 1088 bytes or none, a header of
  at most 2324 bytes, and an envelope that the receiver parses back to the very message. It
  relies on \<open>EncapsulateTo\<close> filling a ciphertext of fixed size, whatever the key.
\<close>

theorem sent_messages_well_typed:
  assumes "mlkem_laws P" and "x25519_laws P"
    and "\<forall>pk r. length r = 32 \<longrightarrow> length (fst (mlkem_encaps P pk r)) = mlkem_CiphertextSize"
    and "EncryptMessage P pt ad (s, w) = (Inr (hdr, ct), (s', w'))" and "length ct < 2 ^ 32"
  shows "length (hdrDHPub hdr) = 32 \<and> (\<forall>k. hdrMLKEMPub hdr = Some k \<longrightarrow> length k = 1184) \<and>
    (\<forall>c. hdrMLKEMCiphertext hdr = Some c \<longrightarrow> length c = 1088) \<and> length (Header_Marshal hdr) \<le> 2324 \<and>
    UnmarshalEnvelope (SubsequentMessage_MarshalEnvelope \<lparr>smHeader = hdr, smCiphertext = ct\<rparr>) =
      Inr (SubsequentEnvelope \<lparr>smHeader = hdr, smCiphertext = ct\<rparr>)"
proof -
  from obeysD(2) [OF encrypt_sized [OF assms(1,3,2)], of pt ad "(s, w)" "(hdr, ct)"] assms(4)
  have h: "sizedHeader hdr" "length (hdrDHPub hdr) = 32" by simp_all
  then have ok: "headerOk hdr" by (intro headerOk_sizes) (simp_all add: sizedHeader_def)
  have "length (sliceBytes (hdrMLKEMPub hdr)) \<le> 1184" "length (sliceBytes (hdrMLKEMCiphertext hdr)) \<le> 1088"
    using h(1) by (auto simp: sizedHeader_def sliceBytes_def mlkem_PublicKeySize_def mlkem_CiphertextSize_def
        split: option.splits)
  then have "length (Header_Marshal hdr) \<le> 2324" by (simp add: length_Header_Marshal h(2))
  moreover have "UnmarshalEnvelope (SubsequentMessage_MarshalEnvelope \<lparr>smHeader = hdr, smCiphertext = ct\<rparr>) =
      Inr (SubsequentEnvelope \<lparr>smHeader = hdr, smCiphertext = ct\<rparr>)"
    using ok assms(5) by (simp add: Unmarshal_SubsequentEnvelope_iff fitsField_def)
  ultimately show ?thesis
    using h by (simp add: sizedHeader_def mlkem_PublicKeySize_def mlkem_CiphertextSize_def)
qed

lemma sent_messages_well_typed_witness:
  "\<exists>hdr ct s' w'. EncryptMessage demoPrimitives [1] []
      (demoReceiver\<lparr>peerAdvertisedKEMPub := Some (replicate 1184 0), msgsSinceInject := 50\<rparr>, demoWorld 128) =
      (Inr (hdr, ct), (s', w')) \<and> length (Header_Marshal hdr) \<le> 2324 \<and>
     UnmarshalEnvelope (SubsequentMessage_MarshalEnvelope \<lparr>smHeader = hdr, smCiphertext = ct\<rparr>) =
       Inr (SubsequentEnvelope \<lparr>smHeader = hdr, smCiphertext = ct\<rparr>)"
proof -
  let ?s = "demoReceiver\<lparr>peerAdvertisedKEMPub := Some (replicate 1184 0), msgsSinceInject := 50\<rparr>"
  have n: "needsNewSendingChain ?s" by (simp add: demoReceiver_def)
  have "\<exists>hdr ct s' w'. EncryptMessage demoPrimitives [1] [] (?s, demoWorld 128) = (Inr (hdr, ct), (s', w'))"
    by (rule encrypt_succeeds) (simp add: demoReceiver_def demo_receiver_key)
  then obtain hdr ct s' w' where
    e: "EncryptMessage demoPrimitives [1] [] (?s, demoWorld 128) = (Inr (hdr, ct), (s', w'))" by blast
  have laws: "mlkem_laws demoPrimitives" "x25519_laws demoPrimitives" using demo_lawful by (simp_all add: lawful_def)
  have size: "\<forall>pk r. length r = 32 \<longrightarrow> length (fst (mlkem_encaps demoPrimitives pk r)) = mlkem_CiphertextSize"
    by (simp add: demoPrimitives_def mlkem_CiphertextSize_def)
  obtain k where "ct = chacha_seal demoPrimitives k zeroNonce [1] (associatedDataWithHeader hdr [])"
    by (rule EncryptMessage_newChain [OF laws(1) n e])
  then have "length ct < 2 ^ 32" by (simp add: demoPrimitives_def)
  from sent_messages_well_typed [OF laws size e this] e show ?thesis by blast
qed

end
