(* ===== verification/MerkleReference.thy ===== *)
theory MerkleReference
  imports Merkle
begin

text \<open>
  \<open>crypto/merkle/merkle.go\<close> against a reference: the tree built level by level, bottom up, has the
  root and the audit paths of the usual recursive definition, which splits the leaves in halves
  (as RFC 6962 does, here over a padded, hence perfect, tree).
\<close>

section \<open>The recursive definition\<close>

fun halvesRoot :: "nat \<Rightarrow> Hash list \<Rightarrow> Hash" where
  "halvesRoot 0 cur = cur ! 0"
| "halvesRoot (Suc k) cur =
     nodeHash (halvesRoot k (take (2 ^ k) cur)) (halvesRoot k (drop (2 ^ k) cur))"

fun halvesPath :: "nat \<Rightarrow> Hash list \<Rightarrow> nat \<Rightarrow> Hash list" where
  "halvesPath 0 cur i = []"
| "halvesPath (Suc k) cur i =
     (if i < 2 ^ k then halvesPath k (take (2 ^ k) cur) i @ [halvesRoot k (drop (2 ^ k) cur)]
      else halvesPath k (drop (2 ^ k) cur) (i - 2 ^ k) @ [halvesRoot k (take (2 ^ k) cur)])"

section \<open>The recursion unfolds from the leaves\<close>

lemma nextLevel_take: "2 * m \<le> length cur \<Longrightarrow> nextLevel (take (2 * m) cur) = take m (nextLevel cur)"
  by (rule nth_equalityI) (auto simp: nextLevel_def)

lemma nextLevel_drop: "2 * m \<le> length cur \<Longrightarrow> nextLevel (drop (2 * m) cur) = drop m (nextLevel cur)"
  by (rule nth_equalityI) (auto simp: nextLevel_def algebra_simps)

lemma halvesRoot_nextLevel:
  "length cur = 2 ^ Suc k \<Longrightarrow> halvesRoot (Suc k) cur = halvesRoot k (nextLevel cur)"
proof (induction k arbitrary: cur)
  case 0
  then show ?case by (simp add: nextLevel_def)
next
  case (Suc k)
  have "halvesRoot (Suc (Suc k)) cur =
      nodeHash (halvesRoot (Suc k) (take (2 ^ Suc k) cur)) (halvesRoot (Suc k) (drop (2 ^ Suc k) cur))"
    by (rule halvesRoot.simps(2))
  also have "\<dots> = nodeHash (halvesRoot k (nextLevel (take (2 ^ Suc k) cur)))
      (halvesRoot k (nextLevel (drop (2 ^ Suc k) cur)))"
    using Suc.prems by (simp add: Suc.IH del: halvesRoot.simps)
  also have "\<dots> = halvesRoot (Suc k) (nextLevel cur)"
    using Suc.prems by (simp add: nextLevel_take nextLevel_drop)
  finally show ?case .
qed

definition siblingOf :: "nat \<Rightarrow> nat" where
  "siblingOf i = (if even i then i + 1 else i - 1)"

lemma siblingOf_less: "i < 2 * m \<Longrightarrow> siblingOf i < 2 * m"
  by (auto simp: siblingOf_def elim!: evenE)

lemma siblingOf_shift: "2 * m \<le> i \<Longrightarrow> siblingOf (i - 2 * m) + 2 * m = siblingOf i"
  by (auto simp: siblingOf_def elim!: oddE)

lemma halvesPath_nextLevel:
  "length cur = 2 ^ Suc k \<Longrightarrow> i < 2 ^ Suc k \<Longrightarrow>
     halvesPath (Suc k) cur i = cur ! siblingOf i # halvesPath k (nextLevel cur) (i div 2)"
proof (induction k arbitrary: cur i)
  case 0
  then have "i = 0 \<or> i = 1" by auto
  with 0 show ?case by (auto simp: siblingOf_def)
next
  case (Suc k)
  let ?m = "2 ^ Suc k :: nat"
  have len: "length (take ?m cur) = ?m" "length (drop ?m cur) = ?m" using Suc.prems(1) by simp_all
  have nl: "nextLevel (take ?m cur) = take (2 ^ k) (nextLevel cur)"
    "nextLevel (drop ?m cur) = drop (2 ^ k) (nextLevel cur)"
    using Suc.prems(1) by (simp_all add: nextLevel_take nextLevel_drop)
  show ?case
  proof (cases "i < ?m")
    case True
    have top: "halvesPath (Suc (Suc k)) cur i =
        halvesPath (Suc k) (take ?m cur) i @ [halvesRoot (Suc k) (drop ?m cur)]"
      using True by (simp only: halvesPath.simps(2) [of "Suc k"] if_True)
    have "i div 2 < 2 ^ k" using True by auto
    then have "halvesPath (Suc k) (nextLevel cur) (i div 2) =
        halvesPath k (nextLevel (take ?m cur)) (i div 2) @ [halvesRoot k (nextLevel (drop ?m cur))]"
      by (simp only: halvesPath.simps(2) if_True nl)
    moreover have "take ?m cur ! siblingOf i = cur ! siblingOf i"
      using siblingOf_less [of i "2 ^ k"] True by simp
    ultimately show ?thesis
      unfolding top by (simp only: Suc.IH [OF len(1) True] halvesRoot_nextLevel [OF len(2)] append_Cons)
  next
    case False
    then have i: "i - ?m < ?m" "(i - ?m) div 2 = i div 2 - 2 ^ k" "\<not> i div 2 < 2 ^ k"
      using Suc.prems(2) by auto
    have top: "halvesPath (Suc (Suc k)) cur i =
        halvesPath (Suc k) (drop ?m cur) (i - ?m) @ [halvesRoot (Suc k) (take ?m cur)]"
      using False by (simp only: halvesPath.simps(2) [of "Suc k"] if_False)
    have "halvesPath (Suc k) (nextLevel cur) (i div 2) =
        halvesPath k (nextLevel (drop ?m cur)) ((i - ?m) div 2) @ [halvesRoot k (nextLevel (take ?m cur))]"
      using i(3) by (simp only: halvesPath.simps(2) if_False nl i(2))
    moreover have "drop ?m cur ! siblingOf (i - ?m) = cur ! siblingOf i"
      using siblingOf_shift [of "2 ^ k" i] False Suc.prems(1) by (simp add: add.commute)
    ultimately show ?thesis
      unfolding top by (simp only: Suc.IH [OF len(2) i(1)] halvesRoot_nextLevel [OF len(1)] append_Cons)
  qed
qed

section \<open>The bottom-up construction\<close>

lemma treeLevels_root: "length cur = 2 ^ k \<Longrightarrow> last (treeLevels cur) ! 0 = halvesRoot k cur"
proof (induction k arbitrary: cur)
  case 0
  then show ?case by (simp add: treeLevels_single)
next
  case (Suc k)
  then have "length cur > 1" using one_less_power [of "2 :: nat" "Suc k"] by simp
  moreover have "length (nextLevel cur) = 2 ^ k" using Suc.prems by simp
  ultimately show ?case
    using Suc.IH [of "nextLevel cur"] halvesRoot_nextLevel [OF Suc.prems] by (simp add: treeLevels_Cons del: halvesRoot.simps)
qed

lemma auditPath_halves:
  "length cur = 2 ^ k \<Longrightarrow> i < 2 ^ k \<Longrightarrow>
     auditPath (butlast (treeLevels cur)) (int i) = Inr (halvesPath k cur i)"
proof (induction k arbitrary: cur i)
  case 0
  then show ?case by (simp add: treeLevels_single)
next
  case (Suc k)
  have more: "length cur > 1" using Suc.prems(1) one_less_power [of "2 :: nat" "Suc k"] by simp
  have "siblingOf i < length cur" using siblingOf_less [of i "2 ^ k"] Suc.prems by simp
  then have "sliceAt cur (int i XOR 1) = Inr (cur ! siblingOf i)"
    by (simp add: siblingOf_def)
  moreover have "length (nextLevel cur) = 2 ^ k" "i div 2 < 2 ^ k" using Suc.prems by auto
  ultimately show ?case
    using Suc.IH [of "nextLevel cur" "i div 2"] halvesPath_nextLevel [OF Suc.prems]
    by (simp add: treeLevels_Cons [OF more] del: halvesPath.simps)
qed

section \<open>Property\<close>

text \<open>
  C24: the tree is the textbook one. For every tree that \<open>BuildTree\<close> builds, with \<open>k\<close> the least depth that
  holds its leaves: \<open>Root\<close> is the hash defined by recursion over the two halves of the padded
  leaves, and for every real leaf \<open>InclusionProof\<close> returns the audit path of that recursion, the roots
  of the halves left aside, from the leaf to the top.
\<close>

theorem merkle_tree_is_recursive:
  assumes "BuildTree domain leaves = Inr t"
  shows "let k = (LEAST j. length leaves \<le> 2 ^ j);
      hashes = map leafHash (paddedLeaves domain leaves (2 ^ k)) in
    Root t = halvesRoot k hashes \<and>
    (\<forall>i < length leaves. InclusionProof t (int i) = Inr (halvesPath k hashes i))"
proof -
  have "\<not> 2 ^ 62 < max (int (length leaves)) 1"
    using assms nextPowerOfTwo_diverges by (force simp: BuildTree_def split: option.splits)
  then obtain k where k: "nextPowerOfTwo (max (int (length leaves)) 1) = Some (2 ^ k)"
    "max (int (length leaves)) 1 \<le> 2 ^ k" "\<And>j. max (int (length leaves)) 1 \<le> 2 ^ j \<Longrightarrow> k \<le> j"
    using nextPowerOfTwo_least not_le by metis
  let ?hashes = "map leafHash (paddedLeaves domain leaves (2 ^ k))"
  have t: "tree_n t = length leaves" "levels t = treeLevels ?hashes"
    using assms k(1) by (auto simp: BuildTree_def nat_power_eq treeLeaves_padded)
  have len: "length ?hashes = 2 ^ k" by (simp add: paddedLeaves_def)
  have nat_le: "length leaves \<le> 2 ^ j \<longleftrightarrow> max (int (length leaves)) 1 \<le> 2 ^ j" for j
  proof -
    have "1 \<le> (2 :: int) ^ j" by simp
    then show ?thesis using of_nat_le_iff [of "length leaves" "2 ^ j", where ?'a = int]
      by (simp only: max.bounded_iff of_nat_power of_nat_numeral simp_thms)
  qed
  have least: "(LEAST j. length leaves \<le> 2 ^ j) = k"
    using k(2,3) by (intro Least_equality) (simp_all only: nat_le)
  have "Root t = halvesRoot k ?hashes"
    using Root_last [OF t(2)] treeLevels_root [OF len] by simp
  moreover have "InclusionProof t (int i) = Inr (halvesPath k ?hashes i)" if "i < length leaves" for i
  proof -
    have "length leaves \<le> 2 ^ k" using k(2) nat_le by blast
    with that have "i < 2 ^ k" by simp
    with that show ?thesis by (simp add: InclusionProof_def t auditPath_halves [OF len])
  qed
  ultimately show ?thesis by (simp add: least Let_def)
qed

lemma merkle_tree_is_recursive_witness:
  "\<exists>t a b c p. BuildTree [] [[1], [2], [3]] = Inr t \<and> map leafHash (paddedLeaves [] [[1], [2], [3]] 4) = [a, b, c, p] \<and>
     Root t = nodeHash (nodeHash a b) (nodeHash c p) \<and> InclusionProof t 2 = Inr [p, nodeHash a b]"
proof -
  obtain t where t: "BuildTree [] [[1], [2], [3]] = Inr t"
    using BuildTree_total [of "[[1], [2], [3]]" "[]"] by auto
  have two: "(LEAST j. length [[1], [2], [3 :: byte]] \<le> 2 ^ j) = 2"
  proof (rule Least_equality)
    fix j :: nat
    assume "length [[1], [2], [3 :: byte]] \<le> 2 ^ j"
    then show "2 \<le> j" by (cases j; cases "j - 1") auto
  qed simp
  obtain a b c p where l: "map leafHash (paddedLeaves [] [[1], [2], [3]] 4) = [a, b, c, p]"
    by (simp add: paddedLeaves_def upt_conv_Cons)
  from merkle_tree_is_recursive [OF t, unfolded two Let_def] l
  have "Root t = halvesRoot 2 [a, b, c, p]"
    and path: "\<forall>i < 3. InclusionProof t (int i) = Inr (halvesPath 2 [a, b, c, p] i)"
    by (simp_all add: numeral_3_eq_3)
  moreover have "InclusionProof t 2 = Inr (halvesPath 2 [a, b, c, p] 2)"
    using path [rule_format, of 2] by simp
  ultimately show ?thesis using t l by (simp add: numeral_2_eq_2)
qed

end
