(* ===== verification/Translog.thy ===== *)
theory Translog
  imports Identity Merkle "HOL-Library.Sublist"
begin

text \<open>
  \<open>translog/log.go\<close>, \<open>sth.go\<close>, \<open>simulate.go\<close> and \<open>VerifyInclusion\<close> of \<open>client.go\<close>: the append-only
  log of identity keys, its signed tree heads and its inclusion proofs. It is a client of
  \<open>Merkle\<close>'s \<open>vector_commitment\<close> and \<open>Identity\<close>'s \<open>signature_scheme\<close>.
\<close>

section \<open>Entries and tree heads\<close>

definition translog_merkleDomain :: gostring where
  "translog_merkleDomain = ascii ''translog''"

record Entry =
  Index :: int
  UserID :: gostring
  PublicKey :: IdPublicKey
  Timestamp :: gotime

definition translog_leafData :: "Entry \<Rightarrow> fault + bytes" where
  "translog_leafData e =
     tryE (identity_Marshal (PublicKey e)) (\<lambda>pubBytes.
     Inr (be32 (of_nat (length (UserID e))) @ UserID e @ be32 (word_of_int (Index e)) @ pubBytes))"

record SignedTreeHead =
  TreeSize :: int
  RootHash :: Hash
  sthTimestamp :: gotime
  OperatorIdentity :: IdPublicKey
  sthSignature :: Signature

definition sthSigningBytes :: "int \<Rightarrow> Hash \<Rightarrow> gotime \<Rightarrow> bytes" where
  "sthSigningBytes treeSize root ts =
     be32 (word_of_int treeSize) @ hashBytes root @ be64 (word_of_int ts)"

definition signTreeHead ::
  "primitives \<Rightarrow> KeyPair \<Rightarrow> int \<Rightarrow> Hash \<Rightarrow> gotime \<Rightarrow> (world, SignedTreeHead) action" where
  "signTreeHead P operatorID treeSize root ts =
     tryS (identity_Sign P operatorID (sthSigningBytes treeSize root ts)) (\<lambda>sig.
     ret \<lparr>TreeSize = treeSize, RootHash = root, sthTimestamp = ts,
          OperatorIdentity = identity_Public operatorID, sthSignature = sig\<rparr>)"

definition VerifySTH :: "primitives \<Rightarrow> SignedTreeHead \<Rightarrow> fault + unit" where
  "VerifySTH P sth = identity_Verify P (OperatorIdentity sth)
     (sthSigningBytes (TreeSize sth) (RootHash sth) (sthTimestamp sth)) (sthSignature sth)"

definition SignTreeHeadForSimulation ::
  "primitives \<Rightarrow> KeyPair \<Rightarrow> int \<Rightarrow> Hash \<Rightarrow> gotime \<Rightarrow> (world, SignedTreeHead) action" where
  "SignTreeHeadForSimulation P operatorID treeSize root ts = signTreeHead P operatorID treeSize root ts"

section \<open>The log server\<close>

record LogServer =
  operatorID :: KeyPair
  entries :: "Entry list"
  latestByUser :: "gostring \<rightharpoonup> int"
  currentSTH :: "SignedTreeHead option"

definition NewLogServer :: "KeyPair \<Rightarrow> LogServer" where
  "NewLogServer kp = \<lparr>operatorID = kp, entries = [], latestByUser = Map.empty, currentSTH = None\<rparr>"

definition log_OperatorIdentity :: "LogServer \<Rightarrow> IdPublicKey" where
  "log_OperatorIdentity s = identity_Public (operatorID s)"

definition Append :: "gostring \<Rightarrow> IdPublicKey \<Rightarrow> (LogServer \<times> world, int) action" where
  "Append userID pub =
     tryS (liftT (asks (\<lambda>s. int (length (entries s))))) (\<lambda>idx.
     tryS (liftW timeNow) (\<lambda>now.
     tryS (liftT (modify (\<lambda>s. s\<lparr>entries := entries s @
        [\<lparr>Index = idx, UserID = userID, PublicKey = pub, Timestamp = now\<rparr>]\<rparr>))) (\<lambda>_.
     tryS (liftT (modify (\<lambda>s. s\<lparr>latestByUser := (latestByUser s)(userID \<mapsto> idx)\<rparr>))) (\<lambda>_.
     ret idx))))"

text \<open>The loop of \<open>publishSTHLocked\<close> over the entries.\<close>

fun leavesOf :: "Entry list \<Rightarrow> fault + bytes list" where
  "leavesOf [] = Inr []"
| "leavesOf (e # es) =
     tryE (translog_leafData e) (\<lambda>l. tryE (leavesOf es) (\<lambda>ls. Inr (l # ls)))"

definition publishSTHLocked :: "primitives \<Rightarrow> (LogServer \<times> world, SignedTreeHead) action" where
  "publishSTHLocked P =
     tryS (liftT (asks entries)) (\<lambda>es.
     tryS (pureS (leavesOf es)) (\<lambda>leaves.
     tryS (pureS (BuildTree translog_merkleDomain leaves)) (\<lambda>tree.
     tryS (liftT (asks operatorID)) (\<lambda>kp.
     tryS (liftW timeNow) (\<lambda>now.
     tryS (liftW (signTreeHead P kp (int (length es)) (Root tree) now)) (\<lambda>sth.
     tryS (liftT (modify (\<lambda>s. s\<lparr>currentSTH := Some sth\<rparr>))) (\<lambda>_.
     ret sth)))))))"

definition PublishSTH :: "primitives \<Rightarrow> (LogServer \<times> world, SignedTreeHead) action" where
  "PublishSTH P = publishSTHLocked P"

definition log_CurrentSTH :: "LogServer \<Rightarrow> fault + SignedTreeHead" where
  "log_CurrentSTH s =
     (case currentSTH s of None \<Rightarrow> Inl (GoError ErrNoSTHPublished) | Some sth \<Rightarrow> Inr sth)"

definition log_Entry :: "LogServer \<Rightarrow> int \<Rightarrow> fault + Entry" where
  "log_Entry s index =
     (if index < 0 \<or> index \<ge> int (length (entries s)) then Inl (GoError ErrUnknownIndex)
      else sliceAt (entries s) index)"

definition LatestEntryForUser :: "LogServer \<Rightarrow> gostring \<Rightarrow> fault + Entry option" where
  "LatestEntryForUser s userID =
     (case latestByUser s userID of
        None \<Rightarrow> Inr None
      | Some idx \<Rightarrow> tryE (sliceAt (entries s) idx) (\<lambda>e. Inr (Some e)))"

text \<open>The loop of \<open>InclusionProof\<close> from entry \<open>i\<close>, \<open>n\<close> entries to go.\<close>

fun leafRange :: "Entry list \<Rightarrow> nat \<Rightarrow> nat \<Rightarrow> fault + bytes list" where
  "leafRange es i 0 = Inr []"
| "leafRange es i (Suc n) =
     tryE (sliceAt es (int i)) (\<lambda>e.
     tryE (translog_leafData e) (\<lambda>l.
     tryE (leafRange es (Suc i) n) (\<lambda>ls. Inr (l # ls))))"

definition log_InclusionProof ::
  "LogServer \<Rightarrow> int \<Rightarrow> fault + Entry \<times> Hash list \<times> SignedTreeHead" where
  "log_InclusionProof s index =
     (case currentSTH s of
        None \<Rightarrow> Inl (GoError ErrNoSTHPublished)
      | Some sth \<Rightarrow>
          if index < 0 \<or> index \<ge> TreeSize sth then Inl (GoError ErrUnknownIndex)
          else
            tryE (leafRange (entries s) 0 (nat (TreeSize sth))) (\<lambda>leaves.
            tryE (BuildTree translog_merkleDomain leaves) (\<lambda>tree.
            tryE (InclusionProof tree index) (\<lambda>proof.
            tryE (sliceAt (entries s) index) (\<lambda>e.
            Inr (e, proof, sth))))))"

section \<open>Verification by a client\<close>

definition VerifyInclusion :: "SignedTreeHead \<Rightarrow> Entry \<Rightarrow> Hash list \<Rightarrow> fault + unit" where
  "VerifyInclusion sth entry proof =
     tryE (translog_leafData entry) (\<lambda>leaf.
     tryE (VerifyInclusionProof leaf (Index entry) (TreeSize sth) proof (RootHash sth)) (\<lambda>ok.
     if \<not> ok then Inl (GoError TranslogErrInvalidInclusionProof) else Inr ()))"

section \<open>Lemmas\<close>

definition leafOf :: "Entry \<Rightarrow> bytes" where
  "leafOf e = be32 (of_nat (length (UserID e))) @ UserID e @ be32 (word_of_int (Index e)) @
     idEd25519 (PublicKey e) @ idMLDSA (PublicKey e)"

lemma leafData_run [simp]: "translog_leafData e = Inr (leafOf e)"
  by (simp add: translog_leafData_def leafOf_def)

lemma leavesOf_run [simp]: "leavesOf es = Inr (map leafOf es)"
  by (induction es) simp_all

lemma leafRange_run: "i + n \<le> length es \<Longrightarrow> leafRange es i n = Inr (map leafOf (take n (drop i es)))"
  by (induction n arbitrary: i) (simp_all add: take_Suc hd_drop_conv_nth drop_Suc tl_drop)

lemma VerifyInclusion_Inr:
  "VerifyInclusion sth e proof = Inr u \<longleftrightarrow>
     acceptsPath (leafOf e) (Index e) (TreeSize sth) proof (RootHash sth)"
  by (auto simp: VerifyInclusion_def tryE_Inr acceptsPath_def split: if_splits)

text \<open>Entries are determined by their leaves, up to what the leaf does not cover.\<close>

definition wellEncoded :: "Entry \<Rightarrow> bool" where
  "wellEncoded e \<longleftrightarrow> length (UserID e) < 2 ^ 32 \<and> 0 \<le> Index e \<and> Index e < 2 ^ 32 \<and>
     length (idEd25519 (PublicKey e)) = 32"

lemma leafOf_names:
  assumes "leafOf e = leafOf e'" and "length (UserID e) < 2 ^ 32" and "length (UserID e') < 2 ^ 32"
    and "length (idEd25519 (PublicKey e)) = 32" and "length (idEd25519 (PublicKey e')) = 32"
  shows "UserID e = UserID e'" and "PublicKey e = PublicKey e'"
    and "word_of_int (Index e) = (word_of_int (Index e') :: u32)"
proof -
  have "(of_nat (length (UserID e)) :: u32) = of_nat (length (UserID e'))"
    using assms(1) by (simp add: leafOf_def)
  with assms(2,3) have "length (UserID e) = length (UserID e')"
    by (simp add: word_of_nat_eq_iff take_bit_eq_mod)
  with assms(1) have l: "UserID e = UserID e'" "(word_of_int (Index e) :: u32) = word_of_int (Index e')"
    "idEd25519 (PublicKey e) @ idMLDSA (PublicKey e) = idEd25519 (PublicKey e') @ idMLDSA (PublicKey e')"
    by (simp_all add: leafOf_def)
  then show "UserID e = UserID e'" "word_of_int (Index e) = (word_of_int (Index e') :: u32)" by simp_all
  show "PublicKey e = PublicKey e'" using l(3) assms(4,5) identity_encoding_inj by blast
qed

lemma leafOf_inj:
  assumes "wellEncoded e" and "wellEncoded e'" and "leafOf e = leafOf e'"
  shows "UserID e = UserID e' \<and> Index e = Index e' \<and> PublicKey e = PublicKey e'"
  using assms leafOf_names [OF assms(3)]
  by (auto simp: wellEncoded_def word_of_int_eq_iff take_bit_eq_mod)

section \<open>The invariant of the log\<close>

text \<open>A head that commits to the first \<open>n\<close> entries, signed by the operator.\<close>

definition commits :: "primitives \<Rightarrow> IdPublicKey \<Rightarrow> Entry list \<Rightarrow> SignedTreeHead \<Rightarrow> bool" where
  "commits P operator es sth \<longleftrightarrow> 0 \<le> TreeSize sth \<and> TreeSize sth \<le> int (length es) \<and>
     commitTree translog_merkleDomain (map leafOf (take (nat (TreeSize sth)) es)) = Inr (RootHash sth) \<and>
     OperatorIdentity sth = operator \<and> VerifySTH P sth = Inr ()"

definition latestIndex :: "Entry list \<Rightarrow> gostring \<Rightarrow> int option" where
  "latestIndex es u = map_option Index (find (\<lambda>e. UserID e = u) (rev es))"

definition logInv :: "primitives \<Rightarrow> KeyPair \<Rightarrow> LogServer \<Rightarrow> bool" where
  "logInv P kp s \<longleftrightarrow> operatorID s = kp \<and>
     (\<forall>i < length (entries s). Index (entries s ! i) = int i) \<and>
     latestByUser s = latestIndex (entries s) \<and>
     (\<forall>sth. currentSTH s = Some sth \<longrightarrow> commits P (identity_Public kp) (entries s) sth)"

lemma logInv_New: "logInv P kp (NewLogServer kp)"
  by (auto simp: logInv_def NewLogServer_def latestIndex_def)

lemma commits_prefix: "commits P op es sth \<Longrightarrow> prefix es es' \<Longrightarrow> commits P op es' sth"
  by (auto simp: commits_def prefix_def)

lemma Append_run:
  "Append u pub (s, w) = (Inr (int (length (entries s))),
     (s\<lparr>entries := entries s @ [\<lparr>Index = int (length (entries s)), UserID = u, PublicKey = pub,
          Timestamp = clock w (ticks w)\<rparr>],
        latestByUser := (latestByUser s)(u \<mapsto> int (length (entries s)))\<rparr>, w\<lparr>ticks := Suc (ticks w)\<rparr>))"
  by (simp add: Append_def tryS_step liftW_run)

lemma Append_inv: "logInv P kp s \<Longrightarrow> logInv P kp (fst (snd (Append u pub (s, w))))"
  by (auto simp: Append_run logInv_def nth_append latestIndex_def fun_eq_iff
      intro: commits_prefix)

text \<open>Publishing fails only for want of entropy (or on more than \<open>2 ^ 62\<close> entries, for ever).\<close>

lemma PublishSTH_Inr:
  assumes "PublishSTH P (s, w) = (Inr sth, (s', w'))"
  shows "s' = s\<lparr>currentSTH := Some sth\<rparr> \<and> TreeSize sth = int (length (entries s)) \<and>
    commitTree translog_merkleDomain (map leafOf (entries s)) = Inr (RootHash sth) \<and>
    (\<exists>w1 w2. signTreeHead P (operatorID s) (TreeSize sth) (RootHash sth) (sthTimestamp sth) w1 = (Inr sth, w2))"
  using assms
  by (auto simp: PublishSTH_def publishSTHLocked_def tryS_Inr [where m = "pureS _"]
      tryS_Inr [where m = "liftW _"] liftW_Inr commitTree_def signTreeHead_def tryS_Inr) blast

lemma PublishSTH_Inl: "PublishSTH P (s, w) = (Inl e, (s', w')) \<Longrightarrow> s' = s"
  by (auto simp: PublishSTH_def publishSTHLocked_def tryS_def liftW_def pureS_def
      split: sum.splits prod.splits)

lemma signTreeHead_verifies:
  assumes "signature_laws P" and "genuineKeyPair P kp"
    and "signTreeHead P kp n root ts w = (Inr sth, w')"
  shows "VerifySTH P sth = Inr ()" and "OperatorIdentity sth = identity_Public kp"
  using assms(3) id_sig.sign_verifies [OF assms(1,2)]
  by (auto simp: signTreeHead_def tryS_Inr VerifySTH_def)

lemma signTreeHead_succeeds:
  assumes "signature_laws P" and "genuineKeyPair P kp" and "32 \<le> length (rng w)"
  shows "\<exists>sth w'. signTreeHead P kp n root ts w = (Inr sth, w')"
proof -
  obtain sig w' where "identity_Sign P kp (sthSigningBytes n root ts) w = (Inr sig, w')"
    using id_sig.sign_succeeds [OF assms] by blast
  then show ?thesis by (simp add: signTreeHead_def tryS_step)
qed

lemma PublishSTH_succeeds:
  assumes "signature_laws P" and "genuineKeyPair P (operatorID s)"
    and "length (entries s) \<le> 2 ^ 62" and "32 \<le> length (rng w)"
  shows "\<exists>sth w'. PublishSTH P (s, w) = (Inr sth, (s\<lparr>currentSTH := Some sth\<rparr>, w'))"
proof -
  obtain t where "BuildTree translog_merkleDomain (map leafOf (entries s)) = Inr t"
    using BuildTree_total [of "map leafOf (entries s)"] assms(3) by auto
  moreover obtain sth w' where "signTreeHead P (operatorID s) (int (length (entries s))) (Root t)
      (clock w (ticks w)) (w\<lparr>ticks := Suc (ticks w)\<rparr>) = (Inr sth, w')"
    using signTreeHead_succeeds [OF assms(1,2)] assms(4) by fastforce
  ultimately show ?thesis by (simp add: PublishSTH_def publishSTHLocked_def tryS_step liftW_run)
qed

lemma PublishSTH_inv:
  assumes laws: "signature_laws P" "genuineKeyPair P kp" and inv: "logInv P kp s"
  shows "logInv P kp (fst (snd (PublishSTH P (s, w))))"
proof -
  obtain r s' w' where run: "PublishSTH P (s, w) = (r, (s', w'))" by (metis surj_pair)
  show ?thesis
  proof (cases r)
    case (Inl e)
    with run PublishSTH_Inl inv show ?thesis by fastforce
  next
    case (Inr sth)
    note p = PublishSTH_Inr [OF run [unfolded Inr]]
    then have "VerifySTH P sth = Inr ()" "OperatorIdentity sth = identity_Public kp"
      using signTreeHead_verifies [OF laws] inv by (auto simp: logInv_def)
    with p inv show ?thesis by (simp add: run logInv_def commits_def)
  qed
qed

section \<open>Runs of the log\<close>

datatype logOp = LogAppend gostring IdPublicKey | LogPublish

text \<open>The reading methods leave the server as it is.\<close>

fun logStep :: "primitives \<Rightarrow> logOp \<Rightarrow> LogServer \<times> world \<Rightarrow> LogServer \<times> world" where
  "logStep P (LogAppend u pub) sw = snd (Append u pub sw)"
| "logStep P LogPublish sw = snd (PublishSTH P sw)"

definition logOk :: "primitives \<Rightarrow> KeyPair \<Rightarrow> LogServer \<times> world \<Rightarrow> bool" where
  "logOk P kp sw \<longleftrightarrow> signature_laws P \<and> genuineKeyPair P kp \<and> logInv P kp (fst sw)"

interpretation log: guarded_machine "logStep P" "logOk P kp" for P kp
proof
  fix sw :: "LogServer \<times> world" and op
  assume "logOk P kp sw"
  then show "logOk P kp (logStep P op sw)"
    by (cases sw; cases op) (auto simp: logOk_def Append_inv PublishSTH_inv)
qed

definition grows :: "LogServer \<times> world \<Rightarrow> LogServer \<times> world \<Rightarrow> bool" where
  "grows sw sw' \<longleftrightarrow> prefix (entries (fst sw)) (entries (fst sw')) \<and>
     (\<forall>sth. currentSTH (fst sw) = Some sth \<longrightarrow>
        (\<exists>sth'. currentSTH (fst sw') = Some sth' \<and> TreeSize sth \<le> TreeSize sth'))"

lemma logStep_grows:
  assumes "logOk P kp sw"
  shows "grows sw (logStep P op sw)"
proof (cases op)
  case (LogAppend u pub)
  then show ?thesis by (cases sw) (simp add: grows_def Append_run)
next
  case LogPublish
  obtain s w where sw: "sw = (s, w)" by (cases sw)
  obtain r s' w' where run: "PublishSTH P (s, w) = (r, (s', w'))" by (metis surj_pair)
  show ?thesis
  proof (cases r)
    case (Inl e)
    from PublishSTH_Inl [OF run [unfolded Inl]] have "s' = s" .
    then show ?thesis by (simp add: LogPublish sw run grows_def)
  next
    case (Inr sth)
    note p = PublishSTH_Inr [OF run [unfolded Inr]]
    with assms show ?thesis
      by (auto simp: LogPublish sw run grows_def logOk_def logInv_def commits_def)
  qed
qed

lemma log_runs:
  assumes "logOk P kp sw"
  shows "logOk P kp (fold (logStep P) ops sw)" and "grows sw (fold (logStep P) ops sw)"
proof -
  show "logOk P kp (fold (logStep P) ops sw)" by (rule log.inv_run [OF assms])
  show "grows sw (fold (logStep P) ops sw)"
    by (rule log.run_related [where R = grows, OF _ _ logStep_grows assms])
      (auto simp: grows_def intro: prefix_order.trans order.trans)
qed

lemma logOk_New:
  "signature_laws P \<Longrightarrow> identity_Generate P w0 = (Inr kp, w1) \<Longrightarrow> logOk P kp (NewLogServer kp, w)"
  by (simp add: logOk_def logInv_New Generate_genuine)

lemma reachable_logInv:
  assumes "signature_laws P" and "identity_Generate P w0 = (Inr kp, w1)"
    and "fold (logStep P) ops (NewLogServer kp, w) = (s, w')"
  shows "logInv P kp s"
  using log_runs(1) [OF logOk_New [OF assms(1,2), of w], of ops] assms(3) by (simp add: logOk_def)

text \<open>Proofs from a state of the invariant.\<close>

lemma proof_from_log:
  assumes inv: "logInv P kp s" and sth: "currentSTH s = Some sth" and i: "0 \<le> i" "i < TreeSize sth"
  shows "\<exists>proof. log_InclusionProof s i = Inr (entries s ! nat i, proof, sth) \<and>
    openTree translog_merkleDomain (map leafOf (take (nat (TreeSize sth)) (entries s))) i = Inr proof \<and>
    VerifyInclusion sth (entries s ! nat i) proof = Inr () \<and> Index (entries s ! nat i) = i"
proof -
  let ?n = "nat (TreeSize sth)" and ?ls = "map leafOf (take (nat (TreeSize sth)) (entries s))"
  have c: "commitTree translog_merkleDomain ?ls = Inr (RootHash sth)" and n: "?n \<le> length (entries s)"
    using inv sth by (auto simp: logInv_def commits_def)
  have idx: "Index (entries s ! nat i) = i" using inv i n by (simp add: logInv_def)
  have len: "length ?ls = ?n" using n by simp
  have "nat i < length ?ls" using i n by simp
  from mtree.opening_accepted [OF c this] i len n
  obtain path where path: "openTree translog_merkleDomain ?ls i = Inr path"
    "acceptsPath (leafOf (entries s ! nat i)) i (TreeSize sth) path (RootHash sth)" by auto
  then obtain t where t: "BuildTree translog_merkleDomain ?ls = Inr t" "InclusionProof t i = Inr path"
    by (auto simp: openTree_def tryE_Inr)
  have "log_InclusionProof s i = Inr (entries s ! nat i, path, sth)"
    using i n t by (simp add: log_InclusionProof_def sth leafRange_run sliceAt_def)
  with path idx show ?thesis by (simp add: VerifyInclusion_Inr)
qed

lemma only_logged:
  assumes inv: "logInv P kp s" and sth: "currentSTH s = Some sth"
    and ok: "VerifyInclusion sth e proof = Inr ()"
  obtains q where "0 \<le> Index e" and "Index e < TreeSize sth"
    and "log_InclusionProof s (Index e) = Inr (entries s ! nat (Index e), q, sth)"
    and "leafOf e = leafOf (entries s ! nat (Index e)) \<or>
      brokenBy (leafOf e) proof (leafOf (entries s ! nat (Index e))) q (Index e)"
proof -
  from ok have acc: "acceptsPath (leafOf e) (Index e) (TreeSize sth) proof (RootHash sth)"
    by (simp add: VerifyInclusion_Inr)
  then have i: "0 \<le> Index e" "Index e < TreeSize sth" using mtree.accepted_range by blast+
  from proof_from_log [OF inv sth i] obtain q where
    q: "log_InclusionProof s (Index e) = Inr (entries s ! nat (Index e), q, sth)"
    "VerifyInclusion sth (entries s ! nat (Index e)) q = Inr ()"
    "Index (entries s ! nat (Index e)) = Index e" by blast
  then have "acceptsPath (leafOf (entries s ! nat (Index e))) (Index e) (TreeSize sth) q (RootHash sth)"
    by (simp add: VerifyInclusion_Inr)
  from mtree.accepted_bind [OF acc this] that [OF i q(1)] show ?thesis by blast
qed

lemma latest_is_last:
  assumes "logInv P kp s"
  shows "LatestEntryForUser s u = Inr (find (\<lambda>e. UserID e = u) (rev (entries s)))"
proof (cases "find (\<lambda>e. UserID e = u) (rev (entries s))")
  case None
  with assms show ?thesis by (simp add: LatestEntryForUser_def logInv_def latestIndex_def)
next
  case (Some e)
  then have "e \<in> set (rev (entries s))" by (auto simp only: find_Some_iff intro: nth_mem)
  then have "e \<in> set (entries s)" by simp
  then obtain i where i: "i < length (entries s)" "entries s ! i = e" by (auto simp: in_set_conv_nth)
  with assms have "Index e = int i" by (auto simp: logInv_def)
  with Some assms i show ?thesis by (simp add: LatestEntryForUser_def logInv_def latestIndex_def)
qed

section \<open>Properties\<close>

text \<open>
  C23: every key in the log can be proved. After any sequence of \<open>Append\<close> and \<open>PublishSTH\<close>,
  \<open>InclusionProof\<close> returns for each index below the size of the current head the entry of that
  index, a proof and that head, the head verifies and \<open>VerifyInclusion\<close> accepts the proof, also
  when entries were appended since; for every other index, or with no head yet, it returns the
  declared error (log.go, sth.go, client.go).
\<close>

theorem log_proofs_verify:
  assumes "signature_laws P" and "identity_Generate P w0 = (Inr kp, w1)"
    and "fold (logStep P) ops (NewLogServer kp, w) = (s, w')"
  shows "case currentSTH s of
      None \<Rightarrow> log_InclusionProof s i = Inl (GoError ErrNoSTHPublished)
    | Some sth \<Rightarrow>
        if 0 \<le> i \<and> i < TreeSize sth
        then \<exists>proof. log_InclusionProof s i = Inr (entries s ! nat i, proof, sth) \<and>
            VerifySTH P sth = Inr () \<and> VerifyInclusion sth (entries s ! nat i) proof = Inr () \<and>
            Index (entries s ! nat i) = i
        else log_InclusionProof s i = Inl (GoError ErrUnknownIndex)"
proof -
  have inv: "logInv P kp s" by (rule reachable_logInv [OF assms(1-3)])
  show ?thesis
  proof (cases "currentSTH s")
    case None
    then show ?thesis by (simp add: log_InclusionProof_def)
  next
    case (Some sth)
    have "VerifySTH P sth = Inr ()" using inv Some by (simp add: logInv_def commits_def)
    with proof_from_log [OF inv Some, of i] Some show ?thesis
      by (auto simp: log_InclusionProof_def)
  qed
qed

text \<open>A log with one entry and a published head, over the demonstration primitives.\<close>

lemma demo_log:
  assumes "genuineKeyPair demoPrimitives kp"
  obtains s w' sth where
    "fold (logStep demoPrimitives) [LogAppend [1] (identity_Public kp), LogPublish]
       (NewLogServer kp, demoWorld 32) = (s, w')"
    and "currentSTH s = Some sth" and "TreeSize sth = 1" and "map UserID (entries s) = [[1]]"
    and "map PublicKey (entries s) = [identity_Public kp]"
proof -
  obtain s1 w1 where s1: "snd (Append [1] (identity_Public kp) (NewLogServer kp, demoWorld 32)) = (s1, w1)"
    by fastforce
  then have es: "length (entries s1) = 1" "map UserID (entries s1) = [[1]]"
    "map PublicKey (entries s1) = [identity_Public kp]" "operatorID s1 = kp" "rng w1 = replicate 32 0"
    by (auto simp: Append_run NewLogServer_def)
  then obtain sth w' where p: "PublishSTH demoPrimitives (s1, w1) =
      (Inr sth, (s1\<lparr>currentSTH := Some sth\<rparr>, w'))"
    using PublishSTH_succeeds [OF demo_signature_laws, of s1 w1] assms by auto
  moreover from PublishSTH_Inr [OF p] have "TreeSize sth = 1" using es(1) by simp
  ultimately show ?thesis
    using es s1 by (intro that [of "s1\<lparr>currentSTH := Some sth\<rparr>" w' sth]) simp_all
qed

lemma log_proofs_verify_witness:
  "\<exists>kp w1 s w' sth proof. identity_Generate demoPrimitives (demoWorld 64) = (Inr kp, w1) \<and>
     fold (logStep demoPrimitives) [LogAppend [1] (identity_Public kp), LogPublish]
       (NewLogServer kp, demoWorld 32) = (s, w') \<and>
     log_InclusionProof s 0 = Inr (entries s ! 0, proof, sth) \<and>
     VerifyInclusion sth (entries s ! 0) proof = Inr ()"
proof -
  obtain kp w1 where kp: "identity_Generate demoPrimitives (demoWorld 64) = (Inr kp, w1)"
    and gen: "genuineKeyPair demoPrimitives kp" by (rule demo_identity)
  obtain s w' sth where
    run: "fold (logStep demoPrimitives) [LogAppend [1] (identity_Public kp), LogPublish]
       (NewLogServer kp, demoWorld 32) = (s, w')" and
    sth: "currentSTH s = Some sth" "TreeSize sth = 1"
    by (rule demo_log [OF gen])
  from log_proofs_verify [OF demo_signature_laws kp run, of 0] sth kp run show ?thesis by auto
qed

text \<open>
  C13: the log is append-only. Once a head is published, whatever is appended and published later,
  the entries so far keep their places, the old head still verifies and is still the root over
  the first \<open>TreeSize\<close> entries, later heads are never smaller, and a later head of the same size
  has the same root: an honest operator never equivocates.
\<close>

theorem log_append_only:
  assumes "signature_laws P" and "identity_Generate P w0 = (Inr kp, w1)"
    and "fold (logStep P) ops (NewLogServer kp, w) = (s, w')" and "currentSTH s = Some sth"
    and "fold (logStep P) later (s, w') = (s2, w2)"
  shows "prefix (entries s) (entries s2) \<and> VerifySTH P sth = Inr () \<and>
    0 \<le> TreeSize sth \<and> TreeSize sth \<le> int (length (entries s)) \<and>
    commitTree translog_merkleDomain (map leafOf (take (nat (TreeSize sth)) (entries s2))) =
      Inr (RootHash sth) \<and>
    (\<exists>sth2. currentSTH s2 = Some sth2 \<and> TreeSize sth \<le> TreeSize sth2 \<and>
       (TreeSize sth2 = TreeSize sth \<longrightarrow> RootHash sth2 = RootHash sth))"
proof -
  note r1 = log_runs [OF logOk_New [OF assms(1,2), of w], of ops, unfolded assms(3)]
  note r2 = log_runs [OF r1(1), of later, unfolded assms(5)]
  have c: "commits P (identity_Public kp) (entries s) sth"
    using r1(1) assms(4) by (simp add: logOk_def logInv_def)
  have pre: "prefix (entries s) (entries s2)" using r2(2) by (simp add: grows_def)
  note c2 = commits_prefix [OF c pre]
  obtain sth2 where s2: "currentSTH s2 = Some sth2" "TreeSize sth \<le> TreeSize sth2"
    using r2(2) assms(4) by (auto simp: grows_def)
  then have "commits P (identity_Public kp) (entries s2) sth2"
    using r2(1) by (simp add: logOk_def logInv_def)
  with c c2 pre s2 show ?thesis by (auto simp: commits_def)
qed

lemma log_append_only_witness:
  "\<exists>kp w1 s w' sth. identity_Generate demoPrimitives (demoWorld 64) = (Inr kp, w1) \<and>
     fold (logStep demoPrimitives) [LogAppend [1] (identity_Public kp), LogPublish]
       (NewLogServer kp, demoWorld 32) = (s, w') \<and> currentSTH s = Some sth \<and>
     prefix (entries s) (entries (fst (fold (logStep demoPrimitives) [LogAppend [2] (identity_Public kp)] (s, w')))) \<and>
     VerifySTH demoPrimitives sth = Inr ()"
proof -
  obtain kp w1 where kp: "identity_Generate demoPrimitives (demoWorld 64) = (Inr kp, w1)"
    and gen: "genuineKeyPair demoPrimitives kp" by (rule demo_identity)
  obtain s w' sth where
    run: "fold (logStep demoPrimitives) [LogAppend [1] (identity_Public kp), LogPublish]
       (NewLogServer kp, demoWorld 32) = (s, w')" and sth: "currentSTH s = Some sth"
    by (rule demo_log [OF gen])
  obtain s2 w2 where later: "fold (logStep demoPrimitives) [LogAppend [2] (identity_Public kp)] (s, w') = (s2, w2)"
    by fastforce
  from log_append_only [OF demo_signature_laws kp run sth later]
  have "prefix (entries s) (entries s2)" "VerifySTH demoPrimitives sth = Inr ()" by simp_all
  with kp run sth later show ?thesis by (metis fst_conv)
qed

text \<open>
  C12: what \<open>VerifyInclusion\<close> accepts under a published head is in the log. If it accepts an entry
  under the current head of a log of at most \<open>2 ^ 32\<close> entries, then the log holds that user's name
  and that key at that index, or the accepted proof and the proof the log itself gives yield a
  SHA-256 collision (\<open>merkleCollision\<close>). The entry's \<open>Timestamp\<close>, however, is not committed to:
  with any other one it is accepted just the same.
\<close>

theorem accepted_entry_is_logged:
  assumes "signature_laws P" and "identity_Generate P w0 = (Inr kp, w1)"
    and "fold (logStep P) ops (NewLogServer kp, w) = (s, w')" and "currentSTH s = Some sth"
    and "VerifyInclusion sth e proof = Inr ()"
    and "TreeSize sth \<le> 2 ^ 32"
    and "\<forall>x \<in> set (e # entries s). length (UserID x) < 2 ^ 32 \<and> length (idEd25519 (PublicKey x)) = 32"
  shows "0 \<le> Index e \<and> Index e < TreeSize sth \<and>
    (let e0 = entries s ! nat (Index e) in
       UserID e = UserID e0 \<and> PublicKey e = PublicKey e0 \<and> Index e = Index e0 \<or>
       (\<exists>q x y. log_InclusionProof s (Index e) = Inr (e0, q, sth) \<and>
          merkleCollision (leafOf e) proof (leafOf e0) q (Index e) = Some (x, y) \<and>
          x \<noteq> y \<and> sha256 x = sha256 y)) \<and>
    VerifyInclusion sth (e\<lparr>Timestamp := t\<rparr>) proof = Inr ()"
proof -
  let ?e0 = "entries s ! nat (Index e)"
  have inv: "logInv P kp s" by (rule reachable_logInv [OF assms(1-3)])
  from only_logged [OF inv assms(4,5)] obtain q where
    i: "0 \<le> Index e" "Index e < TreeSize sth" and
    q: "log_InclusionProof s (Index e) = Inr (?e0, q, sth)" and
    l: "leafOf e = leafOf ?e0 \<or> brokenBy (leafOf e) proof (leafOf ?e0) q (Index e)" by blast
  have n: "nat (Index e) < length (entries s)"
    using i inv assms(4) by (auto simp: logInv_def commits_def)
  then have "Index ?e0 = Index e" using inv i by (simp add: logInv_def)
  then have "wellEncoded e" "wellEncoded ?e0"
    using assms(6,7) i n by (simp_all add: wellEncoded_def)
  with l leafOf_inj have "UserID e = UserID ?e0 \<and> PublicKey e = PublicKey ?e0 \<and> Index e = Index ?e0 \<or>
      brokenBy (leafOf e) proof (leafOf ?e0) q (Index e)" by blast
  moreover have "VerifyInclusion sth (e\<lparr>Timestamp := t\<rparr>) proof = Inr ()"
    using assms(5) by (simp add: VerifyInclusion_Inr leafOf_def)
  ultimately show ?thesis
    using i q by (auto simp: Let_def brokenBy_def sha256Collision_iff)
qed

lemma accepted_entry_is_logged_witness:
  "\<exists>kp w1 s w' sth e proof. identity_Generate demoPrimitives (demoWorld 64) = (Inr kp, w1) \<and>
     fold (logStep demoPrimitives) [LogAppend [1] (identity_Public kp), LogPublish]
       (NewLogServer kp, demoWorld 32) = (s, w') \<and> currentSTH s = Some sth \<and>
     VerifyInclusion sth e proof = Inr () \<and> UserID e = [1] \<and>
     VerifyInclusion sth (e\<lparr>Timestamp := 99\<rparr>) proof = Inr ()"
proof -
  obtain kp w1 where kp: "identity_Generate demoPrimitives (demoWorld 64) = (Inr kp, w1)"
    and gen: "genuineKeyPair demoPrimitives kp" by (rule demo_identity)
  obtain s w' sth where
    run: "fold (logStep demoPrimitives) [LogAppend [1] (identity_Public kp), LogPublish]
       (NewLogServer kp, demoWorld 32) = (s, w')" and
    sth: "currentSTH s = Some sth" "TreeSize sth = 1" and
    es: "map UserID (entries s) = [[1]]" "map PublicKey (entries s) = [identity_Public kp]"
    by (rule demo_log [OF gen])
  from proof_from_log [OF reachable_logInv [OF demo_signature_laws kp run] sth(1), of 0] sth(2)
  obtain path where path: "VerifyInclusion sth (entries s ! 0) path = Inr ()" by auto
  obtain e where e: "entries s = [e]" "UserID e = [1]" "PublicKey e = identity_Public kp"
    using es by (cases "entries s") auto
  have sizes: "\<forall>x \<in> set (entries s ! 0 # entries s). length (UserID x) < 2 ^ 32 \<and>
      length (idEd25519 (PublicKey x)) = 32"
    using genuine_public(1) [OF demo_signature_laws gen] by (simp add: e)
  have "TreeSize sth \<le> 2 ^ 32" using sth(2) by simp
  from accepted_entry_is_logged [OF demo_signature_laws kp run sth(1) path this sizes, of 99]
  have "VerifyInclusion sth ((entries s ! 0)\<lparr>Timestamp := 99\<rparr>) path = Inr ()" by simp
  with kp run sth(1) path e show ?thesis by (metis nth_Cons_0)
qed

text \<open>
  C34: the lookup table agrees with the log. After any run, \<open>LatestEntryForUser\<close> returns the last
  entry of that user in the log, as a scan from its end would find it, or reports that there
  is none; it never indexes out of range.
\<close>

theorem latest_entry_is_last:
  assumes "signature_laws P" and "identity_Generate P w0 = (Inr kp, w1)"
    and "fold (logStep P) ops (NewLogServer kp, w) = (s, w')"
  shows "LatestEntryForUser s u = Inr (find (\<lambda>e. UserID e = u) (rev (entries s)))"
  by (rule latest_is_last [OF reachable_logInv [OF assms]])

lemma latest_entry_is_last_witness:
  "\<exists>kp w1 s w'. identity_Generate demoPrimitives (demoWorld 64) = (Inr kp, w1) \<and>
     fold (logStep demoPrimitives) [LogAppend [1] \<lparr>idEd25519 = [], idMLDSA = []\<rparr>, LogAppend [1] (identity_Public kp)]
       (NewLogServer kp, demoWorld 0) = (s, w') \<and>
     LatestEntryForUser s [1] = Inr (Some (entries s ! 1)) \<and> PublicKey (entries s ! 1) = identity_Public kp"
proof -
  obtain kp w1 where kp: "identity_Generate demoPrimitives (demoWorld 64) = (Inr kp, w1)"
    by (rule demo_identity)
  obtain s w' where run: "fold (logStep demoPrimitives)
      [LogAppend [1] \<lparr>idEd25519 = [], idMLDSA = []\<rparr>, LogAppend [1] (identity_Public kp)]
      (NewLogServer kp, demoWorld 0) = (s, w')" by fastforce
  have "length (entries s) = 2 \<and> UserID (entries s ! 1) = [1] \<and> PublicKey (entries s ! 1) = identity_Public kp"
    using run by (auto simp: Append_run NewLogServer_def)
  then obtain a b where "entries s = [a, b]" "UserID b = [1]" "PublicKey b = identity_Public kp"
    by (cases "entries s"; cases "tl (entries s)") auto
  with latest_entry_is_last [OF demo_signature_laws kp run, of "[1]"] kp run show ?thesis by auto
qed

end
