(* ===== verification/FirstContact.thy ===== *)
theory FirstContact
  imports Translog Prekey
begin

text \<open>
  What stands between a user and a relay that lies about a contact's keys: \<open>translog/sth.go\<close>,
  \<open>VerifyInclusion\<close> of \<open>translog/client.go\<close> and \<open>VerifyBundle\<close> of \<open>crypto/prekey\<close>, one after the
  other. Also what the signatures of the program are made over, and that they do not mix.
\<close>

section \<open>The signed messages\<close>

lemma sthSigningBytes_inj:
  "sthSigningBytes n r t = sthSigningBytes n' r' t' \<longleftrightarrow>
     r = r' \<and> word_of_int n = (word_of_int n' :: u32) \<and> word_of_int t = (word_of_int t' :: u64)"
  by (auto simp: sthSigningBytes_def hashBytes_inject)

section \<open>Entries under a head of any claimed size\<close>

text \<open>A user name is shorter than the length that the first bytes of a padding leaf would claim.\<close>

lemma log_padding_no_leaf:
  assumes "length (UserID e) < 2 ^ 30"
  shows "paddingLeaf domain i \<noteq> leafOf e"
proof
  assume "paddingLeaf domain i = leafOf e"
  then have "take 4 (leafOf e) = take 4 (paddingLeaf domain i)" by simp
  then have "be32 (of_nat (length (UserID e))) = ascii ''pqch''"
    by (simp add: paddingLeaf_def leafOf_def ascii_def)
  then have "uint32_be (ascii ''pqch'') = of_nat (length (UserID e))" by (metis uint32_be_be32')
  then have "unat (of_nat (length (UserID e)) :: u32) = 0x70716368"
    by (simp add: ascii_def uint32_be_def)
  with assms show False by (simp add: unat_of_nat take_bit_eq_mod)
qed

lemma logged_any_size:
  assumes c: "commits P op es h" and root: "RootHash sth = RootHash h"
    and ok: "VerifyInclusion sth e proof = Inr ()"
    and sizes: "\<forall>x \<in> set (e # es). length (UserID x) < 2 ^ 30 \<and> length (idEd25519 (PublicKey x)) = 32"
  shows "(\<exists>x \<in> set es. UserID x = UserID e \<and> PublicKey x = PublicKey e) \<or>
    brokenTree translog_merkleDomain (leafOf e) (Index e) proof (map leafOf (take (nat (TreeSize h)) es))"
proof -
  let ?es = "take (nat (TreeSize h)) es"
  from c obtain t where t: "BuildTree translog_merkleDomain (map leafOf ?es) = Inr t" "RootHash h = Root t"
    by (auto simp: commits_def commitTree_def tryE_Inr)
  from ok have "0 \<le> Index e" by (auto simp: VerifyInclusion_Inr dest: mtree.accepted_range)
  then obtain i where i: "Index e = int i" using nonneg_int_cases by blast
  have v: "VerifyInclusionProof (leafOf e) (int i) (TreeSize sth) proof (Root t) = Inr True"
    using ok root t(2) i by (simp add: VerifyInclusion_Inr acceptsPath_def)
  show ?thesis
  proof (rule proof_any_size [OF t(1) v], elim disjE conjE)
    fix k
    assume "i < 2 ^ k" and leaf: "leafOf e = paddedLeaves translog_merkleDomain (map leafOf ?es) (2 ^ k) ! i"
    have j: "i < length ?es" and l: "leafOf e = leafOf (?es ! i)"
      using leaf \<open>i < 2 ^ k\<close> log_padding_no_leaf [of e translog_merkleDomain i] sizes
      by (auto simp: paddedLeaves_def split: if_splits)
    then have "?es ! i \<in> set es" by (meson in_set_takeD nth_mem)
    moreover have small: "length (UserID e) < 2 ^ 32" "length (UserID (?es ! i)) < 2 ^ 32"
      using sizes calculation by fastforce+
    moreover have "length (idEd25519 (PublicKey e)) = 32" "length (idEd25519 (PublicKey (?es ! i))) = 32"
      using sizes calculation by auto
    ultimately show ?thesis using leafOf_names [OF l] by metis
  qed (auto simp: brokenTree_def i)
qed

section \<open>The heads an honest log publishes\<close>

fun publishedHeads :: "primitives \<Rightarrow> logOp list \<Rightarrow> LogServer \<times> world \<Rightarrow> SignedTreeHead list" where
  "publishedHeads P [] sw = []"
| "publishedHeads P (LogAppend u pub # ops) sw = publishedHeads P ops (logStep P (LogAppend u pub) sw)"
| "publishedHeads P (LogPublish # ops) sw =
     (case fst (PublishSTH P sw) of Inl _ \<Rightarrow> [] | Inr sth \<Rightarrow> [sth]) @ publishedHeads P ops (logStep P LogPublish sw)"

lemma publishedHeads_commit:
  assumes "logOk P kp sw" and "h \<in> set (publishedHeads P ops sw)"
  shows "commits P (identity_Public kp) (entries (fst (fold (logStep P) ops sw))) h"
  using assms
proof (induction P ops sw rule: publishedHeads.induct)
  case (3 P ops sw)
  have ok: "logOk P kp (logStep P LogPublish sw)" by (rule log.inv_step [OF 3(2)])
  show ?case
  proof (cases "h \<in> set (publishedHeads P ops (logStep P LogPublish sw))")
    case True
    with 3(1) [OF ok] show ?thesis by simp
  next
    case False
    with 3(3) have h: "fst (PublishSTH P sw) = Inr h" by (auto split: sum.splits)
    obtain s w where sw: "sw = (s, w)" by (cases sw)
    obtain s' w' where run: "PublishSTH P (s, w) = (Inr h, (s', w'))" using h sw by (metis prod.collapse)
    have "logInv P kp s'" using ok by (simp add: logOk_def sw run)
    then have "commits P (identity_Public kp) (entries s') h"
      using PublishSTH_Inr [OF run] by (auto simp: logInv_def)
    moreover have "prefix (entries s') (entries (fst (fold (logStep P) ops (s', w'))))"
      using log_runs(2) [OF ok, of ops] by (simp add: grows_def sw run)
    ultimately show ?thesis by (simp add: sw run commits_prefix)
  qed
next
  case (2 P u pub ops sw)
  from 2(1) [OF log.inv_step [OF 2(2)]] 2(3) show ?case by simp
qed simp

section \<open>Checks that hold unless a signature is forged\<close>

text \<open>A signature on a message that the key's owner never signed.\<close>

definition forged :: "primitives \<Rightarrow> IdPublicKey \<Rightarrow> bytes \<Rightarrow> Signature \<Rightarrow> bytes set \<Rightarrow> bool" where
  "forged P issuer m sig msgs \<longleftrightarrow> identity_Verify P issuer m sig = Inr () \<and> m \<notin> msgs"

definition headMessages :: "SignedTreeHead list \<Rightarrow> bytes set" where
  "headMessages hs = (\<lambda>h. sthSigningBytes (TreeSize h) (RootHash h) (sthTimestamp h)) ` set hs"

definition prekeyMessages :: "Batch list \<Rightarrow> LastResort list \<Rightarrow> bytes set" where
  "prekeyMessages bs lrs =
     (\<lambda>b. hashBytes (batchRoot b)) ` set bs \<union> (\<lambda>lr. lastResortDomainTag @ lrPublicKey lr) ` set lrs"

lemma root_not_last_resort:
  assumes "GenerateLastResort P bob w = (Inr (priv, lr), w')" and "kem_laws P"
  shows "hashBytes r \<noteq> lastResortDomainTag @ lrPublicKey lr"
proof -
  obtain w1 where g: "kem_GenerateKeyPair P None w = (Inr priv, w1)"
    and m: "kem_MarshalPublicKey (kem_Public P priv) = Inr (lrPublicKey lr)"
    using assms(1) by (auto simp: GenerateLastResort_def tryS_Inr)
  have "lrPublicKey lr = ecdh_PublicKey P (privX25519 priv) @ mlkem_public P (privMLKEM priv)"
    using m by (auto simp: kem_MarshalPublicKey_def tryE_Inr kem_Public_def)
  then have "32 \<le> length (lrPublicKey lr)"
    using length_ecdh_PublicKey assms(2) by (simp add: kem_laws_def)
  moreover have "length lastResortDomainTag = 28" by (simp add: lastResortDomainTag_def ascii_def)
  ultimately have "length (hashBytes r) < length (lastResortDomainTag @ lrPublicKey lr)" by simp
  then show ?thesis by (metis nat_neq_iff)
qed

text \<open>What the checks of a first contact give when no signature is forged.\<close>

lemma first_contact_checked:
  assumes "kem_laws P" and "signature_laws P"
    and "identity_Generate P w0 = (Inr operator, w1)" and "identity_Generate P w2 = (Inr bob, w3)"
    and "fold (logStep P) ops (NewLogServer operator, w) = (s, w')"
    and "\<forall>x \<in> set (entries s). UserID x = name \<longrightarrow> PublicKey x = identity_Public bob"
    and "\<forall>x \<in> set (e # entries s). length (UserID x) < 2 ^ 30 \<and> length (idEd25519 (PublicKey x)) = 32"
    and "\<forall>b \<in> set bs. \<exists>sz v v'. GenerateBatch P bob sz v = (Inr b, v')"
    and "\<forall>lr \<in> set lrs. \<exists>priv v v'. GenerateLastResort P bob v = (Inr (priv, lr), v')"
    and "OperatorIdentity sth = identity_Public operator" and "VerifySTH P sth = Inr ()"
    and "VerifyInclusion sth e proof = Inr ()" and "UserID e = name"
    and "VerifyBundle P (PublicKey e) bundle = Inr ()" and "bundleIndex bundle = int i" and "i < 2 ^ 24"
    and head: "\<not> forged P (identity_Public operator)
      (sthSigningBytes (TreeSize sth) (RootHash sth) (sthTimestamp sth)) (sthSignature sth)
      (headMessages (publishedHeads P ops (NewLogServer operator, w)))"
    and root: "\<not> forged P (identity_Public bob) (hashBytes (bundleRoot bundle)) (bundleRootSignature bundle)
      (prekeyMessages bs lrs)"
    and tree: "\<not> (\<exists>h \<in> set (publishedHeads P ops (NewLogServer operator, w)). RootHash h = RootHash sth \<and>
      brokenTree translog_merkleDomain (leafOf e) (Index e) proof
        (map leafOf (take (nat (TreeSize h)) (entries s))))"
  shows "PublicKey e = identity_Public bob \<and> (\<exists>b \<in> set bs. batchRoot b = bundleRoot bundle \<and>
    ((\<exists>priv. batch_PrivateKey b (int i) = Inr priv \<and>
        kem_MarshalPublicKey (kem_Public P priv) = Inr (bundlePublicKey bundle)) \<or>
     brokenTree prekey_merkleDomain (prekey_leafData (bundlePublicKey bundle) (int i)) (int i)
       (bundleProof bundle) (batchLeaves b)))"
proof -
  let ?heads = "publishedHeads P ops (NewLogServer operator, w)"
  from head assms(10,11) obtain h where h: "h \<in> set ?heads" "RootHash sth = RootHash h"
    by (auto simp: forged_def headMessages_def VerifySTH_def sthSigningBytes_inj)
  have "commits P (identity_Public operator) (entries s) h"
    using publishedHeads_commit [OF logOk_New [OF assms(2,3)] h(1)] assms(5) by simp
  from logged_any_size [OF this h(2) assms(12,7)] tree h
  have key: "PublicKey e = identity_Public bob" using assms(6,13) by auto
  then have vb: "VerifyBundle P (identity_Public bob) bundle = Inr ()" using assms(14) by simp
  then have "hashBytes (bundleRoot bundle) \<in> prekeyMessages bs lrs"
    using root by (auto simp: forged_def VerifyBundle_Inr)
  moreover have "hashBytes (bundleRoot bundle) \<noteq> lastResortDomainTag @ lrPublicKey lr" if "lr \<in> set lrs" for lr
    using that assms(9) root_not_last_resort [OF _ assms(1)] by metis
  ultimately obtain b where b: "b \<in> set bs" "bundleRoot bundle = batchRoot b"
    by (auto simp: prekeyMessages_def hashBytes_inject)
  obtain sz v v' where "GenerateBatch P bob sz v = (Inr b, v')" using b(1) assms(8) by blast
  with assms(1,2) have "batchInv P (identity_Public bob) b"
    using GenerateBatch_inv(1) [OF _ _ Generate_genuine [OF assms(4)]] by (auto simp: kem_laws_def)
  from bundle_bound [OF this vb b(2) assms(15,16)] key b show ?thesis by auto
qed

text \<open>A log of the demonstration with one entry, published, whose operator logged itself.\<close>

lemma demo_contact:
  assumes kp: "identity_Generate demoPrimitives (demoWorld 64) = (Inr kp, w1)"
    and gen: "genuineKeyPair demoPrimitives kp"
  obtains s w' sth e path where
    "fold (logStep demoPrimitives) [LogAppend [1] (identity_Public kp), LogPublish]
      (NewLogServer kp, demoWorld 32) = (s, w')"
    and "entries s = [e]" and "UserID e = [1]" and "PublicKey e = identity_Public kp"
    and "VerifyInclusion sth e path = Inr ()"
    and "OperatorIdentity sth = identity_Public kp" and "VerifySTH demoPrimitives sth = Inr ()"
    and "\<not> forged demoPrimitives (identity_Public kp)
      (sthSigningBytes (TreeSize sth) (RootHash sth) (sthTimestamp sth)) (sthSignature sth)
      (headMessages (publishedHeads demoPrimitives [LogAppend [1] (identity_Public kp), LogPublish]
        (NewLogServer kp, demoWorld 32)))"
    and "\<forall>x \<in> set (e # entries s). length (UserID x) < 2 ^ 30 \<and> length (idEd25519 (PublicKey x)) = 32"
    and "\<forall>x \<in> set (entries s). UserID x = [1] \<longrightarrow> PublicKey x = identity_Public kp"
proof -
  let ?ops = "[LogAppend [1] (identity_Public kp), LogPublish]"
  let ?heads = "publishedHeads demoPrimitives ?ops (NewLogServer kp, demoWorld 32)"
  obtain s w' sth where
    run: "fold (logStep demoPrimitives) ?ops (NewLogServer kp, demoWorld 32) = (s, w')" and
    sth: "currentSTH s = Some sth" "TreeSize sth = 1" and
    es: "map UserID (entries s) = [[1]]" "map PublicKey (entries s) = [identity_Public kp]"
    by (rule demo_log [OF gen])
  note inv = reachable_logInv [OF demo_signature_laws kp run]
  obtain e where e: "entries s = [e]" "UserID e = [1]" "PublicKey e = identity_Public kp"
    using es by (cases "entries s") auto
  from proof_from_log [OF inv sth(1), of 0] sth(2) e(1)
  obtain path where path: "VerifyInclusion sth e path = Inr ()" by auto
  have head: "OperatorIdentity sth = identity_Public kp" "VerifySTH demoPrimitives sth = Inr ()"
    using inv sth(1) by (simp_all add: logInv_def commits_def)
  obtain s1 v where s1: "Append [1] (identity_Public kp) (NewLogServer kp, demoWorld 32) = (Inr 0, (s1, v))"
    "currentSTH s1 = None" by (simp add: Append_run NewLogServer_def)
  obtain r s2 v2 where p: "PublishSTH demoPrimitives (s1, v) = (r, (s2, v2))" by (metis surj_pair)
  have "s2 = s" using run by (simp add: s1(1) p)
  then have "sth \<in> set ?heads"
    using p sth(1) s1(2) PublishSTH_Inl [of demoPrimitives s1 v] PublishSTH_Inr [of demoPrimitives s1 v]
    by (cases r) (auto simp: s1(1))
  then have noForgery: "\<not> forged demoPrimitives (identity_Public kp)
      (sthSigningBytes (TreeSize sth) (RootHash sth) (sthTimestamp sth)) (sthSignature sth) (headMessages ?heads)"
    by (auto simp: forged_def headMessages_def)
  moreover have "\<forall>x \<in> set (e # entries s). length (UserID x) < 2 ^ 30 \<and> length (idEd25519 (PublicKey x)) = 32"
    using genuine_public(1) [OF demo_signature_laws gen] by (simp add: e)
  moreover have "\<forall>x \<in> set (entries s). UserID x = [1] \<longrightarrow> PublicKey x = identity_Public kp" by (simp add: e)
  ultimately show ?thesis using that run e path head by blast
qed

section \<open>Properties\<close>

text \<open>
  C25: what the signatures bind. The signed bytes of two tree heads are equal exactly when the roots
  are, the sizes agree modulo \<open>2 ^ 32\<close> and the times modulo \<open>2 ^ 64\<close>; so \<open>VerifySTH\<close> accepts a head
  just the same with \<open>2 ^ 32\<close> added to its \<open>TreeSize\<close>. The bytes signed for a head, for the root of
  a batch and for a last-resort key of the proper length never coincide, though only the last
  carries a tag: one kind of signature cannot be passed off as another (sth.go, prekey.go).
\<close>

theorem signed_messages_distinct:
  assumes "length key = PublicKeySize"
  shows "(sthSigningBytes n r t = sthSigningBytes n' r' t' \<longleftrightarrow>
      r = r' \<and> n mod 2 ^ 32 = n' mod 2 ^ 32 \<and> t mod 2 ^ 64 = t' mod 2 ^ 64) \<and>
    VerifySTH P (sth\<lparr>TreeSize := TreeSize sth + 2 ^ 32\<rparr>) = VerifySTH P sth \<and>
    sthSigningBytes n r t \<noteq> hashBytes root \<and>
    lastResortDomainTag @ key \<noteq> hashBytes root \<and> lastResortDomainTag @ key \<noteq> sthSigningBytes n r t"
proof (intro conjI)
  show "sthSigningBytes n r t = sthSigningBytes n' r' t' \<longleftrightarrow>
      r = r' \<and> n mod 2 ^ 32 = n' mod 2 ^ 32 \<and> t mod 2 ^ 64 = t' mod 2 ^ 64"
    by (simp add: sthSigningBytes_inj word_of_int_eq_iff take_bit_eq_mod)
  have "(word_of_int (m + 2 ^ 32) :: u32) = word_of_int m" for m
    by (simp add: word_of_int_eq_iff take_bit_eq_mod)
  then have "sthSigningBytes (m + 2 ^ 32) r t = sthSigningBytes m r t" for m r t
    by (simp add: sthSigningBytes_inj)
  then show "VerifySTH P (sth\<lparr>TreeSize := TreeSize sth + 2 ^ 32\<rparr>) = VerifySTH P sth"
    by (simp add: VerifySTH_def)
  have len: "length (sthSigningBytes n r t) = 44" "length (hashBytes root) = 32"
    "length (lastResortDomainTag @ key) = 1244"
    using assms by (simp_all add: sthSigningBytes_def lastResortDomainTag_def ascii_def PublicKeySize_def
        mlkem_PublicKeySize_def)
  show "sthSigningBytes n r t \<noteq> hashBytes root" "lastResortDomainTag @ key \<noteq> hashBytes root"
    "lastResortDomainTag @ key \<noteq> sthSigningBytes n r t"
    using len by (fastforce dest: arg_cong [of _ _ length])+
qed

lemma signed_messages_distinct_witness:
  "\<forall>r t. length (replicate 1216 (0 :: byte)) = PublicKeySize \<and>
   sthSigningBytes 5 r t = sthSigningBytes (5 + 2 ^ 32) r t \<and>
   lastResortDomainTag @ replicate 1216 0 \<noteq> hashBytes r"
proof (intro allI)
  fix r t
  show "length (replicate 1216 (0 :: byte)) = PublicKeySize \<and>
   sthSigningBytes 5 r t = sthSigningBytes (5 + 2 ^ 32) r t \<and>
   lastResortDomainTag @ replicate 1216 0 \<noteq> hashBytes r"
    using signed_messages_distinct [of "replicate 1216 0" 5 r t "5 + 2 ^ 32" r t]
    by (simp add: PublicKeySize_def mlkem_PublicKeySize_def)
qed

text \<open>
  A relay cannot substitute a contact's keys. The log of an honest operator holds Bob's name
  only with Bob's identity. Whatever head, entry, proof and bundle anyone hands to Alice: if the head
  names the operator and verifies, the entry carries Bob's name and \<open>VerifyInclusion\<close> accepts it,
  and \<open>VerifyBundle\<close> accepts the bundle under the entry's key at an index below \<open>2 ^ 24\<close>, then
  Bob holds the private key that belongs to the bundle's public key at that index; or one of the
  checks was passed with a signature of the operator on no head it published, a signature of Bob on nothing he
  signed (batch roots and last-resort keys), or a proof that, with the tree it is checked
  against, yields a SHA-256 collision. Nothing is assumed of the size the head claims (\<open>sth.go\<close>,
  \<open>client.go\<close>, \<open>prekey.go\<close>).
\<close>

theorem first_contact_authentic:
  assumes "kem_laws P" and "signature_laws P"
    and "identity_Generate P w0 = (Inr operator, w1)" and "identity_Generate P w2 = (Inr bob, w3)"
    and "fold (logStep P) ops (NewLogServer operator, w) = (s, w')"
    and "\<forall>x \<in> set (entries s). UserID x = name \<longrightarrow> PublicKey x = identity_Public bob"
    and "\<forall>x \<in> set (e # entries s). length (UserID x) < 2 ^ 30 \<and> length (idEd25519 (PublicKey x)) = 32"
    and "\<forall>b \<in> set bs. \<exists>sz v v'. GenerateBatch P bob sz v = (Inr b, v')"
    and "\<forall>lr \<in> set lrs. \<exists>priv v v'. GenerateLastResort P bob v = (Inr (priv, lr), v')"
    and "OperatorIdentity sth = identity_Public operator" and "VerifySTH P sth = Inr ()"
    and "VerifyInclusion sth e proof = Inr ()" and "UserID e = name"
    and "VerifyBundle P (PublicKey e) bundle = Inr ()" and "bundleIndex bundle = int i" and "i < 2 ^ 24"
  shows "(\<exists>b \<in> set bs. \<exists>priv. batch_PrivateKey b (int i) = Inr priv \<and>
      kem_MarshalPublicKey (kem_Public P priv) = Inr (bundlePublicKey bundle)) \<or>
    forged P (identity_Public operator) (sthSigningBytes (TreeSize sth) (RootHash sth) (sthTimestamp sth))
      (sthSignature sth) (headMessages (publishedHeads P ops (NewLogServer operator, w))) \<or>
    forged P (identity_Public bob) (hashBytes (bundleRoot bundle)) (bundleRootSignature bundle) (prekeyMessages bs lrs) \<or>
    (\<exists>h \<in> set (publishedHeads P ops (NewLogServer operator, w)). RootHash h = RootHash sth \<and>
      brokenTree translog_merkleDomain (leafOf e) (Index e) proof
        (map leafOf (take (nat (TreeSize h)) (entries s)))) \<or>
    (\<exists>b \<in> set bs. batchRoot b = bundleRoot bundle \<and>
      brokenTree prekey_merkleDomain (prekey_leafData (bundlePublicKey bundle) (int i)) (int i)
        (bundleProof bundle) (batchLeaves b))"
    (is "?genuine \<or> ?forgedHead \<or> ?forgedRoot \<or> ?badLog \<or> ?badBatch")
proof (cases "?forgedHead \<or> ?badLog \<or> ?forgedRoot")
  case False
  with first_contact_checked [OF assms(1-16)] show ?thesis by blast
qed blast

lemma first_contact_authentic_witness:
  "\<exists>kp w1 s w' sth e proof b bundle. identity_Generate demoPrimitives (demoWorld 64) = (Inr kp, w1) \<and>
    fold (logStep demoPrimitives) [LogAppend [1] (identity_Public kp), LogPublish]
      (NewLogServer kp, demoWorld 32) = (s, w') \<and> VerifySTH demoPrimitives sth = Inr () \<and>
    VerifyInclusion sth e proof = Inr () \<and> UserID e = [1] \<and>
    VerifyBundle demoPrimitives (PublicKey e) bundle = Inr () \<and> bundleIndex bundle = 1 \<and>
    ((\<exists>priv. batch_PrivateKey b 1 = Inr priv \<and>
        kem_MarshalPublicKey (kem_Public demoPrimitives priv) = Inr (bundlePublicKey bundle)) \<or>
     (\<exists>h :: SignedTreeHead. brokenTree translog_merkleDomain (leafOf e) (Index e) proof
        (map leafOf (take (nat (TreeSize h)) (entries s)))) \<or>
     brokenTree prekey_merkleDomain (prekey_leafData (bundlePublicKey bundle) 1) 1 (bundleProof bundle) (batchLeaves b))"
proof -
  obtain kp w1 where kp: "identity_Generate demoPrimitives (demoWorld 64) = (Inr kp, w1)"
    and gen: "genuineKeyPair demoPrimitives kp" by (rule demo_identity)
  let ?ops = "[LogAppend [1] (identity_Public kp), LogPublish]"
  let ?heads = "publishedHeads demoPrimitives ?ops (NewLogServer kp, demoWorld 32)"
  obtain s w' sth e path where
    run: "fold (logStep demoPrimitives) ?ops (NewLogServer kp, demoWorld 32) = (s, w')"
    and e: "entries s = [e]" "UserID e = [1]" "PublicKey e = identity_Public kp"
    and path: "VerifyInclusion sth e path = Inr ()"
    and head: "OperatorIdentity sth = identity_Public kp" "VerifySTH demoPrimitives sth = Inr ()"
    and noForgery: "\<not> forged demoPrimitives (identity_Public kp)
      (sthSigningBytes (TreeSize sth) (RootHash sth) (sthTimestamp sth)) (sthSignature sth) (headMessages ?heads)"
    and sizes: "\<forall>x \<in> set (e # entries s). length (UserID x) < 2 ^ 30 \<and> length (idEd25519 (PublicKey x)) = 32"
    and names: "\<forall>x \<in> set (entries s). UserID x = [1] \<longrightarrow> PublicKey x = identity_Public kp"
    by (rule demo_contact [OF kp gen])
  have ml: "mlkem_laws demoPrimitives" using demo_kem_laws by (simp add: kem_laws_def)
  obtain b v3 where b: "GenerateBatch demoPrimitives kp 2 (demoWorld 224) = (Inr b, v3)"
    using demo_batch [OF gen] by blast
  note binv = GenerateBatch_inv [OF ml demo_signature_laws gen b]
  obtain bd where bd: "VerifyBundle demoPrimitives (PublicKey e) bd = Inr ()" "bundleIndex bd = int 1"
    "bundleRoot bd = batchRoot b"
    using batch_Bundle_verifies [OF binv(1), of 1] binv(2) e(3) by auto
  note sizes
  moreover note names
  moreover have "\<forall>b' \<in> set [b]. \<exists>sz v v'. GenerateBatch demoPrimitives kp sz v = (Inr b', v')" using b by auto
  moreover have "\<forall>lr \<in> set []. \<exists>priv v v'. GenerateLastResort demoPrimitives kp v = (Inr (priv, lr), v')" by simp
  ultimately have "(\<exists>b \<in> set [b]. \<exists>priv. batch_PrivateKey b (int 1) = Inr priv \<and>
      kem_MarshalPublicKey (kem_Public demoPrimitives priv) = Inr (bundlePublicKey bd)) \<or>
    forged demoPrimitives (identity_Public kp) (sthSigningBytes (TreeSize sth) (RootHash sth) (sthTimestamp sth))
      (sthSignature sth) (headMessages ?heads) \<or>
    forged demoPrimitives (identity_Public kp) (hashBytes (bundleRoot bd)) (bundleRootSignature bd) (prekeyMessages [b] []) \<or>
    (\<exists>h \<in> set ?heads. RootHash h = RootHash sth \<and>
      brokenTree translog_merkleDomain (leafOf e) (Index e) path (map leafOf (take (nat (TreeSize h)) (entries s)))) \<or>
    (\<exists>b \<in> set [b]. batchRoot b = bundleRoot bd \<and>
      brokenTree prekey_merkleDomain (prekey_leafData (bundlePublicKey bd) (int 1)) (int 1) (bundleProof bd) (batchLeaves b))"
    using head path e(2) bd(1,2)
    by (intro first_contact_authentic [OF demo_kem_laws demo_signature_laws kp kp run]) simp_all
  moreover have "\<not> forged demoPrimitives (identity_Public kp) (hashBytes (bundleRoot bd)) (bundleRootSignature bd)
      (prekeyMessages [b] [])" by (simp add: forged_def prekeyMessages_def bd(3))
  ultimately have "(\<exists>priv. batch_PrivateKey b 1 = Inr priv \<and>
        kem_MarshalPublicKey (kem_Public demoPrimitives priv) = Inr (bundlePublicKey bd)) \<or>
     (\<exists>h :: SignedTreeHead. brokenTree translog_merkleDomain (leafOf e) (Index e) path
        (map leafOf (take (nat (TreeSize h)) (entries s)))) \<or>
     brokenTree prekey_merkleDomain (prekey_leafData (bundlePublicKey bd) 1) 1 (bundleProof bd) (batchLeaves b)"
    using noForgery by (auto simp del: publishedHeads.simps)
  moreover have "bundleIndex bd = 1" using bd(2) by simp
  ultimately show ?thesis using kp run head(2) path e(2) bd(1) by blast
qed

end
