(* ===== verification/FirstSession.thy ===== *)
theory FirstSession
  imports FirstContact Relayed
begin

text \<open>
  The first message to a new contact, end to end: what Alice checks before she sends
  (\<open>FirstContact\<close>) and what Bob needs to read it (\<open>session.go\<close>), without trust in the relay
  that handed her Bob's keys.
\<close>

section \<open>The responder's own record\<close>

text \<open>
  Bob holds the private key of the slot a foreign bundle names; then his own bundle of the slot
  completes the session that was opened on the foreign one.
\<close>

lemma own_slot_reached:
  assumes laws: "lawful P" and bob: "genuineKeyPair P bob"
    and batch: "GenerateBatch P bob sz v = (Inr b, v')"
    and priv: "batch_PrivateKey b (int i) = Inr priv"
    and pub: "kem_MarshalPublicKey (kem_Public P priv) = Inr (bundlePublicKey bundle)"
    and slot: "bundleRoot bundle = batchRoot b" "bundleIndex bundle = int i"
    and alice: "EstablishAsInitiator P alice (identity_Public bob) bundle pt w = (Inr (a, msg), w')"
  shows "\<exists>own st u. batch_Bundle b (int i) = Inr own \<and>
    EstablishAsResponder P bob own priv msg wB = (Inr (st, pt), u) \<and> conversesFaithfully P a st"
proof -
  have l: "mlkem_laws P" "signature_laws P" "kem_laws P" using laws by (simp_all add: lawful_def kem_laws_def)
  note inv = GenerateBatch_inv [OF l(1,2) bob batch]
  have i: "int i < batch_Size b" "priv = batchPrivates b ! i"
    using priv by (auto simp: batch_PrivateKey_def batch_Size_def sliceAt_def split: if_splits)
  then have g: "genuineKem P priv" using inv(1) by (simp add: batchInv_def batch_Size_def)
  from batch_Bundle_verifies [OF inv(1), of "int i"] i(1) obtain own where
    own: "batch_Bundle b (int i) = Inr own" "bundleIndex own = int i" "bundleRoot own = batchRoot b" by auto
  have "kem_UnmarshalPublicKey P (bundlePublicKey bundle) = Inr (kem_Public P priv)"
    using hybrid_kem.encode_decode [of P priv] g l(3) pub by auto
  from initiator_reaches [OF laws g this _ _ alice, of own wB] own slot
  show ?thesis using paired_converses [OF laws] by auto
qed

section \<open>Property\<close>

text \<open>
  C2: the first message to a new contact is for the contact, whatever the relay does. The log of an
  honest operator holds Bob's name only with Bob's identity. Anyone hands Alice a head, an entry,
  a proof and a bundle; the head names the operator and verifies, \<open>VerifyInclusion\<close> accepts the
  entry, which carries Bob's name, and \<open>EstablishAsInitiator\<close> succeeds on the bundle with the
  entry's key, at an index below \<open>2 ^ 24\<close>. Then one of Bob's batches has that slot, and with his own record
  of it \<open>EstablishAsResponder\<close> accepts Alice's message, returns her plaintext, and every
  conversation that follows over in-order channels is faithful; or one of the checks
  was passed with a signature of the operator on no head it published, a signature of Bob on nothing
  he signed (batch roots and last-resort keys), or a proof that, with the tree it is checked against,
  yields a SHA-256 collision: the tree of the entries under the published head with that root, or of
  Bob's batch with that root. User names are shorter than \<open>2 ^ 30\<close> bytes and Ed25519 keys of 32;
  nothing is assumed of the sizes that head and bundle claim (\<open>sth.go\<close>, \<open>client.go\<close>, \<open>prekey.go\<close>,
  \<open>session.go\<close>).
\<close>

theorem first_session_reaches_contact:
  assumes "lawful P"
    and "identity_Generate P w0 = (Inr operator, w1)" and "identity_Generate P w2 = (Inr bob, w3)"
    and "fold (logStep P) ops (NewLogServer operator, w4) = (s, w5)"
    and "\<forall>x \<in> set (entries s). UserID x = name \<longrightarrow> PublicKey x = identity_Public bob"
    and "\<forall>x \<in> set (e # entries s). length (UserID x) < 2 ^ 30 \<and> length (idEd25519 (PublicKey x)) = 32"
    and "\<forall>b \<in> set bs. \<exists>sz v v'. GenerateBatch P bob sz v = (Inr b, v')"
    and "\<forall>lr \<in> set lrs. \<exists>priv v v'. GenerateLastResort P bob v = (Inr (priv, lr), v')"
    and "OperatorIdentity sth = identity_Public operator" and "VerifySTH P sth = Inr ()"
    and "VerifyInclusion sth e proof = Inr ()" and "UserID e = name"
    and "EstablishAsInitiator P alice (PublicKey e) bundle pt w = (Inr (a, msg), w')"
    and "bundleIndex bundle = int i" and "i < 2 ^ 24"
  shows "(\<exists>b \<in> set bs. \<exists>priv own st v. batch_PrivateKey b (int i) = Inr priv \<and> batch_Bundle b (int i) = Inr own \<and>
      EstablishAsResponder P bob own priv msg wB = (Inr (st, pt), v) \<and> conversesFaithfully P a st) \<or>
    forged P (identity_Public operator) (sthSigningBytes (TreeSize sth) (RootHash sth) (sthTimestamp sth))
      (sthSignature sth) (headMessages (publishedHeads P ops (NewLogServer operator, w4))) \<or>
    forged P (identity_Public bob) (hashBytes (bundleRoot bundle)) (bundleRootSignature bundle) (prekeyMessages bs lrs) \<or>
    (\<exists>h \<in> set (publishedHeads P ops (NewLogServer operator, w4)). RootHash h = RootHash sth \<and>
      brokenTree translog_merkleDomain (leafOf e) (Index e) proof
        (map leafOf (take (nat (TreeSize h)) (entries s)))) \<or>
    (\<exists>b \<in> set bs. batchRoot b = bundleRoot bundle \<and>
      brokenTree prekey_merkleDomain (prekey_leafData (bundlePublicKey bundle) (int i)) (int i)
        (bundleProof bundle) (batchLeaves b))"
    (is "?reached \<or> ?forgedHead \<or> ?forgedRoot \<or> ?badLog \<or> ?badBatch")
proof (cases "?forgedHead \<or> ?badLog \<or> ?forgedRoot")
  case False
  have laws: "kem_laws P" "signature_laws P" using assms(1) by (simp_all add: lawful_def kem_laws_def)
  have vb: "VerifyBundle P (PublicKey e) bundle = Inr ()"
    using assms(13) by (auto simp: EstablishAsInitiator_def tryS_Inr)
  from False first_contact_checked [OF laws assms(2-12) vb assms(14,15)]
  obtain b where key: "PublicKey e = identity_Public bob" and b: "b \<in> set bs" "bundleRoot bundle = batchRoot b"
    and slot: "(\<exists>priv. batch_PrivateKey b (int i) = Inr priv \<and>
        kem_MarshalPublicKey (kem_Public P priv) = Inr (bundlePublicKey bundle)) \<or>
     brokenTree prekey_merkleDomain (prekey_leafData (bundlePublicKey bundle) (int i)) (int i)
       (bundleProof bundle) (batchLeaves b)" by metis
  obtain sz v v' where gen: "GenerateBatch P bob sz v = (Inr b, v')" using b(1) assms(7) by blast
  have run: "EstablishAsInitiator P alice (identity_Public bob) bundle pt w = (Inr (a, msg), w')"
    using assms(13) key by simp
  from slot show ?thesis
  proof
    assume "\<exists>priv. batch_PrivateKey b (int i) = Inr priv \<and>
      kem_MarshalPublicKey (kem_Public P priv) = Inr (bundlePublicKey bundle)"
    then obtain priv where "batch_PrivateKey b (int i) = Inr priv"
      "kem_MarshalPublicKey (kem_Public P priv) = Inr (bundlePublicKey bundle)" by blast
    with own_slot_reached [OF assms(1) Generate_genuine [OF assms(3)] gen this b(2) assms(14) run] b(1)
    show ?thesis by blast
  qed (use b in auto)
qed blast

lemma first_session_reaches_contact_witness:
  "\<exists>bob s w' sth e proof b bundle a msg v u. identity_Generate demoPrimitives (demoWorld 64) = (Inr bob, v) \<and>
    fold (logStep demoPrimitives) [LogAppend [1] (identity_Public bob), LogPublish]
      (NewLogServer bob, demoWorld 32) = (s, w') \<and> VerifySTH demoPrimitives sth = Inr () \<and>
    VerifyInclusion sth e proof = Inr () \<and> UserID e = [1] \<and>
    EstablishAsInitiator demoPrimitives bob (PublicKey e) bundle [104] (demoWorld 96) = (Inr (a, msg), u) \<and>
    ((\<exists>priv own st v. batch_PrivateKey b 0 = Inr priv \<and> batch_Bundle b 0 = Inr own \<and>
        EstablishAsResponder demoPrimitives bob own priv msg (demoWorld 0) = (Inr (st, [104]), v) \<and>
        conversesFaithfully demoPrimitives a st) \<or>
     (\<exists>h :: SignedTreeHead. brokenTree translog_merkleDomain (leafOf e) (Index e) proof
        (map leafOf (take (nat (TreeSize h)) (entries s)))) \<or>
     brokenTree prekey_merkleDomain (prekey_leafData (bundlePublicKey bundle) 0) 0 (bundleProof bundle) (batchLeaves b))"
proof -
  obtain bob w1 batch w3 bd a msg w2 b wB' where est:
    "identity_Generate demoPrimitives (demoWorld 64) = (Inr bob, w1)"
    "GenerateBatch demoPrimitives bob 1 (demoWorld 128) = (Inr batch, w3)"
    "batch_Bundle batch 0 = Inr bd" "batch_PrivateKey batch 0 = Inr demoKemPriv"
    "EstablishAsInitiator demoPrimitives bob (identity_Public bob) bd [104] (demoWorld 96) = (Inr (a, msg), w2)"
    "EstablishAsResponder demoPrimitives bob bd demoKemPriv msg (demoWorld 0) = (Inr (b, [104]), wB')"
    by (rule demo_established)
  let ?ops = "[LogAppend [1] (identity_Public bob), LogPublish]"
  let ?heads = "publishedHeads demoPrimitives ?ops (NewLogServer bob, demoWorld 32)"
  obtain s w' sth e path where
    run: "fold (logStep demoPrimitives) ?ops (NewLogServer bob, demoWorld 32) = (s, w')"
    and e: "entries s = [e]" "UserID e = [1]" "PublicKey e = identity_Public bob"
    and path: "VerifyInclusion sth e path = Inr ()"
    and head: "OperatorIdentity sth = identity_Public bob" "VerifySTH demoPrimitives sth = Inr ()"
    and noForgery: "\<not> forged demoPrimitives (identity_Public bob)
      (sthSigningBytes (TreeSize sth) (RootHash sth) (sthTimestamp sth)) (sthSignature sth) (headMessages ?heads)"
    and sizes: "\<forall>x \<in> set (e # entries s). length (UserID x) < 2 ^ 30 \<and> length (idEd25519 (PublicKey x)) = 32"
    and names: "\<forall>x \<in> set (entries s). UserID x = [1] \<longrightarrow> PublicKey x = identity_Public bob"
    by (rule demo_contact [OF est(1) Generate_genuine [OF est(1)]])
  have bd: "bundleRoot bd = batchRoot batch" "bundleIndex bd = int 0"
    using est(3) by (auto simp: batch_Bundle_def tryE_Inr split: if_splits)
  then have root: "\<not> forged demoPrimitives (identity_Public bob) (hashBytes (bundleRoot bd))
      (bundleRootSignature bd) (prekeyMessages [batch] [])" by (simp add: forged_def prekeyMessages_def)
  have "\<forall>b \<in> set [batch]. \<exists>sz v v'. GenerateBatch demoPrimitives bob sz v = (Inr b, v')" using est(2) by auto
  moreover have "\<forall>lr \<in> set []. \<exists>priv v v'. GenerateLastResort demoPrimitives bob v = (Inr (priv, lr), v')" by simp
  moreover have sess: "EstablishAsInitiator demoPrimitives bob (PublicKey e) bd [104] (demoWorld 96) = (Inr (a, msg), w2)"
    using est(5) e(3) by simp
  ultimately have "(\<exists>b \<in> set [batch]. \<exists>priv own st v. batch_PrivateKey b (int 0) = Inr priv \<and>
      batch_Bundle b (int 0) = Inr own \<and>
      EstablishAsResponder demoPrimitives bob own priv msg (demoWorld 0) = (Inr (st, [104]), v) \<and>
      conversesFaithfully demoPrimitives a st) \<or>
    forged demoPrimitives (identity_Public bob)
      (sthSigningBytes (TreeSize sth) (RootHash sth) (sthTimestamp sth)) (sthSignature sth) (headMessages ?heads) \<or>
    forged demoPrimitives (identity_Public bob) (hashBytes (bundleRoot bd)) (bundleRootSignature bd)
      (prekeyMessages [batch] []) \<or>
    (\<exists>h \<in> set ?heads. RootHash h = RootHash sth \<and>
      brokenTree translog_merkleDomain (leafOf e) (Index e) path (map leafOf (take (nat (TreeSize h)) (entries s)))) \<or>
    (\<exists>b \<in> set [batch]. batchRoot b = bundleRoot bd \<and>
      brokenTree prekey_merkleDomain (prekey_leafData (bundlePublicKey bd) (int 0)) (int 0) (bundleProof bd) (batchLeaves b))"
    by (intro first_session_reaches_contact [OF demo_lawful est(1) est(1) run names sizes _ _ head path e(2) _ bd(2)])
      simp_all
  with noForgery root have "(\<exists>priv own st v. batch_PrivateKey batch 0 = Inr priv \<and> batch_Bundle batch 0 = Inr own \<and>
      EstablishAsResponder demoPrimitives bob own priv msg (demoWorld 0) = (Inr (st, [104]), v) \<and>
      conversesFaithfully demoPrimitives a st) \<or>
    (\<exists>h :: SignedTreeHead. brokenTree translog_merkleDomain (leafOf e) (Index e) path
      (map leafOf (take (nat (TreeSize h)) (entries s)))) \<or>
    brokenTree prekey_merkleDomain (prekey_leafData (bundlePublicKey bd) 0) 0 (bundleProof bd) (batchLeaves batch)"
    by auto
  with est(1) run head(2) path e(2) sess show ?thesis by blast
qed

end
