(* ===== verification/Gossip.thy ===== *)
theory Gossip
  imports Translog
begin

text \<open>
  \<open>translog/witness.go\<close> and \<open>CheckKeyChange\<close> of \<open>client.go\<close>: the tree heads a client remembers,
  gossip between clients, evidence of equivocation, and the alert on a changed key.
\<close>

section \<open>Evidence\<close>

record Evidence =
  evA :: SignedTreeHead
  evB :: SignedTreeHead

definition VerifyEvidence :: "primitives \<Rightarrow> Evidence \<Rightarrow> IdPublicKey \<Rightarrow> fault + unit" where
  "VerifyEvidence P ev operatorPub =
     (if TreeSize (evA ev) \<noteq> TreeSize (evB ev) then Inl (GoError ErrEvidenceTreeSizeMismatch)
      else if RootHash (evA ev) = RootHash (evB ev) then Inl (GoError ErrEvidenceSameRoot)
      else
        tryE (VerifySTH P (evA ev)) (\<lambda>_.
        tryE (VerifySTH P (evB ev)) (\<lambda>_.
        if \<not> identity_Equal (OperatorIdentity (evA ev)) (OperatorIdentity (evB ev))
        then Inl (GoError ErrEvidenceOperatorMismatch)
        else if \<not> identity_Equal (OperatorIdentity (evA ev)) operatorPub
        then Inl (GoError ErrEvidenceWrongOperator)
        else Inr ())))"

section \<open>Client views\<close>

record ClientView =
  cvOperatorIdentity :: IdPublicKey
  seen :: "int \<rightharpoonup> SignedTreeHead"

definition NewClientView :: "IdPublicKey \<Rightarrow> ClientView" where
  "NewClientView op = \<lparr>cvOperatorIdentity = op, seen = Map.empty\<rparr>"

definition Observe :: "primitives \<Rightarrow> SignedTreeHead \<Rightarrow> (ClientView, Evidence option) action" where
  "Observe P sth c =
     (if \<not> identity_Equal (OperatorIdentity sth) (cvOperatorIdentity c)
      then (Inl (GoError ErrSTHFromUnexpectedOperator), c)
      else case VerifySTH P sth of
        Inl e \<Rightarrow> (Inl e, c)
      | Inr _ \<Rightarrow>
          (case seen c (TreeSize sth) of
             Some prior \<Rightarrow>
               if RootHash prior \<noteq> RootHash sth then (Inr (Some \<lparr>evA = prior, evB = sth\<rparr>), c)
               else (Inr None, c)
           | None \<Rightarrow> (Inr None, c\<lparr>seen := (seen c)(TreeSize sth \<mapsto> sth)\<rparr>)))"

text \<open>A loop of \<open>GossipWith\<close>: errors are skipped, a panic is not.\<close>

fun observeAll :: "primitives \<Rightarrow> SignedTreeHead list \<Rightarrow> (ClientView, Evidence list) action" where
  "observeAll P [] c = (Inr [], c)"
| "observeAll P (sth # sths) c =
     (case Observe P sth c of
        (Inl (GoError _), c) \<Rightarrow> observeAll P sths c
      | (Inl f, c) \<Rightarrow> (Inl f, c)
      | (Inr None, c) \<Rightarrow> observeAll P sths c
      | (Inr (Some ev), c) \<Rightarrow> tryS (observeAll P sths) (\<lambda>evs. ret (ev # evs)) c)"

text \<open>
  The heads of a view in the order in which Go's \<open>range\<close> visits its map, which the language
  leaves open, and the exchange between two different views.
\<close>

definition snapshot :: "int list \<Rightarrow> ClientView \<Rightarrow> SignedTreeHead list" where
  "snapshot order c = List.map_filter (seen c) order"

definition GossipWith ::
  "primitives \<Rightarrow> int list \<Rightarrow> int list \<Rightarrow> (ClientView \<times> ClientView, Evidence list \<times> Evidence list) action" where
  "GossipWith P orderC orderOther = (\<lambda>(c, other).
     let otherSTHs = snapshot orderOther other; cSTHs = snapshot orderC c in
     tryS (liftT (observeAll P otherSTHs)) (\<lambda>evidenceForC.
     tryS (liftW (observeAll P cSTHs)) (\<lambda>evidenceForOther.
     ret (evidenceForC, evidenceForOther))) (c, other))"

section \<open>Alerts\<close>

datatype AlertLevel = AlertNone | AlertSoftNotice | AlertBlocking

fun alertCode :: "AlertLevel \<Rightarrow> int" where
  "alertCode AlertNone = 0"
| "alertCode AlertSoftNotice = 1"
| "alertCode AlertBlocking = 2"

lemma alertCode_inj [simp]: "alertCode a = alertCode b \<longleftrightarrow> a = b"
  by (cases a; cases b) simp_all

text \<open>The constants are numbered by \<open>iota\<close>.\<close>

instantiation AlertLevel :: linorder
begin

definition less_eq_AlertLevel :: "AlertLevel \<Rightarrow> AlertLevel \<Rightarrow> bool" where
  "a \<le> b \<longleftrightarrow> alertCode a \<le> alertCode b"

definition less_AlertLevel :: "AlertLevel \<Rightarrow> AlertLevel \<Rightarrow> bool" where
  "a < b \<longleftrightarrow> alertCode a < alertCode b"

instance
proof
  fix a b :: AlertLevel
  show "a \<le> b \<Longrightarrow> b \<le> a \<Longrightarrow> a = b"
    by (cases a; cases b) (simp_all add: less_eq_AlertLevel_def)
qed (auto simp: less_eq_AlertLevel_def less_AlertLevel_def)

end

definition CheckKeyChange :: "IdPublicKey \<Rightarrow> IdPublicKey \<Rightarrow> bool \<Rightarrow> AlertLevel" where
  "CheckKeyChange pinned observed observedIsLogged =
     (if identity_Equal pinned observed then AlertNone
      else if observedIsLogged then AlertSoftNotice
      else AlertBlocking)"

section \<open>Lemmas\<close>

text \<open>Every head in a view is one that verified, filed under its size.\<close>

definition viewOk :: "primitives \<Rightarrow> ClientView \<Rightarrow> bool" where
  "viewOk P c \<longleftrightarrow> (\<forall>n sth. seen c n = Some sth \<longrightarrow> TreeSize sth = n \<and>
     VerifySTH P sth = Inr () \<and> OperatorIdentity sth = cvOperatorIdentity c)"

lemma viewOk_New: "viewOk P (NewClientView op)"
  by (simp add: viewOk_def NewClientView_def)

lemma Observe_operator [simp]: "cvOperatorIdentity (snd (Observe P sth c)) = cvOperatorIdentity c"
  by (simp add: Observe_def split: sum.split option.split)

lemma Observe_viewOk: "viewOk P c \<Longrightarrow> viewOk P (snd (Observe P sth c))"
  by (auto simp: viewOk_def Observe_def split: sum.split option.split)

interpretation view: guarded_machine "\<lambda>sth c. snd (Observe P sth c)" "viewOk P" for P
  by unfold_locales (rule Observe_viewOk)

definition observed :: "primitives \<Rightarrow> IdPublicKey \<Rightarrow> SignedTreeHead list \<Rightarrow> ClientView" where
  "observed P op sths = fold (\<lambda>sth c. snd (Observe P sth c)) sths (NewClientView op)"

lemma observed_ok: "viewOk P (observed P op sths)"
  unfolding observed_def by (rule view.inv_run [OF viewOk_New])

lemma observed_operator [simp]: "cvOperatorIdentity (observed P op sths) = op"
proof -
  have "cvOperatorIdentity (fold (\<lambda>sth c. snd (Observe P sth c)) sths c) = cvOperatorIdentity c" for c
    by (induction sths arbitrary: c) simp_all
  then show ?thesis by (simp add: observed_def NewClientView_def)
qed

text \<open>Heads of one operator that verify are merged; conflicts with what is known are evidence.\<close>

definition validFor :: "primitives \<Rightarrow> IdPublicKey \<Rightarrow> SignedTreeHead \<Rightarrow> bool" where
  "validFor P op sth \<longleftrightarrow> OperatorIdentity sth = op \<and> VerifySTH P sth = Inr ()"

fun conflicts :: "ClientView \<Rightarrow> SignedTreeHead list \<Rightarrow> Evidence list" where
  "conflicts c [] = []"
| "conflicts c (sth # sths) =
     (case seen c (TreeSize sth) of
        None \<Rightarrow> []
      | Some prior \<Rightarrow> if RootHash prior \<noteq> RootHash sth then [\<lparr>evA = prior, evB = sth\<rparr>] else []) @
     conflicts c sths"

definition merged :: "ClientView \<Rightarrow> SignedTreeHead list \<Rightarrow> ClientView" where
  "merged c sths = c\<lparr>seen := map_of (map (\<lambda>sth. (TreeSize sth, sth)) sths) ++ seen c\<rparr>"

lemma Observe_valid:
  "validFor P (cvOperatorIdentity c) sth \<Longrightarrow> Observe P sth c =
     (case seen c (TreeSize sth) of
        Some prior \<Rightarrow> (Inr (if RootHash prior \<noteq> RootHash sth then Some \<lparr>evA = prior, evB = sth\<rparr> else None), c)
      | None \<Rightarrow> (Inr None, c\<lparr>seen := (seen c)(TreeSize sth \<mapsto> sth)\<rparr>))"
  by (simp add: validFor_def Observe_def split: option.split)

lemma conflicts_cong:
  "\<forall>x \<in> set sths. seen c (TreeSize x) = seen c' (TreeSize x) \<Longrightarrow> conflicts c sths = conflicts c' sths"
  by (induction sths) simp_all

lemma observeAll_valid:
  assumes "\<forall>sth \<in> set sths. validFor P (cvOperatorIdentity c) sth" and "distinct (map TreeSize sths)"
  shows "observeAll P sths c = (Inr (conflicts c sths), merged c sths)"
  using assms
proof (induction sths arbitrary: c)
  case Nil
  then show ?case by (simp add: merged_def)
next
  case (Cons sth sths)
  have v: "validFor P (cvOperatorIdentity c) sth" using Cons.prems(1) by simp
  show ?case
  proof (cases "seen c (TreeSize sth)")
    case None
    let ?c = "c\<lparr>seen := (seen c)(TreeSize sth \<mapsto> sth)\<rparr>"
    have new: "\<forall>x \<in> set sths. TreeSize x \<noteq> TreeSize sth"
      using Cons.prems(2) by (metis distinct.simps(2) image_eqI list.set_map list.simps(9))
    then have "conflicts ?c sths = conflicts c sths" by (intro conflicts_cong) simp
    moreover have "map_of (map (\<lambda>sth. (TreeSize sth, sth)) sths) (TreeSize sth) = None"
      using new by (auto simp: map_of_eq_None_iff)
    then have "merged ?c sths = merged c (sth # sths)"
      using None by (auto simp: merged_def fun_eq_iff map_add_def split: option.split)
    moreover have "observeAll P sths ?c = (Inr (conflicts ?c sths), merged ?c sths)"
      using Cons.prems by (intro Cons.IH) auto
    ultimately show ?thesis
      using None by (simp add: Observe_valid [OF v])
  next
    case (Some prior)
    have "observeAll P sths c = (Inr (conflicts c sths), merged c sths)"
      using Cons.prems by (intro Cons.IH) auto
    moreover have "merged c (sth # sths) = merged c sths"
      using Some by (auto simp: merged_def fun_eq_iff map_add_def split: option.split)
    ultimately show ?thesis
      using Some by (simp add: Observe_valid [OF v] tryS_step)
  qed
qed

lemma in_conflicts:
  "ev \<in> set (conflicts c sths) \<longleftrightarrow> evB ev \<in> set sths \<and> RootHash (evA ev) \<noteq> RootHash (evB ev) \<and>
     seen c (TreeSize (evB ev)) = Some (evA ev)"
proof (induction sths)
  case (Cons sth sths)
  then show ?case by (cases ev) (auto split: option.splits)
qed simp

lemma in_map_filter: "y \<in> set (List.map_filter f xs) \<longleftrightarrow> (\<exists>x \<in> set xs. f x = Some y)"
  by (induction xs) (auto simp: List.map_filter_simps split: option.splits)

text \<open>A snapshot is the map as a list.\<close>

lemma snapshot_facts:
  assumes "viewOk P c" and "distinct order" and "set order = dom (seen c)"
  shows "distinct (map TreeSize (snapshot order c))"
    and "sth \<in> set (snapshot order c) \<longleftrightarrow> seen c (TreeSize sth) = Some sth"
    and "\<forall>sth \<in> set (snapshot order c). validFor P (cvOperatorIdentity c) sth"
    and "map_of (map (\<lambda>sth. (TreeSize sth, sth)) (snapshot order c)) = seen c"
proof -
  have "map TreeSize (List.map_filter (seen c) ns) = filter (\<lambda>n. n \<in> dom (seen c)) ns" for ns
    using assms(1) by (induction ns) (auto simp: List.map_filter_simps viewOk_def split: option.splits)
  then show d: "distinct (map TreeSize (snapshot order c))"
    using assms(2) by (simp add: snapshot_def)
  have m: "sth \<in> set (snapshot order c) \<longleftrightarrow> seen c (TreeSize sth) = Some sth" for sth
    using assms(1) unfolding snapshot_def in_map_filter assms(3) viewOk_def by blast
  then show "sth \<in> set (snapshot order c) \<longleftrightarrow> seen c (TreeSize sth) = Some sth" .
  show "\<forall>sth \<in> set (snapshot order c). validFor P (cvOperatorIdentity c) sth"
    using assms(1) by (auto simp: m viewOk_def validFor_def)
  show "map_of (map (\<lambda>sth. (TreeSize sth, sth)) (snapshot order c)) = seen c"
  proof
    fix n
    let ?heads = "map (\<lambda>sth. (TreeSize sth, sth)) (snapshot order c)"
    have "map_of ?heads n = Some sth \<longleftrightarrow> seen c n = Some sth" for sth
    proof -
      have "map_of ?heads n = Some sth \<longleftrightarrow> (n, sth) \<in> set ?heads"
        using d by (intro map_of_eq_Some_iff) (simp add: o_def)
      also have "\<dots> \<longleftrightarrow> sth \<in> set (snapshot order c) \<and> TreeSize sth = n" by auto
      also have "\<dots> \<longleftrightarrow> seen c n = Some sth"
        unfolding m using assms(1) unfolding viewOk_def by blast
      finally show ?thesis .
    qed
    then show "map_of (map (\<lambda>sth. (TreeSize sth, sth)) (snapshot order c)) n = seen c n"
      by (metis option.exhaust)
  qed
qed

lemma GossipWith_run:
  assumes "viewOk P c" and "viewOk P other" and "cvOperatorIdentity other = cvOperatorIdentity c"
    and "distinct orderC" and "set orderC = dom (seen c)"
    and "distinct orderOther" and "set orderOther = dom (seen other)"
  shows "GossipWith P orderC orderOther (c, other) =
    (Inr (conflicts c (snapshot orderOther other), conflicts other (snapshot orderC c)),
     (c\<lparr>seen := seen other ++ seen c\<rparr>, other\<lparr>seen := seen c ++ seen other\<rparr>))"
  using observeAll_valid [of "snapshot orderOther other" P c] observeAll_valid [of "snapshot orderC c" P other]
    snapshot_facts [OF assms(1,4,5)] snapshot_facts [OF assms(2,6,7)] assms(3)
  by (simp add: GossipWith_def tryS_step liftT_run liftW_run merged_def)

lemma conflict_verifies:
  assumes "viewOk P c" and "validFor P (cvOperatorIdentity c) sth"
    and "seen c (TreeSize sth) = Some prior" and "RootHash prior \<noteq> RootHash sth"
  shows "VerifyEvidence P \<lparr>evA = prior, evB = sth\<rparr> (cvOperatorIdentity c) = Inr ()"
  using assms by (auto simp: VerifyEvidence_def viewOk_def validFor_def)

lemma observed_snoc: "observed P op (sths @ [sth]) = snd (Observe P sth (observed P op sths))"
  by (simp add: observed_def)

lemma observed_seen: "seen (observed P op sths) n = Some h \<Longrightarrow> h \<in> set sths"
proof (induction sths rule: rev_induct)
  case Nil
  then show ?case by (simp add: observed_def NewClientView_def)
next
  case (snoc sth sths)
  then show ?case
    by (auto simp: observed_snoc Observe_def split: if_splits sum.splits option.splits)
qed

text \<open>Two heads an operator signed for one size, over the demonstration primitives.\<close>

definition demoRoot :: "byte \<Rightarrow> Hash" where
  "demoRoot b = Hash (replicate 32 b)"

lemma demoRoot_inj: "demoRoot a = demoRoot b \<longleftrightarrow> a = b"
  by (simp add: demoRoot_def Hash_inject)

lemma demo_heads:
  obtains kp a b where "validFor demoPrimitives (identity_Public kp) a"
    and "validFor demoPrimitives (identity_Public kp) b"
    and "TreeSize a = 5" and "TreeSize b = n" and "RootHash a = demoRoot 0" and "RootHash b = demoRoot 1"
proof -
  obtain kp w1 where gen: "genuineKeyPair demoPrimitives kp" by (rule demo_identity)
  have "\<exists>sth. validFor demoPrimitives (identity_Public kp) sth \<and> TreeSize sth = k \<and> RootHash sth = r" for k r
  proof -
    obtain sth w' where h: "signTreeHead demoPrimitives kp k r 0 (demoWorld 32) = (Inr sth, w')"
      using signTreeHead_succeeds [OF demo_signature_laws gen, of "demoWorld 32" k r 0] by auto
    moreover from h have "TreeSize sth = k" "RootHash sth = r"
      by (auto simp: signTreeHead_def tryS_Inr)
    ultimately show ?thesis
      using signTreeHead_verifies [OF demo_signature_laws gen h] unfolding validFor_def by blast
  qed
  with that show ?thesis by metis
qed

text \<open>What gossip can find: the sizes at which two views hold different roots.\<close>

lemma conflicts_snapshot:
  assumes "viewOk P u" and "viewOk P v" and "distinct order" and "set order = dom (seen u)"
  shows "set (conflicts v (snapshot order u)) = {\<lparr>evA = a, evB = b\<rparr> | a b. \<exists>n. seen v n = Some a \<and>
      seen u n = Some b \<and> RootHash a \<noteq> RootHash b}" (is "_ = ?S")
proof (rule set_eqI)
  fix ev :: Evidence
  obtain a b where ev: "ev = \<lparr>evA = a, evB = b\<rparr>" by (cases ev)
  have "ev \<in> set (conflicts v (snapshot order u)) \<longleftrightarrow>
      seen u (TreeSize b) = Some b \<and> RootHash a \<noteq> RootHash b \<and> seen v (TreeSize b) = Some a"
    by (simp add: ev in_conflicts snapshot_facts(2) [OF assms(1,3,4)])
  also have "\<dots> \<longleftrightarrow> ev \<in> ?S" using assms(1) unfolding ev viewOk_def by auto
  finally show "ev \<in> set (conflicts v (snapshot order u)) \<longleftrightarrow> ev \<in> ?S" .
qed

lemma conflicts_verify:
  assumes "ev \<in> set (conflicts v sths)" and "viewOk P v" and "\<forall>sth \<in> set sths. validFor P op sth"
    and "cvOperatorIdentity v = op"
  shows "VerifyEvidence P ev op = Inr ()"
proof -
  obtain a b where "ev = \<lparr>evA = a, evB = b\<rparr>" by (cases ev)
  with assms conflict_verifies [OF assms(2), of b a] show ?thesis by (auto simp: in_conflicts)
qed

section \<open>Properties\<close>

text \<open>
  C27: evidence convicts only liars. When a view that has observed any heads reports evidence on a
  further one, \<open>VerifyEvidence\<close> confirms it against the view's operator, it consists of a head
  observed before and the new one, and no log holds entries that both commit to: heads published
  by an append-only log never raise it (witness.go).
\<close>

theorem evidence_is_genuine:
  assumes "Observe P sth (observed P op sths) = (Inr (Some ev), c')"
  shows "VerifyEvidence P ev op = Inr () \<and> evA ev \<in> set sths \<and> evB ev = sth \<and>
    (\<forall>es. \<not> (commits P op es (evA ev) \<and> commits P op es (evB ev)))"
proof -
  let ?c = "observed P op sths"
  obtain prior where p: "seen ?c (TreeSize sth) = Some prior" "RootHash prior \<noteq> RootHash sth"
    "ev = \<lparr>evA = prior, evB = sth\<rparr>" and v: "validFor P op sth"
    using assms by (auto simp: Observe_def validFor_def split: if_splits sum.splits option.splits)
  have "VerifyEvidence P ev op = Inr ()"
    using conflict_verifies [OF observed_ok _ p(1,2)] v p(3) by simp
  moreover have "TreeSize prior = TreeSize sth"
    using observed_ok [of P op sths] p(1) by (simp add: viewOk_def)
  then have "\<not> (commits P op es prior \<and> commits P op es sth)" for es
    using p(2) by (auto simp: commits_def)
  ultimately show ?thesis using p observed_seen by fastforce
qed

lemma evidence_is_genuine_witness:
  "\<exists>op a b c'. Observe demoPrimitives b (observed demoPrimitives op [a]) = (Inr (Some \<lparr>evA = a, evB = b\<rparr>), c') \<and>
     VerifyEvidence demoPrimitives \<lparr>evA = a, evB = b\<rparr> op = Inr ()"
proof -
  obtain kp a b where h: "validFor demoPrimitives (identity_Public kp) a"
    "validFor demoPrimitives (identity_Public kp) b" "TreeSize a = 5" "TreeSize b = 5"
    "RootHash a = demoRoot 0" "RootHash b = demoRoot 1" by (rule demo_heads)
  let ?op = "identity_Public kp"
  have "observed demoPrimitives ?op [a] = \<lparr>cvOperatorIdentity = ?op, seen = [5 \<mapsto> a]\<rparr>"
    using h(1,3) by (simp add: observed_def Observe_valid NewClientView_def)
  then have o: "Observe demoPrimitives b (observed demoPrimitives ?op [a]) =
      (Inr (Some \<lparr>evA = a, evB = b\<rparr>), observed demoPrimitives ?op [a])"
    using h by (simp add: Observe_valid demoRoot_inj)
  from evidence_is_genuine [OF o] o show ?thesis by blast
qed

text \<open>
  Gossip exposes equivocation to both sides. When two clients, each having observed any heads
  of one operator, gossip, then whatever the order in which Go visits the two maps the exchange
  returns, each side gets evidence for exactly the sizes at which the two had seen different
  roots, all of it verifies, and each has every head of the other at sizes new to it.
\<close>

theorem gossip_detects_equivocation:
  assumes "c = observed P op sthsC" and "other = observed P op sthsOther"
    and "distinct orderC" and "set orderC = dom (seen c)"
    and "distinct orderOther" and "set orderOther = dom (seen other)"
  shows "\<exists>evC evO c' other'.
    GossipWith P orderC orderOther (c, other) = (Inr (evC, evO), (c', other')) \<and>
    set evC = {\<lparr>evA = a, evB = b\<rparr> | a b. \<exists>n. seen c n = Some a \<and> seen other n = Some b \<and> RootHash a \<noteq> RootHash b} \<and>
    set evO = {\<lparr>evA = a, evB = b\<rparr> | a b. \<exists>n. seen other n = Some a \<and> seen c n = Some b \<and> RootHash a \<noteq> RootHash b} \<and>
    (\<forall>ev \<in> set evC \<union> set evO. VerifyEvidence P ev op = Inr ()) \<and>
    seen c' = seen other ++ seen c \<and> seen other' = seen c ++ seen other"
proof -
  have ok: "viewOk P c" "viewOk P other" and op: "cvOperatorIdentity c = op" "cvOperatorIdentity other = op"
    using assms(1,2) observed_ok by simp_all
  note sc = snapshot_facts(3) [OF ok(1) assms(3,4), unfolded op]
    and so = snapshot_facts(3) [OF ok(2) assms(5,6), unfolded op]
  let ?evC = "conflicts c (snapshot orderOther other)" and ?evO = "conflicts other (snapshot orderC c)"
  have "GossipWith P orderC orderOther (c, other) = (Inr (?evC, ?evO),
      (c\<lparr>seen := seen other ++ seen c\<rparr>, other\<lparr>seen := seen c ++ seen other\<rparr>))"
    using op by (intro GossipWith_run ok assms) simp
  moreover have "\<forall>ev \<in> set ?evC \<union> set ?evO. VerifyEvidence P ev op = Inr ()"
    using conflicts_verify [OF _ ok(1) so op(1)] conflicts_verify [OF _ ok(2) sc op(2)] by blast
  moreover note conflicts_snapshot [OF ok assms(3,4)] conflicts_snapshot [OF ok(2,1) assms(5,6)]
  ultimately show ?thesis by (intro exI conjI) (assumption | simp)+
qed

lemma gossip_detects_equivocation_witness:
  "\<exists>op a b c other evC evO views. c = observed demoPrimitives op [a] \<and> other = observed demoPrimitives op [b] \<and>
     GossipWith demoPrimitives [5] [5] (c, other) = (Inr (evC, evO), views) \<and>
     set evC = {\<lparr>evA = a, evB = b\<rparr>} \<and> VerifyEvidence demoPrimitives \<lparr>evA = a, evB = b\<rparr> op = Inr ()"
proof -
  obtain kp a b where h: "validFor demoPrimitives (identity_Public kp) a"
    "validFor demoPrimitives (identity_Public kp) b" "TreeSize a = 5" "TreeSize b = 5"
    "RootHash a = demoRoot 0" "RootHash b = demoRoot 1" by (rule demo_heads)
  let ?op = "identity_Public kp"
  let ?c = "observed demoPrimitives ?op [a]" and ?o = "observed demoPrimitives ?op [b]"
  have seen: "seen ?c = [5 \<mapsto> a]" "seen ?o = [5 \<mapsto> b]"
    using h by (simp_all add: observed_def Observe_valid NewClientView_def)
  have d: "distinct [5 :: int]" "set [5] = dom (seen ?c)" "set [5] = dom (seen ?o)"
    by (simp_all add: seen)
  from gossip_detects_equivocation [OF refl refl d(1,2) d(1,3)] obtain evC evO c' o' where
    g: "GossipWith demoPrimitives [5] [5] (?c, ?o) = (Inr (evC, evO), (c', o'))" and
    s: "set evC = {\<lparr>evA = x, evB = y\<rparr> | x y. \<exists>n. seen ?c n = Some x \<and> seen ?o n = Some y \<and> RootHash x \<noteq> RootHash y}"
      "\<forall>ev \<in> set evC \<union> set evO. VerifyEvidence demoPrimitives ev ?op = Inr ()" by (elim exE conjE) (rule that)
  have "RootHash a \<noteq> RootHash b" by (simp add: h(5,6) demoRoot_inj)
  then have "set evC = {\<lparr>evA = a, evB = b\<rparr>}" unfolding s(1) seen by (auto split: if_splits)
  with g s(2) show ?thesis by blast
qed

text \<open>
  C39: equivocation across sizes goes unseen. Heads of the operator with pairwise different sizes
  are all accepted into one view without any evidence, whatever their roots: since no
  consistency between sizes is ever checked, a log that rewrites or forks its history is
  caught only when it signs two roots for one size (witness.go).
\<close>

theorem forks_across_sizes_unseen:
  assumes "\<forall>sth \<in> set sths. OperatorIdentity sth = op \<and> VerifySTH P sth = Inr ()"
    and "distinct (map TreeSize sths)"
  shows "\<exists>c. observeAll P sths (NewClientView op) = (Inr [], c) \<and>
    (\<forall>sth \<in> set sths. seen c (TreeSize sth) = Some sth)"
proof -
  have "observeAll P sths (NewClientView op) = (Inr (conflicts (NewClientView op) sths), merged (NewClientView op) sths)"
    using assms by (intro observeAll_valid) (simp_all add: NewClientView_def validFor_def)
  moreover have "conflicts (NewClientView op) sths = []"
    by (induction sths) (simp_all add: NewClientView_def)
  moreover have "seen (merged (NewClientView op) sths) (TreeSize sth) = Some sth" if "sth \<in> set sths" for sth
    using assms(2) that by (auto simp: merged_def NewClientView_def o_def intro!: map_of_is_SomeI)
  ultimately show ?thesis by auto
qed

lemma forks_across_sizes_unseen_witness:
  "\<exists>op a b c. observeAll demoPrimitives [a, b] (NewClientView op) = (Inr [], c) \<and>
     TreeSize a = 5 \<and> TreeSize b = 4 \<and> RootHash a = demoRoot 0 \<and> RootHash b = demoRoot 1"
proof -
  obtain kp a b where h: "validFor demoPrimitives (identity_Public kp) a"
    "validFor demoPrimitives (identity_Public kp) b" "TreeSize a = 5" "TreeSize b = 4"
    "RootHash a = demoRoot 0" "RootHash b = demoRoot 1" by (rule demo_heads)
  have v: "\<forall>sth \<in> set [a, b]. OperatorIdentity sth = identity_Public kp \<and> VerifySTH demoPrimitives sth = Inr ()"
    and d: "distinct (map TreeSize [a, b])"
    using h by (simp_all add: validFor_def)
  from forks_across_sizes_unseen [OF v d] h show ?thesis by blast
qed

text \<open>
  C26: a substituted key blocks sending. If a contact's key differs from the pinned one and the log
  holds no entry with that name and key, then whatever entry and proof come with it under the
  log's current head, \<open>CheckKeyChange\<close> fed with the outcome of \<open>VerifyInclusion\<close> answers
  \<open>AlertBlocking\<close>, or the proof yields a SHA-256 collision; with an entry in the log and its
  proof the answer is \<open>AlertSoftNotice\<close>, strictly below (client.go).
\<close>

theorem substituted_key_blocks:
  assumes "signature_laws P" and "identity_Generate P w0 = (Inr kp, w1)"
    and "fold (logStep P) ops (NewLogServer kp, w) = (s, w')" and "currentSTH s = Some sth"
    and "TreeSize sth \<le> 2 ^ 32"
    and "\<forall>x \<in> set (e # entries s). length (UserID x) < 2 ^ 32 \<and> length (idEd25519 (PublicKey x)) = 32"
    and "pinned \<noteq> PublicKey e"
  shows "let alert = CheckKeyChange pinned (PublicKey e) (VerifyInclusion sth e proof = Inr ()) in
    if \<exists>x \<in> set (entries s). UserID x = UserID e \<and> PublicKey x = PublicKey e
    then VerifyInclusion sth e proof = Inr () \<longrightarrow> alert = AlertSoftNotice \<and> alert < AlertBlocking
    else alert = AlertBlocking \<or>
      (\<exists>q x y e0. log_InclusionProof s (Index e) = Inr (e0, q, sth) \<and>
        merkleCollision (leafOf e) proof (leafOf e0) q (Index e) = Some (x, y) \<and> x \<noteq> y \<and> sha256 x = sha256 y)"
proof (cases "VerifyInclusion sth e proof = Inr ()")
  case False
  then show ?thesis using assms(7) by (simp add: CheckKeyChange_def Let_def)
next
  case True
  have inv: "logInv P kp s" by (rule reachable_logInv [OF assms(1-3)])
  from only_logged [OF inv assms(4) True] obtain q where
    i: "0 \<le> Index e" "Index e < TreeSize sth" and
    q: "log_InclusionProof s (Index e) = Inr (entries s ! nat (Index e), q, sth)" and
    l: "leafOf e = leafOf (entries s ! nat (Index e)) \<or>
      brokenBy (leafOf e) proof (leafOf (entries s ! nat (Index e))) q (Index e)" by blast
  have n: "nat (Index e) < length (entries s)" "Index (entries s ! nat (Index e)) = Index e"
    using i inv assms(4) by (auto simp: logInv_def commits_def)
  then have "wellEncoded e" "wellEncoded (entries s ! nat (Index e))"
    using assms(5,6) i by (simp_all add: wellEncoded_def)
  with l leafOf_inj n(1) have "(\<exists>x \<in> set (entries s). UserID x = UserID e \<and> PublicKey x = PublicKey e) \<or>
      brokenBy (leafOf e) proof (leafOf (entries s ! nat (Index e))) q (Index e)" by (metis nth_mem)
  with q True assms(7) show ?thesis
    by (auto simp: CheckKeyChange_def less_AlertLevel_def brokenBy_def sha256Collision_iff Let_def)
qed

lemma substituted_key_blocks_witness:
  "\<exists>kp w1 s w' sth. identity_Generate demoPrimitives (demoWorld 64) = (Inr kp, w1) \<and>
     fold (logStep demoPrimitives) [LogAppend [1] (identity_Public kp), LogPublish]
       (NewLogServer kp, demoWorld 32) = (s, w') \<and> currentSTH s = Some sth \<and>
     (let e = \<lparr>Index = 7, UserID = [2], PublicKey = \<lparr>idEd25519 = replicate 32 1, idMLDSA = []\<rparr>, Timestamp = 0\<rparr>
      in CheckKeyChange (identity_Public kp) (PublicKey e) (VerifyInclusion sth e [] = Inr ()) = AlertBlocking)"
proof -
  obtain kp w1 where kp: "identity_Generate demoPrimitives (demoWorld 64) = (Inr kp, w1)"
    and gen: "genuineKeyPair demoPrimitives kp" by (rule demo_identity)
  obtain s w' sth where
    run: "fold (logStep demoPrimitives) [LogAppend [1] (identity_Public kp), LogPublish]
       (NewLogServer kp, demoWorld 32) = (s, w')" and
    sth: "currentSTH s = Some sth" "TreeSize sth = 1" and
    es: "map UserID (entries s) = [[1]]" "map PublicKey (entries s) = [identity_Public kp]"
    by (rule demo_log [OF gen])
  let ?e = "\<lparr>Index = 7, UserID = [2], PublicKey = \<lparr>idEd25519 = replicate 32 1, idMLDSA = []\<rparr>, Timestamp = 0\<rparr>"
  have "length (idMLDSA (identity_Public kp)) = 1952"
    using genuine_public(2) [OF demo_signature_laws gen] by (simp add: mldsa_PublicKeySize_def)
  then have p: "identity_Public kp \<noteq> PublicKey ?e" by auto
  obtain e0 where e0: "entries s = [e0]" "UserID e0 = [1]" "PublicKey e0 = identity_Public kp"
    using es by (cases "entries s") auto
  have sizes: "\<forall>x \<in> set (?e # entries s). length (UserID x) < 2 ^ 32 \<and> length (idEd25519 (PublicKey x)) = 32"
    using genuine_public(1) [OF demo_signature_laws gen] by (simp add: e0)
  have small: "TreeSize sth \<le> 2 ^ 32" using sth(2) by simp
  have "\<not> (\<exists>x \<in> set (entries s). UserID x = UserID ?e \<and> PublicKey x = PublicKey ?e)"
    by (simp add: e0)
  moreover have "\<nexists>e0 q. log_InclusionProof s (Index ?e) = Inr (e0, q, sth)"
    by (simp add: log_InclusionProof_def sth)
  ultimately have "CheckKeyChange (identity_Public kp) (PublicKey ?e) (VerifyInclusion sth ?e [] = Inr ()) = AlertBlocking"
    using substituted_key_blocks [OF demo_signature_laws kp run sth(1) small sizes p, of "[]"]
    by (simp only: Let_def if_False) blast
  with kp run sth(1) show ?thesis unfolding Let_def by blast
qed

end
