(* ===== verification/GossipNet.thy ===== *)
theory GossipNet
  imports Gossip Relay
begin

text \<open>
  \<open>translog/witness.go\<close> among many clients: views live in a store, \<open>GossipWith\<close> runs on two
  addresses, which may coincide, and clients observe heads and gossip in any order. Evidence of an
  equivocation arises on every path of gossip between two clients that were shown different roots.
\<close>

section \<open>Views in a store\<close>

type_synonym viewRef = nat

text \<open>A method call on the view behind a pointer.\<close>

definition viewAt :: "viewRef \<Rightarrow> (ClientView, 'a) action \<Rightarrow> (viewRef \<Rightarrow> ClientView, 'a) action" where
  "viewAt c m \<sigma> = (case m (\<sigma> c) of (r, v) \<Rightarrow> (r, \<sigma>(c := v)))"

definition gossipAt ::
  "primitives \<Rightarrow> int list \<Rightarrow> int list \<Rightarrow> viewRef \<Rightarrow> viewRef \<Rightarrow>
     (viewRef \<Rightarrow> ClientView, Evidence list \<times> Evidence list) action" where
  "gossipAt P orderC orderOther c other \<sigma> =
     (let otherSTHs = snapshot orderOther (\<sigma> other); cSTHs = snapshot orderC (\<sigma> c) in
      tryS (viewAt c (observeAll P otherSTHs)) (\<lambda>evidenceForC.
      tryS (viewAt other (observeAll P cSTHs)) (\<lambda>evidenceForOther.
      ret (evidenceForC, evidenceForOther))) \<sigma>)"

text \<open>On two different views this is the exchange of values.\<close>

lemma gossipAt_distinct:
  assumes "c \<noteq> other"
  shows "gossipAt P orderC orderOther c other \<sigma> =
    (case GossipWith P orderC orderOther (\<sigma> c, \<sigma> other) of (r, (v, v')) \<Rightarrow> (r, \<sigma>(c := v, other := v')))"
  using assms
  by (auto simp: gossipAt_def GossipWith_def viewAt_def tryS_def liftT_def liftW_def fun_eq_iff
      split: prod.split sum.split)

lemma map_add_self [simp]: "m ++ m = m"
  by (auto simp: map_add_def fun_eq_iff split: option.split)

lemma merged_self:
  assumes "viewOk P v" and "distinct order" and "set order = dom (seen v)"
  shows "merged v (snapshot order v) = v" and "conflicts v (snapshot order v) = []"
proof -
  show "merged v (snapshot order v) = v"
    by (simp add: merged_def snapshot_facts(4) [OF assms])
  have "ev \<notin> set (conflicts v (snapshot order v))" for ev
    unfolding in_conflicts snapshot_facts(2) [OF assms] by auto
  then show "conflicts v (snapshot order v) = []"
    by (metis list.set_intros(1) neq_Nil_conv)
qed

text \<open>The exchange of a view with itself changes nothing; otherwise each side learns the other's heads.\<close>

lemma gossipAt_run:
  assumes ok: "viewOk P (\<sigma> c)" "viewOk P (\<sigma> d)" and op: "cvOperatorIdentity (\<sigma> d) = cvOperatorIdentity (\<sigma> c)"
    and oc: "distinct orderC" "set orderC = dom (seen (\<sigma> c))"
    and od: "distinct orderD" "set orderD = dom (seen (\<sigma> d))"
  shows "gossipAt P orderC orderD c d \<sigma> =
    (Inr (conflicts (\<sigma> c) (snapshot orderD (\<sigma> d)), conflicts (\<sigma> d) (snapshot orderC (\<sigma> c))),
     \<sigma>(c := (\<sigma> c)\<lparr>seen := seen (\<sigma> d) ++ seen (\<sigma> c)\<rparr>, d := (\<sigma> d)\<lparr>seen := seen (\<sigma> c) ++ seen (\<sigma> d)\<rparr>))"
proof (cases "c = d")
  case False
  then show ?thesis by (simp add: gossipAt_distinct GossipWith_run [OF ok op oc od])
next
  case True
  have "observeAll P (snapshot order (\<sigma> c)) (\<sigma> c) = (Inr [], \<sigma> c)"
    if "distinct order" "set order = dom (seen (\<sigma> c))" for order
    using observeAll_valid [OF snapshot_facts(3,1) [OF ok(1) that]] merged_self [OF ok(1) that] by simp
  then show ?thesis
    using oc od by (simp add: True gossipAt_def viewAt_def tryS_step merged_self(2) [OF ok(2)])
qed

section \<open>A population of clients\<close>

datatype gossipEvent =
    Observes viewRef SignedTreeHead
  | Gossips viewRef viewRef

text \<open>
  One event, labelled with the evidence that each client gets from it. The order in which Go visits
  the two maps is open.
\<close>

inductive gossipStep :: "primitives \<Rightarrow> (viewRef \<Rightarrow> ClientView) \<Rightarrow>
    gossipEvent \<times> (viewRef \<times> Evidence) list \<Rightarrow> (viewRef \<Rightarrow> ClientView) \<Rightarrow> bool" for P where
  stepObserves: "viewAt c (Observe P sth) \<sigma> = (r, \<sigma>') \<Longrightarrow>
    gossipStep P \<sigma> (Observes c sth, case r of Inr (Some ev) \<Rightarrow> [(c, ev)] | _ \<Rightarrow> []) \<sigma>'"
| stepGossips: "distinct orderC \<Longrightarrow> set orderC = dom (seen (\<sigma> c)) \<Longrightarrow>
    distinct orderD \<Longrightarrow> set orderD = dom (seen (\<sigma> d)) \<Longrightarrow>
    gossipAt P orderC orderD c d \<sigma> = (Inr (evC, evD), \<sigma>') \<Longrightarrow>
    gossipStep P \<sigma> (Gossips c d, map (Pair c) evC @ map (Pair d) evD) \<sigma>'"

inductive_cases gossipStepE: "gossipStep P \<sigma> l \<sigma>'"

text \<open>All views are finite, verify and are of one log.\<close>

definition viewsOk :: "primitives \<Rightarrow> IdPublicKey \<Rightarrow> (viewRef \<Rightarrow> ClientView) \<Rightarrow> bool" where
  "viewsOk P op \<sigma> \<longleftrightarrow> (\<forall>c. viewOk P (\<sigma> c) \<and> cvOperatorIdentity (\<sigma> c) = op \<and> finite (dom (seen (\<sigma> c))))"

lemma viewOk_learn:
  "viewOk P v \<Longrightarrow> viewOk P v' \<Longrightarrow> cvOperatorIdentity v' = cvOperatorIdentity v \<Longrightarrow>
   viewOk P (v\<lparr>seen := seen v' ++ seen v\<rparr>)"
  by (auto simp: viewOk_def map_add_Some_iff)

lemma stepGossips_views:
  assumes ok: "viewsOk P op \<sigma>" and step: "gossipStep P \<sigma> (Gossips c d, evs) \<sigma>'"
  shows "\<sigma>' = \<sigma>(c := (\<sigma> c)\<lparr>seen := seen (\<sigma> d) ++ seen (\<sigma> c)\<rparr>, d := (\<sigma> d)\<lparr>seen := seen (\<sigma> c) ++ seen (\<sigma> d)\<rparr>)"
    and "(x, ev) \<in> set evs \<longleftrightarrow> (\<exists>n a b. ev = \<lparr>evA = a, evB = b\<rparr> \<and> RootHash a \<noteq> RootHash b \<and>
      (x = c \<and> seen (\<sigma> c) n = Some a \<and> seen (\<sigma> d) n = Some b \<or>
       x = d \<and> seen (\<sigma> d) n = Some a \<and> seen (\<sigma> c) n = Some b))"
  unfolding atomize_conj
  using step
proof cases
  case (stepGossips oC oD evC evD)
  have v: "viewOk P (\<sigma> c)" "viewOk P (\<sigma> d)" "cvOperatorIdentity (\<sigma> d) = cvOperatorIdentity (\<sigma> c)"
    using ok by (simp_all add: viewsOk_def)
  note e = conflicts_snapshot [OF v(2,1) stepGossips(4,5)] conflicts_snapshot [OF v(1,2) stepGossips(2,3)]
  have evs: "evC = conflicts (\<sigma> c) (snapshot oD (\<sigma> d))" "evD = conflicts (\<sigma> d) (snapshot oC (\<sigma> c))"
    and \<sigma>': "\<sigma>' = \<sigma>(c := (\<sigma> c)\<lparr>seen := seen (\<sigma> d) ++ seen (\<sigma> c)\<rparr>, d := (\<sigma> d)\<lparr>seen := seen (\<sigma> c) ++ seen (\<sigma> d)\<rparr>)"
    using stepGossips(6) by (simp_all add: gossipAt_run [OF v stepGossips(2-5)])
  have "(x, ev) \<in> set evs \<longleftrightarrow> x = c \<and> ev \<in> set evC \<or> x = d \<and> ev \<in> set evD"
    by (auto simp: stepGossips(1))
  then show "\<sigma>' = \<sigma>(c := (\<sigma> c)\<lparr>seen := seen (\<sigma> d) ++ seen (\<sigma> c)\<rparr>, d := (\<sigma> d)\<lparr>seen := seen (\<sigma> c) ++ seen (\<sigma> d)\<rparr>) \<and>
    ((x, ev) \<in> set evs \<longleftrightarrow> (\<exists>n a b. ev = \<lparr>evA = a, evB = b\<rparr> \<and> RootHash a \<noteq> RootHash b \<and>
      (x = c \<and> seen (\<sigma> c) n = Some a \<and> seen (\<sigma> d) n = Some b \<or>
       x = d \<and> seen (\<sigma> d) n = Some a \<and> seen (\<sigma> c) n = Some b)))"
    unfolding evs e using \<sigma>' by blast
qed

text \<open>Every event keeps the views in order, and what a view has seen.\<close>

lemma Observe_keeps: "seen v n = Some h \<Longrightarrow> seen (snd (Observe P sth v)) n = Some h"
  by (auto simp: Observe_def split: sum.split option.split)

lemma Observe_finite: "finite (dom (seen v)) \<Longrightarrow> finite (dom (seen (snd (Observe P sth v))))"
  by (auto simp: Observe_def split: sum.split option.split)

lemma gossipStep_ok:
  assumes "viewsOk P op \<sigma>" and "gossipStep P \<sigma> l \<sigma>'"
  shows "viewsOk P op \<sigma>'"
  using assms(2)
proof cases
  case (stepObserves c sth r)
  then have "\<sigma>' = \<sigma>(c := snd (Observe P sth (\<sigma> c)))" by (auto simp: viewAt_def split: prod.splits)
  with assms(1) show ?thesis by (simp add: viewsOk_def Observe_viewOk Observe_finite)
next
  case (stepGossips oC c oD d evC evD)
  from stepGossips_views(1) [OF assms(1) assms(2) [unfolded stepGossips(1)]] assms(1)
  show ?thesis by (auto simp: viewsOk_def intro: viewOk_learn)
qed

interpretation views: preserved "gossipStep P" "viewsOk P op" for P op
  by unfold_locales (rule gossipStep_ok)

lemma gossipStep_keeps:
  assumes "viewsOk P op \<sigma>" and "gossipStep P \<sigma> l \<sigma>'" and "seen (\<sigma> x) n = Some h"
  shows "seen (\<sigma>' x) n = Some h"
  using assms(2)
proof cases
  case (stepObserves c sth r)
  then have "\<sigma>' = \<sigma>(c := snd (Observe P sth (\<sigma> c)))" by (auto simp: viewAt_def split: prod.splits)
  with assms(3) show ?thesis by (auto intro: Observe_keeps)
next
  case (stepGossips oC c oD d evC evD)
  from stepGossips_views(1) [OF assms(1) assms(2) [unfolded stepGossips(1)]] assms(3)
  show ?thesis by (auto simp: map_add_Some_iff)
qed

lemma viewsOk_New: "viewsOk P op (\<lambda>_. NewClientView op)"
  by (simp add: viewsOk_def viewOk_New) (simp add: NewClientView_def)

text \<open>An exchange never fails.\<close>

lemma gossip_returns:
  assumes "viewsOk P op \<sigma>"
  shows "\<exists>evs \<sigma>'. gossipStep P \<sigma> (Gossips c d, evs) \<sigma>'"
proof -
  have v: "viewOk P (\<sigma> c)" "viewOk P (\<sigma> d)" "cvOperatorIdentity (\<sigma> d) = cvOperatorIdentity (\<sigma> c)"
    and fin: "finite (dom (seen (\<sigma> c)))" "finite (dom (seen (\<sigma> d)))"
    using assms by (simp_all add: viewsOk_def)
  obtain oC oD where o: "set oC = dom (seen (\<sigma> c))" "distinct oC" "set oD = dom (seen (\<sigma> d))" "distinct oD"
    using finite_distinct_list [OF fin(1)] finite_distinct_list [OF fin(2)] by blast
  from stepGossips [OF o(2,1,4,3) gossipAt_run [OF v o(2,1,4,3)]] show ?thesis by blast
qed

lemma gossipStep_evidence:
  assumes "viewsOk P op \<sigma>" and "gossipStep P \<sigma> (e, evs) \<sigma>'" and "(c, ev) \<in> set evs"
  shows "VerifyEvidence P ev op = Inr ()"
proof -
  have ok: "viewOk P (\<sigma> x)" "cvOperatorIdentity (\<sigma> x) = op" for x using assms(1) by (simp_all add: viewsOk_def)
  have v: "VerifyEvidence P \<lparr>evA = a, evB = b\<rparr> op = Inr ()"
    if "seen (\<sigma> x) n = Some a" "seen (\<sigma> y) n = Some b" "RootHash a \<noteq> RootHash b" for x y n a b
    using conflict_verifies [OF ok(1) [of x], of b a] that ok [of x] ok [of y]
    by (auto simp: viewOk_def validFor_def)
  from assms(2) show ?thesis
  proof cases
    case (stepObserves d sth r)
    with assms(3) obtain prior where p: "ev = \<lparr>evA = prior, evB = sth\<rparr>" "seen (\<sigma> d) (TreeSize sth) = Some prior"
      "RootHash prior \<noteq> RootHash sth" "validFor P op sth"
      using ok by (auto simp: viewAt_def Observe_def validFor_def split: prod.splits if_splits sum.splits option.splits)
    then show ?thesis using conflict_verifies [OF ok(1) [of d], of sth prior] ok(2) by simp
  next
    case (stepGossips oC c oD d evC evD)
    from stepGossips_views(2) [OF assms(1) assms(2) [unfolded stepGossips(1)]] assms(3)
    show ?thesis by (auto simp: stepGossips(2) intro: v)
  qed
qed

section \<open>Gossip spreads\<close>

text \<open>The clients that hear, directly or through others, from one in \<open>S\<close>.\<close>

fun informed :: "viewRef set \<Rightarrow> gossipEvent list \<Rightarrow> viewRef set" where
  "informed S [] = S"
| "informed S (Observes c sth # es) = informed S es"
| "informed S (Gossips c d # es) = informed (if c \<in> S \<or> d \<in> S then insert c (insert d S) else S) es"

text \<open>The two sides of an exchange are handed evidence about the size \<open>n\<close>.\<close>

definition exposes :: "int \<Rightarrow> gossipEvent \<times> (viewRef \<times> Evidence) list \<Rightarrow> bool" where
  "exposes n l \<longleftrightarrow> (\<exists>c d x y. fst l = Gossips c d \<and> TreeSize x = n \<and> TreeSize y = n \<and>
     (c, \<lparr>evA = x, evB = y\<rparr>) \<in> set (snd l) \<and> (d, \<lparr>evA = y, evB = x\<rparr>) \<in> set (snd l))"

lemma gossip_spreads:
  assumes "trace (gossipStep P) \<sigma> ls \<sigma>'" and "viewsOk P op \<sigma>"
    and "\<forall>x \<in> S. \<exists>h. seen (\<sigma> x) n = Some h \<and> RootHash h = r"
    and "seen (\<sigma> b) n = Some h'" and "RootHash h' \<noteq> r" and "b \<in> informed S (map fst ls)"
  shows "\<exists>l \<in> set ls. exposes n l"
  using assms
proof (induction arbitrary: S rule: trace.induct)
  case (trace_Cons \<sigma> l \<tau> ls \<sigma>')
  have ok: "viewsOk P op \<tau>" by (rule gossipStep_ok [OF trace_Cons.prems(1) trace_Cons.hyps(1)])
  note keeps = gossipStep_keeps [OF trace_Cons.prems(1) trace_Cons.hyps(1)]
  have S: "\<forall>x \<in> S. \<exists>h. seen (\<tau> x) n = Some h \<and> RootHash h = r" using trace_Cons.prems(2) keeps by blast
  note IH = trace_Cons.IH [OF ok _ keeps [OF trace_Cons.prems(3)] trace_Cons.prems(4)]
  show ?case
  proof (cases "fst l")
    case (Observes c sth)
    then show ?thesis using IH [OF S] trace_Cons.prems(5) by simp
  next
    case (Gossips c d)
    then obtain evs where l: "l = (Gossips c d, evs)" by (cases l) simp
    note views = stepGossips_views [OF trace_Cons.prems(1) trace_Cons.hyps(1) [unfolded l]]
    have size: "seen (\<sigma> x) n = Some h \<Longrightarrow> TreeSize h = n" for x h
      using trace_Cons.prems(1) by (simp add: viewsOk_def viewOk_def)
    show ?thesis
    proof (cases "\<exists>x y. seen (\<sigma> c) n = Some x \<and> seen (\<sigma> d) n = Some y \<and> RootHash x \<noteq> RootHash y")
      case True
      then obtain x y where xy: "seen (\<sigma> c) n = Some x" "seen (\<sigma> d) n = Some y" "RootHash x \<noteq> RootHash y"
        by blast
      then have "(c, \<lparr>evA = x, evB = y\<rparr>) \<in> set evs" "(d, \<lparr>evA = y, evB = x\<rparr>) \<in> set evs"
        using views(2) by (metis)+
      with size [OF xy(1)] size [OF xy(2)] have "exposes n l" unfolding exposes_def l by fastforce
      then show ?thesis by simp
    next
      case False
      let ?S = "if c \<in> S \<or> d \<in> S then insert c (insert d S) else S"
      have "\<exists>h. seen (\<tau> x) n = Some h \<and> RootHash h = r" if heard: "c \<in> S \<or> d \<in> S" and x: "x \<in> {c, d}" for x
      proof -
        obtain h where h: "RootHash h = r" "seen (\<sigma> c) n = Some h \<or> seen (\<sigma> d) n = Some h"
          using heard trace_Cons.prems(2) by blast
        have new: "seen (\<tau> c) n = (case seen (\<sigma> c) n of None \<Rightarrow> seen (\<sigma> d) n | Some h \<Rightarrow> Some h)"
          "seen (\<tau> d) n = (case seen (\<sigma> d) n of None \<Rightarrow> seen (\<sigma> c) n | Some h \<Rightarrow> Some h)"
          unfolding views(1) by (auto simp: map_add_def split: option.split)
        consider "seen (\<sigma> c) n = None" "seen (\<sigma> d) n = Some h" | "seen (\<sigma> c) n = Some h" "seen (\<sigma> d) n = None"
          | h1 h2 where "seen (\<sigma> c) n = Some h1" "seen (\<sigma> d) n = Some h2" "RootHash h1 = r" "RootHash h2 = r"
          using h False by (metis option.exhaust)
        then show ?thesis using x h(1) new by cases auto
      qed
      with S have "\<forall>x \<in> ?S. \<exists>h. seen (\<tau> x) n = Some h \<and> RootHash h = r" by auto
      from IH [OF this] trace_Cons.prems(5) show ?thesis by (simp add: l)
    qed
  qed
qed auto

section \<open>Property\<close>

text \<open>
  C14: gossip exposes equivocation. Any number of clients of one log start with empty views; they
  observe heads and gossip pairwise (also with themselves), in any order and whatever the order in
  which Go visits the maps. If the log has shown \<open>a\<close> and \<open>b\<close> different roots for one size, then any further
  events in which word gets from \<open>a\<close> to \<open>b\<close>, directly or through others, contain an exchange
  that hands evidence about that size to both of its sides. All evidence anyone ever gets
  verifies against the operator, and no exchange fails.
\<close>

theorem equivocation_spreads:
  assumes "trace (gossipStep P) (\<lambda>_. NewClientView op) before \<sigma>" and "trace (gossipStep P) \<sigma> after \<sigma>'"
    and "seen (\<sigma> a) n = Some ha" and "seen (\<sigma> b) n = Some hb" and "RootHash ha \<noteq> RootHash hb"
    and "b \<in> informed {a} (map fst after)"
  shows "(\<exists>l \<in> set after. exposes n l) \<and>
    (\<forall>l \<in> set (before @ after). \<forall>(c, ev) \<in> set (snd l). VerifyEvidence P ev op = Inr ()) \<and>
    (\<forall>c d. \<exists>evs \<tau>. gossipStep P \<sigma>' (Gossips c d, evs) \<tau>)"
proof -
  have ok: "viewsOk P op \<sigma>" by (rule views.inv_trace [OF assms(1) viewsOk_New])
  have genuine: "\<forall>l \<in> set ls. \<forall>(c, ev) \<in> set (snd l). VerifyEvidence P ev op = Inr ()"
    if "trace (gossipStep P) \<tau> ls \<tau>'" "viewsOk P op \<tau>" for \<tau> ls \<tau>'
    using that
  proof (induction rule: trace.induct)
    case (trace_Cons \<tau> l \<upsilon> ls \<tau>')
    have "\<forall>(c, ev) \<in> set (snd l). VerifyEvidence P ev op = Inr ()"
      using gossipStep_evidence [OF trace_Cons.prems, of "fst l" "snd l" \<upsilon>] trace_Cons.hyps(1) by auto
    with trace_Cons.IH gossipStep_ok [OF trace_Cons.prems trace_Cons.hyps(1)] show ?case by simp
  qed simp
  have "\<forall>x \<in> {a}. \<exists>h. seen (\<sigma> x) n = Some h \<and> RootHash h = RootHash ha" using assms(3) by simp
  from gossip_spreads [OF assms(2) ok this assms(4) assms(5) [symmetric] assms(6)]
  have "\<exists>l \<in> set after. exposes n l" .
  moreover have "viewsOk P op \<sigma>'" by (rule views.inv_trace [OF assms(2) ok])
  ultimately show ?thesis
    using genuine [OF assms(1) viewsOk_New] genuine [OF assms(2) ok] gossip_returns by auto
qed

lemma equivocation_spreads_witness:
  "\<exists>op a b before \<sigma> after \<sigma>'. trace (gossipStep demoPrimitives) (\<lambda>_. NewClientView op) before \<sigma> \<and>
     trace (gossipStep demoPrimitives) \<sigma> after \<sigma>' \<and> map fst before = [Observes 0 a, Observes 2 b] \<and>
     map fst after = [Gossips 0 1, Gossips 1 2] \<and> (\<exists>l \<in> set after. exposes 5 l)"
proof -
  obtain kp a b where h: "validFor demoPrimitives (identity_Public kp) a"
    "validFor demoPrimitives (identity_Public kp) b" "TreeSize a = 5" "TreeSize b = 5"
    "RootHash a = demoRoot 0" "RootHash b = demoRoot 1" by (rule demo_heads)
  let ?op = "identity_Public kp" and ?new = "NewClientView (identity_Public kp)"
  let ?va = "?new\<lparr>seen := [5 \<mapsto> a]\<rparr>" and ?vb = "?new\<lparr>seen := [5 \<mapsto> b]\<rparr>"
  let ?start = "\<lambda>_ :: viewRef. ?new"
  let ?mid = "?start(0 := ?va)"
  let ?here = "?mid(2 := ?vb)"
  have "viewAt 0 (Observe demoPrimitives a) ?start = (Inr None, ?mid)"
    "viewAt 2 (Observe demoPrimitives b) ?mid = (Inr None, ?here)"
    using h by (simp_all add: viewAt_def Observe_valid NewClientView_def)
  from stepObserves [OF this(1)] stepObserves [OF this(2)]
  have before: "trace (gossipStep demoPrimitives) ?start [(Observes 0 a, []), (Observes 2 b, [])] ?here"
    by (simp add: trace_Cons_iff) blast
  have ok: "viewsOk demoPrimitives ?op ?here" by (rule views.inv_trace [OF before viewsOk_New])
  from gossip_returns [OF ok, of 0 1] obtain evs1 \<sigma>1 where
    g1: "gossipStep demoPrimitives ?here (Gossips 0 1, evs1) \<sigma>1" by blast
  from gossip_returns [OF gossipStep_ok [OF ok g1], of 1 2] obtain evs2 \<sigma>2 where
    g2: "gossipStep demoPrimitives \<sigma>1 (Gossips 1 2, evs2) \<sigma>2" by blast
  have after: "trace (gossipStep demoPrimitives) ?here [(Gossips 0 1, evs1), (Gossips 1 2, evs2)] \<sigma>2"
    using g1 g2 by (auto simp: trace_Cons_iff simp del: fun_upd_apply)
  have "seen (?here 0) 5 = Some a" "seen (?here 2) 5 = Some b" "RootHash a \<noteq> RootHash b"
    "2 \<in> informed {0} (map fst [(Gossips 0 1, evs1), (Gossips 1 2, evs2)])"
    by (simp_all add: h demoRoot_inj)
  from equivocation_spreads [OF before after this] before after show ?thesis
    by (intro exI [where x = ?op] exI [where x = a] exI [where x = b]
        exI [where x = "[(Observes 0 a, []), (Observes 2 b, [])]"] exI [where x = ?here]
        exI [where x = "[(Gossips 0 1, evs1), (Gossips 1 2, evs2)]"] exI [where x = \<sigma>2])
      (simp del: fun_upd_apply)
qed

end
