(* ===== verification/Spec2Isabelle.thy ===== *)
theory Spec2Isabelle
  imports Replay InjectionSchedule RelayedLoss RelayBlind MessageTypes MerkleReference FirstSession GossipNet
begin

text \<open>
  PQChat (Go, under \<open>src/\<close>): end-to-end encrypted messaging with hybrid post-quantum key exchange,
  one-time prekeys, a ratchet, a content-blind relay and a transparency log of identity keys. This
  development models all of its implementation files. Definitions keep the names of the source
  (prefixed by the package or type where they clash), errors are values, and every theory opens
  with what it holds.

  \<^bold>\<open>Parts and theories.\<close>

  \<^item> \<open>Prelude\<close>: bytes, 32- and 64-bit words, \<open>encoding/binary\<close>; the type \<open>fault\<close> (an error value, a
    panic, or no return); \<open>tryE\<close> and \<open>tryS\<close>, the chaining of fallible code without and with state (a
    failing call keeps the state it reached, as in Go); the \<open>world\<close> (entropy and clock). Indexing
    and slicing (\<open>sliceAt\<close>, \<open>sliceTo\<close>, \<open>sliceFrom\<close>, \<open>beUint32\<close>) panic out of range, so that a guard the
    parsers lacked would show.
  \<^item> \<open>Sha256\<close>, \<open>Primitives\<close>: SHA-256, HMAC and HKDF are computed, since the code uses
    them as its commitments. X25519, Ed25519, ML-KEM-768, ML-DSA-65 and ChaCha20-Poly1305 are
    the fields of the parameter \<open>primitives\<close>; the calls around them (lengths, the all-zero check, panics,
    entropy) are written out. What the code relies on is stated as \<open>x25519_laws\<close>, \<open>mlkem_laws\<close>,
    \<open>signature_laws\<close>, \<open>aead_laws\<close>, all met by the concrete \<open>demoPrimitives\<close> of the witnesses.
  \<^item> \<open>Identity\<close> (\<open>crypto/identity\<close>): keypairs and the dual signature; locale \<open>signature_scheme\<close>.
  \<^item> \<open>KemHybrid\<close> (\<open>crypto/kemhybrid\<close>): encapsulation, decapsulation, the HKDF combiner; locale
    \<open>key_encapsulation\<close>.
  \<^item> \<open>Merkle\<close> (\<open>crypto/merkle\<close>): padded trees, audit paths, verification; locale \<open>vector_commitment\<close>.
    \<open>MerkleReference\<close>: the same roots and paths as the recursive definition over halves.
  \<^item> \<open>Prekey\<close> (\<open>crypto/prekey\<close>): signed batches, bundles, last-resort keys, over the three locales.
  \<^item> \<open>Header\<close>, \<open>Ratchet\<close> (\<open>crypto/ratchet\<close>): the header format (locale \<open>prefix_codec\<close>) and one party's
    ratchet state with every operation. \<open>Conversation\<close> holds the environment, two parties that send and
    receive in any interleaving, and the locale \<open>fifo_channel\<close>; \<open>RatchetSync\<close> proves that the ratchet
    is one. \<open>RatchetDelivery\<close> treats reordering, loss and replay, \<open>RatchetSafety\<close> the state invariant
    and the outcomes of decryption, \<open>RatchetLimits\<close> liveness and what forged messages can do,
    \<open>InjectionSchedule\<close> the counters behind ML-KEM injection against the history of sent messages, \<open>RatchetReorder\<close> reordering and loss across a turn: harmless, except when the
    first message of a chain that answers an ML-KEM injection is not the first to arrive.
    \<open>RatchetAsync\<close> and \<open>LossyChannel\<close> take that to whole sessions: over a network that reorders, delays
    and loses at will in both directions (step relation \<open>asyncStep\<close>), a session refines the
    unordered lossy channel \<open>lossyStep\<close> as long as that exception is excluded.
  \<^item> \<open>Wire\<close>, \<open>Session\<close> (\<open>crypto/session\<close>): envelopes, and establishment in one packet. \<open>MessageTypes\<close>:
    the sizes of what the ratchet hands to the wire, and that it always parses back.
  \<^item> \<open>Relay\<close> (\<open>relay\<close>): the server's state and methods, the step relation \<open>relayStep\<close> (a method holds
    the lock for its whole body, so concurrent callers yield a sequence of whole methods), and the locales
    \<open>simulation\<close> and \<open>preserved\<close>. A user's directory entry refines a counter, its queue a list.
    \<open>RelayBlind\<close>: nothing the server does depends on the content of envelopes.
  \<^item> \<open>Relayed\<close>: two established clients that converse through the relay, while others use it: a
    refinement of the in-order channels by encryption, envelopes and queues.
    \<open>RelayedLoss\<close>: the same with a relay that purges old messages at any time, over \<open>LossyChannel\<close>.
  \<^item> \<open>Translog\<close>, \<open>Gossip\<close> (\<open>translog\<close>): the append-only log, tree heads and proofs; views, gossip,
    evidence and the key-change alert. \<open>GossipNet\<close>: any number of clients, their views behind
    pointers in a store, observing and gossiping in any order (step relation \<open>gossipStep\<close>).
  \<^item> \<open>FirstContact\<close>: the checks of \<open>translog\<close> and \<open>crypto/prekey\<close> in a row, against a relay that
    may hand out anything; what the program's signatures are made over. \<open>FirstSession\<close> adds \<open>Session\<close>:
    after those checks Alice's first message can be read by the contact she meant.
  \<^item> \<open>Replay\<close>: the responder and the receiving side keep no record of earlier sessions, so recorded
    envelopes replay through \<open>Relay\<close>, \<open>Wire\<close>, \<open>Session\<close> and \<open>Ratchet\<close> with the same results.
  \<^item> This theory: a session over the relay, from the directory to the first plaintext.

  \<^bold>\<open>What the lemmas show.\<close> Functional correctness of each operation and of their composition
  (agreement of keys, sessions, conversations, proofs, the relay end to end); invariants of every state
  over all sequences of operations; round trips and canonicity of every wire format; refinement of
  abstract specifications; equivalence with reference definitions; independence of what a component
  should not look at; liveness of conversations; and which faults can occur. Hash-based guarantees (binding of the combiner,
  soundness of proofs) hold up to a SHA-256 collision that a function computes from the inputs at hand
  (for a tree, from the proof and the leaves that \<open>BuildTree\<close> hashed, \<open>paddedTree\<close>), so none assumes collision freedom; in the same way \<open>first_session_reaches_contact\<close> does not assume that
  signatures cannot be forged, but exhibits the forgery. Some properties state defects: a lost message or a replay that
  desynchronises, recorded sessions that replay, state changes by forged messages, an unkeyed first
  chain, a hang on a forged batch size, forks of the log that gossip cannot see.

  The design documents claim that the ratchet with its ML-KEM injection cannot desynchronise under
  reordering, loss, or injections that cross in flight. Over in-order channels this holds, whatever
  crosses; under reordering and loss, for any number of turns, it holds within the skip window
  (\<open>ratchet_refines_lossy_channel\<close>) and fails exactly where that theorem needs its side condition: when
  the answer to an injection is lost or overtaken (\<open>lost_answer_desynchronises\<close>).

  \<^bold>\<open>Bounds and loops.\<close> A Go \<open>int\<close> is 64 bits wide; \<open>nextPowerOfTwo\<close> wraps and loops for ever above
  \<open>2 ^ 62\<close>, which is the fault \<open>NoReturn\<close>; the bound \<open>2 ^ 62\<close> of the Merkle theorems is exact. All other
  loops are total functions with termination proved; no fuel is used. Message counters are 32-bit
  words and wrap. Lengths are written as 32 bits, so codecs assume fields below \<open>2 ^ 32\<close> bytes. The order
  in which Go visits a map is a parameter, and results do not depend on it.

  \<^bold>\<open>Not modelled.\<close> Secrecy and unforgeability, which are properties of the primitives against
  computational adversaries. Nil pointers handed to exported functions, and mutation of slices a
  caller keeps after passing them (keys, bundles and envelopes are values here). Memory exhaustion. The test files, the known-answer tests of the third-party
  algorithms (\<open>crypto/kat\<close>) and the documents.
\<close>

section \<open>Across components\<close>

text \<open>The relay never forgets an identity.\<close>

interpretation known: preserved relayStep "\<lambda>sw. identities (fst sw) u \<noteq> None" for u
proof unfold_locales
  fix sw sw' :: "Server \<times> world" and l
  assume known: "identities (fst sw) u \<noteq> None" and step: "relayStep sw l sw'"
  from step show "identities (fst sw') u \<noteq> None"
  proof cases
    case (stepFetchBundle v s r s' w)
    with known FetchPrekeyBundle_frame [OF stepFetchBundle(4)] show ?thesis by simp
  qed (use known in \<open>auto simp: PublishIdentity_def PublishPrekeys_def PollMessages_def PurgeExpired_eq
        SendMessage_eq dest!: directory_reads split: if_splits\<close>)
qed

text \<open>
  C1: the whole way. Bob is registered with the relay and publishes the bundles of a batch of at most
  \<open>2 ^ 32\<close> prekeys. Then anyone makes any calls, except that nobody publishes prekeys for Bob again
  (\<open>PublishPrekeys\<close> would let anybody do so) and an unused bundle is left. If Alice has 96 bytes of
  entropy, no X25519 result is all zeros and her ciphertext stays below \<open>2 ^ 32\<close> bytes, then her
  \<open>FetchPrekeyBundle\<close> gets the next unused bundle; her initial message is encoded, queued by
  \<open>SendMessage\<close> behind what waits for Bob already, handed to him by \<open>PollMessages\<close> as it was, and
  parsed to the message she built; with the private key of its index his \<open>EstablishAsResponder\<close>
  returns her plaintext, and every conversation that follows over in-order channels is faithful.
\<close>

theorem session_over_relay:
  assumes "lawful P" and "identity_Generate P w0 = (Inr alice, w1)"
    and "identity_Generate P w2 = (Inr bob, w3)"
    and "GenerateBatch P bob sz w4 = (Inr batch, w5)" and "sz \<le> 2 ^ 32"
    and "\<forall>i < length bs. batch_Bundle batch (int i) = Inr (bs ! i)" and "identities s0 u \<noteq> None"
    and "trace relayStep (PublishPrekeys u bs lr s0, r0) calls (s1, r1)" and "noRepublish u calls"
    and "k = length (issued u calls)" and "k < length bs"
    and "batch_PrivateKey batch (int k) = Inr priv"
    and "\<forall>key ad. length (chacha_seal P key zeroNonce pt ad) < 2 ^ 32" and "96 \<le> length (rng w)"
    and "ecdh_ECDH P (take 32 (rng w)) (ecdh_PublicKey P (privX25519 priv)) = Inr ss1"
    and "ecdh_ECDH P (take 32 (drop 64 (rng w))) (ecdh_PublicKey P (privX25519 priv)) = Inr ss2"
  shows "\<exists>s2 a msg w' env s3 r2 m s4 b wB'.
    FetchPrekeyBundle u s1 = (Inr (Some (bs ! k), False), s2) \<and>
    EstablishAsInitiator P alice (identity_Public bob) (bs ! k) pt w = (Inr (a, msg), w') \<and>
    InitialMessage_MarshalEnvelope msg = Inr env \<and>
    SendMessage u sender env (s2, r1) = (Inr (), (s3, r2)) \<and>
    PollMessages u s3 = (queueOf s1 u @ [m], s4) \<and> Envelope m = env \<and> From m = sender \<and>
    UnmarshalEnvelope env = Inr (InitialEnvelope msg) \<and> PrekeyIndex msg = int k \<and>
    EstablishAsResponder P bob (bs ! k) priv msg wB = (Inr (b, pt), wB') \<and>
    conversesFaithfully P a b"
proof -
  have bd: "batch_Bundle batch (int k) = Inr (bs ! k)" using assms(6,11) by blast
  note key = bundle_key [OF assms(1,3,4) bd assms(12)]
  have "int k < sz"
  proof -
    have "mlkem_laws P" "signature_laws P" using assms(1) by (simp_all add: lawful_def)
    from GenerateBatch_inv(2) [OF this Generate_genuine [OF assms(3)] assms(4)] assms(12)
    show ?thesis by (auto simp: batch_PrivateKey_def batch_Size_def split: if_splits)
  qed
  then have idx: "0 \<le> bundleIndex (bs ! k)" "bundleIndex (bs ! k) < 2 ^ 32"
    using assms(5) by (simp_all add: key(4))
  from batch_session_runs [OF assms(1,3,4) bd assms(12,14,15,16), of alice pt wB]
  obtain a msg w' b wB' where est:
    "EstablishAsInitiator P alice (identity_Public bob) (bs ! k) pt w = (Inr (a, msg), w')"
    "PrekeyIndex msg = int k" "EstablishAsResponder P bob (bs ! k) priv msg wB = (Inr (b, pt), wB')"
    "conversesFaithfully P a b" by blast
  have "initialOk msg"
    by (rule initiator_message_ok [OF assms(1) Generate_genuine [OF assms(2)] key(1,3) est(1) idx assms(13)])
  then obtain env where env: "InitialMessage_MarshalEnvelope msg = Inr env"
    "UnmarshalEnvelope env = Inr (InitialEnvelope msg)" using initial_envelope_roundtrip by blast
  have "prekeys (fst (PublishPrekeys u bs lr s0, r0)) u = Some (entryState (bs, lr, 0))"
    by (simp add: PublishPrekeys_def entryState_def Let_def)
  from directory.trace_simulated [OF assms(8) this] directory_trace [OF _ refl assms(9)] assms(10)
  have "prekeys s1 u = Some (entryState (bs, lr, k))" by fastforce
  from FetchPrekeyBundle_next [OF this assms(11)] obtain s2 where
    fetch: "FetchPrekeyBundle u s1 = (Inr (Some (bs ! k), False), s2)" by blast
  have "identities s1 u \<noteq> None"
    using known.inv_trace [OF assms(8), of u] assms(7) by (simp add: PublishPrekeys_def)
  then have s2: "identities s2 u \<noteq> None" "queueOf s2 u = queueOf s1 u"
    using FetchPrekeyBundle_frame [OF fetch] by (auto dest: queueOf_cong)
  let ?m = "\<lparr>From = sender, Envelope = env, QueuedAt = clock r1 (ticks r1)\<rparr>"
  obtain s3 r2 where send: "SendMessage u sender env (s2, r1) = (Inr (), (s3, r2))"
    "queueOf s3 u = queueOf s1 u @ [?m]"
    using s2 by (auto simp: SendMessage_eq)
  have "PollMessages u s3 = (queueOf s1 u @ [?m], s3\<lparr>queues := (queues s3)(u := None)\<rparr>)"
    by (simp add: PollMessages_def send(2))
  with est env fetch send(1) show ?thesis by fastforce
qed

lemma session_over_relay_witness:
  "\<exists>bob bd s1 s2 a msg w' env s3 r2 m s4 b wB'.
    s1 = PublishPrekeys [66] [bd] None (PublishIdentity [66] (identity_Public bob) NewServer) \<and>
    FetchPrekeyBundle [66] s1 = (Inr (Some bd, False), s2) \<and>
    EstablishAsInitiator demoPrimitives bob (identity_Public bob) bd [104, 105] (demoWorld 96) = (Inr (a, msg), w') \<and>
    InitialMessage_MarshalEnvelope msg = Inr env \<and>
    SendMessage [66] [65] env (s2, demoWorld 0) = (Inr (), (s3, r2)) \<and>
    PollMessages [66] s3 = (queueOf s1 [66] @ [m], s4) \<and> Envelope m = env \<and>
    UnmarshalEnvelope env = Inr (InitialEnvelope msg) \<and>
    EstablishAsResponder demoPrimitives bob bd demoKemPriv msg (demoWorld 0) = (Inr (b, [104, 105]), wB')"
proof -
  obtain bob w1 batch w3 bd where p:
    "identity_Generate demoPrimitives (demoWorld 64) = (Inr bob, w1)"
    "GenerateBatch demoPrimitives bob 1 (demoWorld 128) = (Inr batch, w3)"
    "batch_Bundle batch 0 = Inr bd" "batch_PrivateKey batch 0 = Inr demoKemPriv"
    by (rule demo_published)
  let ?s0 = "PublishIdentity [66] (identity_Public bob) NewServer"
  let ?s1 = "PublishPrekeys [66] [bd] None ?s0"
  have short: "\<forall>key ad. length (chacha_seal demoPrimitives key zeroNonce [104, 105] ad) < 2 ^ 32"
    by (simp add: demoPrimitives_def)
  have t: "trace relayStep (?s1, demoWorld 0) [] (?s1, demoWorld 0)" by simp
  have "\<forall>i < length [bd]. batch_Bundle batch (int i) = Inr ([bd] ! i)" using p(3) by simp
  moreover have "identities ?s0 [66] \<noteq> None" by (simp add: PublishIdentity_def)
  moreover have "noRepublish [66] []" by (simp add: noRepublish_def)
  moreover have "0 = length (issued [66] [])" by simp
  moreover have "batch_PrivateKey batch (int 0) = Inr demoKemPriv" using p(4) by simp
  ultimately have "\<exists>s2 a msg w' env s3 r2 m s4 b wB'.
    FetchPrekeyBundle [66] ?s1 = (Inr (Some ([bd] ! 0), False), s2) \<and>
    EstablishAsInitiator demoPrimitives bob (identity_Public bob) ([bd] ! 0) [104, 105] (demoWorld 96) = (Inr (a, msg), w') \<and>
    InitialMessage_MarshalEnvelope msg = Inr env \<and>
    SendMessage [66] [65] env (s2, demoWorld 0) = (Inr (), (s3, r2)) \<and>
    PollMessages [66] s3 = (queueOf ?s1 [66] @ [m], s4) \<and> Envelope m = env \<and> From m = [65] \<and>
    UnmarshalEnvelope env = Inr (InitialEnvelope msg) \<and> PrekeyIndex msg = int 0 \<and>
    EstablishAsResponder demoPrimitives bob ([bd] ! 0) demoKemPriv msg (demoWorld 0) = (Inr (b, [104, 105]), wB') \<and>
    conversesFaithfully demoPrimitives a b"
    by (intro session_over_relay [OF demo_lawful p(1) p(1) p(2) _ _ _ t _ _ _ _ short _ demo_handshake_ECDH])
      simp_all
  then show ?thesis unfolding nth_Cons_0 by blast
qed

end
